(* ===== verification/Ledger_Memory.thy ===== *)
theory Ledger_Memory
  imports Prelude
begin

text \<open>
  The in-memory reference ledger (\<^verbatim>\<open>proximadb-ledger\<close>: \<^verbatim>\<open>types.rs\<close>, \<^verbatim>\<open>memory.rs\<close>): budget
  scopes with a cap, a calendar window and a policy, reservations held as leases, settlement,
  expiry and a compare-and-swap keyspace. The state is the record \<open>ledger\<close>, one operation per
  method, the clock an argument as in the source. Unsigned quantities are 64-bit words: the
  release profile wraps on \<open>+=\<close> and the saturating operations saturate. \<open>Nanos\<close> is an \<open>i64\<close>,
  here an integer.

  The lemmas give the bookkeeping invariant \<open>ledger_inv\<close>, the accounting invariant
  \<open>scope_accounted\<close> (the reserved units of a scope are the sum of its leases), the cap invariant
  over runs of operations, idempotent settlement, timed reclamation, and compare-and-swap.
\<close>

section \<open>Data\<close>

datatype policy = Block | Warn

datatype window = Total | Daily

definition NANOS_PER_DAY :: int where
  "NANOS_PER_DAY = 86400 * 1000000000"

fun window_start_ns :: "int \<Rightarrow> window \<Rightarrow> int" where
  "window_start_ns now_ns Total = 0"
| "window_start_ns now_ns Daily = rust_div now_ns NANOS_PER_DAY * NANOS_PER_DAY"

record reservation =
  res_id :: u64
  res_scope :: string
  ceiling :: u64
  expires_at_ns :: int

record denied =
  den_scope :: string
  den_limit :: u64
  den_spent :: u64
  den_reserved :: u64
  requested_ceiling :: u64

datatype reserve_outcome = Admitted reservation | Denied denied

datatype cas_error = VersionMismatch string "u64 option" "u64 option"

record limit_spec =
  spec_limit :: "u64 option"
  spec_window :: window
  spec_policy :: policy

record ledger =
  limits :: "string \<rightharpoonup> limit_spec"
  spent_buckets :: "string \<rightharpoonup> int \<times> u64"
  reserved_units :: "string \<rightharpoonup> u64"
  leases :: "(u64 \<times> reservation) list"
  next_id :: u64
  kv :: "string \<rightharpoonup> u64 \<times> int"

definition ledger_new :: ledger where
  "ledger_new = \<lparr>limits = Map.empty, spent_buckets = Map.empty, reserved_units = Map.empty,
     leases = [], next_id = 0, kv = Map.empty\<rparr>"

section \<open>Operations\<close>

definition active_leases :: "ledger \<Rightarrow> nat" where
  "active_leases l = length (leases l)"

definition limit :: "ledger \<Rightarrow> string \<Rightarrow> u64 option" where
  "limit l scope = Option.bind (limits l scope) spec_limit"

definition policy_of :: "ledger \<Rightarrow> string \<Rightarrow> policy" where
  "policy_of l scope = (case limits l scope of None \<Rightarrow> Block | Some s \<Rightarrow> spec_policy s)"

definition spent :: "ledger \<Rightarrow> string \<Rightarrow> u64" where
  "spent l scope = (case spent_buckets l scope of None \<Rightarrow> 0 | Some (w, s) \<Rightarrow> s)"

definition reserved :: "ledger \<Rightarrow> string \<Rightarrow> u64" where
  "reserved l scope = (case reserved_units l scope of None \<Rightarrow> 0 | Some r \<Rightarrow> r)"

definition get :: "ledger \<Rightarrow> string \<Rightarrow> (u64 \<times> int) option" where
  "get l key = kv l key"

definition reservation_scope :: "ledger \<Rightarrow> u64 \<Rightarrow> string option" where
  "reservation_scope l i = map_option res_scope (map_of (leases l) i)"

definition available :: "ledger \<Rightarrow> string \<Rightarrow> u64" where
  "available l scope =
     (case limit l scope of
        None \<Rightarrow> - 1
      | Some lim \<Rightarrow> sat_sub lim (sat_add (spent l scope) (reserved l scope)))"

definition add_reserved :: "string \<Rightarrow> u64 \<Rightarrow> ledger \<Rightarrow> ledger" where
  "add_reserved scope delta l =
     l\<lparr>reserved_units := (reserved_units l)(scope \<mapsto> reserved l scope + delta)\<rparr>"

definition sub_reserved :: "string \<Rightarrow> u64 \<Rightarrow> ledger \<Rightarrow> ledger" where
  "sub_reserved scope delta l =
     l\<lparr>reserved_units := (reserved_units l)(scope \<mapsto> sat_sub (reserved l scope) delta)\<rparr>"

definition scope_window :: "ledger \<Rightarrow> string \<Rightarrow> window" where
  "scope_window l scope = (case limits l scope of None \<Rightarrow> Total | Some s \<Rightarrow> spec_window s)"

definition roll :: "string \<Rightarrow> int \<Rightarrow> ledger \<Rightarrow> ledger" where
  "roll scope now_ns l =
     (let cur = window_start_ns now_ns (scope_window l scope);
          bucket = (case spent_buckets l scope of None \<Rightarrow> (cur, 0) | Some b \<Rightarrow> b)
      in l\<lparr>spent_buckets := (spent_buckets l)
             (scope \<mapsto> (if fst bucket \<noteq> cur then (cur, 0) else bucket))\<rparr>)"

definition check_admit :: "ledger \<Rightarrow> string \<Rightarrow> u64 \<Rightarrow> denied + unit" where
  "check_admit l scope ceil =
     (case limits l scope of
        None \<Rightarrow> Inr ()
      | Some spec \<Rightarrow>
          if spec_policy spec = Block
          then (case spec_limit spec of
                  None \<Rightarrow> Inr ()
                | Some lim \<Rightarrow>
                    if lim < sat_add (sat_add (spent l scope) (reserved l scope)) ceil
                    then Inl \<lparr>den_scope = scope, den_limit = lim, den_spent = spent l scope,
                               den_reserved = reserved l scope, requested_ceiling = ceil\<rparr>
                    else Inr ())
          else Inr ())"

definition peek_next_id :: "ledger \<Rightarrow> u64" where
  "peek_next_id l = next_id l"

definition apply_reserve :: "reservation \<Rightarrow> ledger \<Rightarrow> ledger" where
  "apply_reserve r l =
     (let l1 = l\<lparr>next_id := max (next_id l) (sat_add (res_id r) 1)\<rparr>;
          l2 = add_reserved (res_scope r) (ceiling r) l1
      in l2\<lparr>leases := AList.update (res_id r) r (leases l2)\<rparr>)"

definition check_cas :: "ledger \<Rightarrow> string \<Rightarrow> u64 option \<Rightarrow> cas_error + u64" where
  "check_cas l key expected =
     (let actual = map_option fst (kv l key)
      in if actual \<noteq> expected then Inl (VersionMismatch key expected actual)
         else Inr (sat_add (case actual of None \<Rightarrow> 0 | Some v \<Rightarrow> v) 1))"

definition apply_cas :: "string \<Rightarrow> u64 \<Rightarrow> int \<Rightarrow> ledger \<Rightarrow> ledger" where
  "apply_cas key version val l = l\<lparr>kv := (kv l)(key \<mapsto> (version, val))\<rparr>"

definition set_limit :: "string \<Rightarrow> u64 option \<Rightarrow> window \<Rightarrow> policy \<Rightarrow> ledger \<Rightarrow> ledger" where
  "set_limit scope lim w p l =
     l\<lparr>limits := (limits l)(scope \<mapsto> \<lparr>spec_limit = lim, spec_window = w, spec_policy = p\<rparr>)\<rparr>"

definition new_reservation :: "string \<Rightarrow> u64 \<Rightarrow> int \<Rightarrow> int \<Rightarrow> ledger \<Rightarrow> reservation" where
  "new_reservation scope ceil now_ns ttl_ns l =
     \<lparr>res_id = peek_next_id l, res_scope = scope, ceiling = ceil,
      expires_at_ns = i64_sat_add now_ns ttl_ns\<rparr>"

definition reserve :: "string \<Rightarrow> u64 \<Rightarrow> int \<Rightarrow> int \<Rightarrow> ledger \<Rightarrow> reserve_outcome \<times> ledger" where
  "reserve scope ceil now_ns ttl_ns l =
     (let l1 = roll scope now_ns l
      in case check_admit l1 scope ceil of
           Inl d \<Rightarrow> (Denied d, l1)
         | Inr _ \<Rightarrow>
             let r = new_reservation scope ceil now_ns ttl_ns l1
             in (Admitted r, apply_reserve r l1))"

definition settle :: "u64 \<Rightarrow> u64 \<Rightarrow> int \<Rightarrow> ledger \<Rightarrow> ledger" where
  "settle i actual now_ns l =
     (case map_of (leases l) i of
        None \<Rightarrow> l
      | Some lease \<Rightarrow>
          let l1 = l\<lparr>leases := AList.delete i (leases l)\<rparr>;
              l2 = sub_reserved (res_scope lease) (ceiling lease) l1;
              l3 = roll (res_scope lease) now_ns l2
          in case spent_buckets l3 (res_scope lease) of
               None \<Rightarrow> l3
             | Some (w, s) \<Rightarrow>
                 l3\<lparr>spent_buckets := (spent_buckets l3)
                      (res_scope lease \<mapsto> (w, sat_add s actual))\<rparr>)"

definition reclaim_one :: "u64 \<Rightarrow> ledger \<Rightarrow> ledger" where
  "reclaim_one i l =
     (case map_of (leases l) i of
        None \<Rightarrow> l
      | Some lease \<Rightarrow>
          sub_reserved (res_scope lease) (ceiling lease)
            (l\<lparr>leases := AList.delete i (leases l)\<rparr>))"

definition reclaim_expired :: "int \<Rightarrow> ledger \<Rightarrow> nat \<times> ledger" where
  "reclaim_expired now_ns l =
     (let expired = map fst (filter (\<lambda>(i, r). expires_at_ns r \<le> now_ns) (leases l))
      in (length expired, fold reclaim_one expired l))"

definition compare_and_swap ::
  "string \<Rightarrow> u64 option \<Rightarrow> int \<Rightarrow> ledger \<Rightarrow> (cas_error + u64) \<times> ledger" where
  "compare_and_swap key expected new_value l =
     (case check_cas l key expected of
        Inl e \<Rightarrow> (Inl e, l)
      | Inr version \<Rightarrow> (Inr version, apply_cas key version new_value l))"

section \<open>Runs of operations\<close>

datatype ledger_op =
    SetLimit string "u64 option" window policy
  | Reserve string u64 int int
  | Settle u64 u64 int
  | Reclaim int
  | Cas string "u64 option" int

fun exec_op :: "ledger_op \<Rightarrow> ledger \<Rightarrow> ledger" where
  "exec_op (SetLimit scope lim w p) l = set_limit scope lim w p l"
| "exec_op (Reserve scope ceil now_ns ttl_ns) l = snd (reserve scope ceil now_ns ttl_ns l)"
| "exec_op (Settle i actual now_ns) l = settle i actual now_ns l"
| "exec_op (Reclaim now_ns) l = snd (reclaim_expired now_ns l)"
| "exec_op (Cas key expected v) l = snd (compare_and_swap key expected v l)"

text \<open>
  \<open>op_ok s\<close> says what the callers of scope \<open>s\<close> owe: nobody reconfigures \<open>s\<close> during the run, and a
  settlement of one of its leases reports at most the ceiling that was reserved.
\<close>

fun op_ok :: "string \<Rightarrow> ledger \<Rightarrow> ledger_op \<Rightarrow> bool" where
  "op_ok s l (SetLimit scope lim w p) = (scope \<noteq> s)"
| "op_ok s l (Settle i actual now_ns) =
     (case map_of (leases l) i of
        None \<Rightarrow> True
      | Some r \<Rightarrow> if res_scope r = s then actual \<le> ceiling r else True)"
| "op_ok s l _ = True"

fun run_ok :: "string \<Rightarrow> ledger_op list \<Rightarrow> ledger \<Rightarrow> bool" where
  "run_ok s [] l = True"
| "run_ok s (x # xs) l = (op_ok s l x \<and> run_ok s xs (exec_op x l))"

section \<open>Invariants\<close>

definition ledger_inv :: "ledger \<Rightarrow> bool" where
  "ledger_inv l \<longleftrightarrow> distinct (map fst (leases l)) \<and>
     list_all (\<lambda>(i, r). res_id r = i \<and> i < next_id l) (leases l)"

definition scope_sum :: "(u64 \<times> reservation) list \<Rightarrow> string \<Rightarrow> nat" where
  "scope_sum xs s = sum_list (map (\<lambda>(i, r). if res_scope r = s then unat (ceiling r) else 0) xs)"

definition scope_accounted :: "string \<Rightarrow> ledger \<Rightarrow> bool" where
  "scope_accounted s l \<longleftrightarrow> unat (reserved l s) = scope_sum (leases l) s"

definition cap_inv :: "string \<Rightarrow> u64 \<Rightarrow> window \<Rightarrow> ledger \<Rightarrow> bool" where
  "cap_inv s L w l \<longleftrightarrow> ledger_inv l \<and> scope_accounted s l \<and>
     limits l s = Some \<lparr>spec_limit = Some L, spec_window = w, spec_policy = Block\<rparr> \<and>
     unat (spent l s) + unat (reserved l s) \<le> unat L"

section \<open>What each operation changes\<close>

named_theorems ledger_simps \<open>fields and queries after each operation\<close>

lemma roll_fields [ledger_simps]:
  "limits (roll s now l) = limits l" "leases (roll s now l) = leases l"
  "reserved_units (roll s now l) = reserved_units l" "next_id (roll s now l) = next_id l"
  "kv (roll s now l) = kv l" "reserved (roll s now l) s' = reserved l s'"
  "scope_window (roll s now l) s' = scope_window l s'"
  by (simp_all add: roll_def reserved_def scope_window_def Let_def)

lemma spent_roll_other [ledger_simps]: "s' \<noteq> s \<Longrightarrow> spent (roll s now l) s' = spent l s'"
  by (simp add: roll_def spent_def Let_def)

lemma spent_roll_le: "unat (spent (roll s now l) s') \<le> unat (spent l s')"
  by (auto simp: roll_def spent_def Let_def split: option.splits)

lemma bucket_roll [ledger_simps]:
  "spent_buckets (roll s now l) s =
     Some (window_start_ns now (scope_window l s),
       (case spent_buckets l s of
          None \<Rightarrow> 0
        | Some (w, x) \<Rightarrow> if w = window_start_ns now (scope_window l s) then x else 0))"
  by (auto simp: roll_def Let_def split: option.splits)

lemma bucket_roll_other [ledger_simps]:
  "s' \<noteq> s \<Longrightarrow> spent_buckets (roll s now l) s' = spent_buckets l s'"
  by (simp add: roll_def Let_def)

lemma add_reserved_fields [ledger_simps]:
  "limits (add_reserved s d l) = limits l" "leases (add_reserved s d l) = leases l"
  "spent_buckets (add_reserved s d l) = spent_buckets l"
  "next_id (add_reserved s d l) = next_id l" "kv (add_reserved s d l) = kv l"
  "spent (add_reserved s d l) s' = spent l s'"
  "reserved (add_reserved s d l) s' = (if s' = s then reserved l s + d else reserved l s')"
  by (simp_all add: add_reserved_def reserved_def spent_def)

lemma sub_reserved_fields [ledger_simps]:
  "limits (sub_reserved s d l) = limits l" "leases (sub_reserved s d l) = leases l"
  "spent_buckets (sub_reserved s d l) = spent_buckets l"
  "next_id (sub_reserved s d l) = next_id l" "kv (sub_reserved s d l) = kv l"
  "spent (sub_reserved s d l) s' = spent l s'"
  "reserved (sub_reserved s d l) s' = (if s' = s then sat_sub (reserved l s) d else reserved l s')"
  by (simp_all add: sub_reserved_def reserved_def spent_def)

lemma query_updates [ledger_simps]:
  "reserved (l\<lparr>leases := x\<rparr>) s = reserved l s" "spent (l\<lparr>leases := x\<rparr>) s = spent l s"
  "reserved (l\<lparr>next_id := n\<rparr>) s = reserved l s" "spent (l\<lparr>next_id := n\<rparr>) s = spent l s"
  "reserved (l\<lparr>spent_buckets := b\<rparr>) s = reserved l s"
  "scope_window (l\<lparr>leases := x\<rparr>) s = scope_window l s"
  by (simp_all add: reserved_def spent_def scope_window_def)

lemma apply_reserve_fields [ledger_simps]:
  "limits (apply_reserve r l) = limits l" "spent_buckets (apply_reserve r l) = spent_buckets l"
  "kv (apply_reserve r l) = kv l" "spent (apply_reserve r l) s = spent l s"
  "leases (apply_reserve r l) = AList.update (res_id r) r (leases l)"
  "next_id (apply_reserve r l) = max (next_id l) (sat_add (res_id r) 1)"
  "reserved (apply_reserve r l) s =
     (if s = res_scope r then reserved l s + ceiling r else reserved l s)"
  by (simp_all add: apply_reserve_def Let_def ledger_simps)

lemma settle_none [ledger_simps]: "map_of (leases l) i = None \<Longrightarrow> settle i a now l = l"
  by (simp add: settle_def)

lemma settle_some:
  assumes "map_of (leases l) i = Some r"
  shows "limits (settle i a now l) = limits l" "kv (settle i a now l) = kv l"
    "next_id (settle i a now l) = next_id l"
    "leases (settle i a now l) = AList.delete i (leases l)"
    "reserved (settle i a now l) s =
       (if s = res_scope r then sat_sub (reserved l s) (ceiling r) else reserved l s)"
    "spent_buckets (settle i a now l) s =
       (if s = res_scope r
        then Some (window_start_ns now (scope_window l s), sat_add (spent (roll s now l) s) a)
        else spent_buckets l s)"
    "spent (settle i a now l) s =
       (if s = res_scope r then sat_add (spent (roll s now l) s) a else spent l s)"
  using assms
  by (auto simp: settle_def Let_def ledger_simps spent_def scope_window_def split: option.splits)

lemma reclaim_one_none [ledger_simps]: "map_of (leases l) i = None \<Longrightarrow> reclaim_one i l = l"
  by (simp add: reclaim_one_def)

lemma reclaim_one_fields [ledger_simps]:
  "limits (reclaim_one i l) = limits l" "kv (reclaim_one i l) = kv l"
  "next_id (reclaim_one i l) = next_id l" "spent_buckets (reclaim_one i l) = spent_buckets l"
  "leases (reclaim_one i l) = AList.delete i (leases l)" "spent (reclaim_one i l) s = spent l s"
  by (auto simp: reclaim_one_def ledger_simps spent_def alist_delete_absent split: option.splits)

lemma reclaim_one_reserved:
  "map_of (leases l) i = Some r \<Longrightarrow>
   reserved (reclaim_one i l) s =
     (if s = res_scope r then sat_sub (reserved l s) (ceiling r) else reserved l s)"
  by (simp add: reclaim_one_def ledger_simps)

lemma fold_reclaim_fields [ledger_simps]:
  "limits (fold reclaim_one xs l) = limits l" "kv (fold reclaim_one xs l) = kv l"
  "next_id (fold reclaim_one xs l) = next_id l"
  "spent_buckets (fold reclaim_one xs l) = spent_buckets l"
  "leases (fold reclaim_one xs l) = filter (\<lambda>p. fst p \<notin> set xs) (leases l)"
  by (induction xs arbitrary: l) (auto simp: ledger_simps alist_delete_filter conj_commute)

section \<open>The bookkeeping invariant\<close>

lemma ledger_invI:
  assumes "distinct (map fst (leases l))"
    and "\<And>i r. (i, r) \<in> set (leases l) \<Longrightarrow> res_id r = i \<and> i < next_id l"
  shows "ledger_inv l"
  using assms by (auto simp: ledger_inv_def list_all_iff)

lemma ledger_inv_leases:
  "ledger_inv l \<Longrightarrow> (i, r) \<in> set (leases l) \<Longrightarrow> res_id r = i \<and> i < next_id l"
  by (auto simp: ledger_inv_def list_all_iff)

lemma ledger_inv_distinct: "ledger_inv l \<Longrightarrow> distinct (map fst (leases l))"
  by (simp add: ledger_inv_def)

lemma ledger_inv_fresh: "ledger_inv l \<Longrightarrow> next_id l \<notin> fst ` set (leases l)"
  using ledger_inv_leases by fastforce

lemma ledger_inv_cong:
  "leases l' = leases l \<Longrightarrow> next_id l' = next_id l \<Longrightarrow> ledger_inv l' = ledger_inv l"
  by (simp add: ledger_inv_def)

lemma ledger_inv_filter:
  assumes "ledger_inv l" and "leases l' = filter P (leases l)" and "next_id l' = next_id l"
  shows "ledger_inv l'"
  using assms by (auto simp: ledger_inv_def list_all_iff distinct_map_filter)

lemma ledger_inv_new: "ledger_inv ledger_new"
  by (simp add: ledger_inv_def ledger_new_def)

lemma next_id_advance:
  assumes "n \<noteq> (- 1 :: u64)"
  shows "max n (sat_add n 1) = n + 1" and "n < n + 1"
proof -
  have "unat n \<noteq> 2 ^ 64 - 1"
    using assms unat_max_word [where ?'a = 64] by (simp add: word_unat_eq_iff)
  then have lt: "unat n + 1 < 2 ^ 64"
    using unat_le_max [of n] by simp
  then have u: "unat (n + 1) = unat n + 1"
    using unat_add_no_wrap [of n 1] by simp
  then show "n < n + 1"
    by (simp add: word_less_nat_alt)
  with lt show "max n (sat_add n 1) = n + 1"
    by (simp add: sat_add_def max_def)
qed

lemma apply_reserve_inv:
  assumes inv: "ledger_inv l" and n: "next_id l \<noteq> - 1" and r: "res_id r = next_id l"
  shows "ledger_inv (apply_reserve r l)"
proof (rule ledger_invI)
  note fresh = ledger_inv_fresh [OF inv]
  have adv: "next_id (apply_reserve r l) = next_id l + 1" "next_id l < next_id l + 1"
    using next_id_advance [OF n] r by (simp_all add: ledger_simps)
  show "distinct (map fst (leases (apply_reserve r l)))"
    using ledger_inv_distinct [OF inv] by (simp add: ledger_simps AList.distinct_update)
  fix i r' assume "(i, r') \<in> set (leases (apply_reserve r l))"
  then have "(i, r') \<in> set (leases l) \<or> (i = next_id l \<and> r' = r)"
    using fresh r by (auto simp: ledger_simps alist_facts)
  then show "res_id r' = i \<and> i < next_id (apply_reserve r l)"
    using adv r ledger_inv_leases [OF inv] by (auto intro: less_trans)
qed

lemma reserve_cases:
  obtains (denied) d where "reserve s c now ttl l = (Denied d, roll s now l)"
      and "check_admit (roll s now l) s c = Inl d"
    | (admitted) r where "reserve s c now ttl l = (Admitted r, apply_reserve r (roll s now l))"
      and "r = new_reservation s c now ttl (roll s now l)"
      and "check_admit (roll s now l) s c = Inr ()"
  by (cases "check_admit (roll s now l) s c") (auto simp: reserve_def Let_def)

lemma new_reservation_fields [ledger_simps]:
  "res_id (new_reservation s c now ttl l) = next_id l"
  "res_scope (new_reservation s c now ttl l) = s"
  "ceiling (new_reservation s c now ttl l) = c"
  "expires_at_ns (new_reservation s c now ttl l) = i64_sat_add now ttl"
  by (simp_all add: new_reservation_def peek_next_id_def)

lemma reserve_inv:
  assumes "ledger_inv l" and "next_id l \<noteq> - 1"
  shows "ledger_inv (snd (reserve s c now ttl l))"
proof -
  have "ledger_inv (roll s now l)"
    using assms(1) by (simp add: ledger_inv_cong [of "roll s now l" l] ledger_simps)
  then show ?thesis
    by (cases rule: reserve_cases [of s c now ttl l])
      (use assms(2) in \<open>auto intro!: apply_reserve_inv simp: ledger_simps\<close>)
qed

lemma settle_inv: "ledger_inv l \<Longrightarrow> ledger_inv (settle i a now l)"
proof (cases "map_of (leases l) i")
  case (Some r)
  then show "ledger_inv l \<Longrightarrow> ?thesis"
    by (elim ledger_inv_filter) (simp_all add: settle_some [OF Some] alist_delete_filter)
qed (simp add: ledger_simps)

lemma reclaim_inv: "ledger_inv l \<Longrightarrow> ledger_inv (snd (reclaim_expired now l))"
  by (elim ledger_inv_filter) (simp_all add: reclaim_expired_def ledger_simps)

lemma cas_fields [ledger_simps]:
  "limits (snd (compare_and_swap k e v l)) = limits l"
  "leases (snd (compare_and_swap k e v l)) = leases l"
  "next_id (snd (compare_and_swap k e v l)) = next_id l"
  "spent_buckets (snd (compare_and_swap k e v l)) = spent_buckets l"
  "reserved_units (snd (compare_and_swap k e v l)) = reserved_units l"
  by (simp_all add: compare_and_swap_def apply_cas_def split: sum.splits)

lemma set_limit_fields [ledger_simps]:
  "leases (set_limit s lim w p l) = leases l" "next_id (set_limit s lim w p l) = next_id l"
  "spent_buckets (set_limit s lim w p l) = spent_buckets l" "kv (set_limit s lim w p l) = kv l"
  "reserved_units (set_limit s lim w p l) = reserved_units l"
  "limits (set_limit s lim w p l) s' =
     (if s' = s then Some \<lparr>spec_limit = lim, spec_window = w, spec_policy = p\<rparr> else limits l s')"
  by (simp_all add: set_limit_def)

lemma exec_op_inv:
  assumes "ledger_inv l" and "next_id l \<noteq> - 1"
  shows "ledger_inv (exec_op x l)"
  using assms
  by (cases x) (simp_all add: reserve_inv settle_inv reclaim_inv ledger_simps cong: ledger_inv_cong)

lemma sat_add_one_le: "unat (sat_add (n :: u64) 1) \<le> unat n + 1"
  by (simp add: word_facts)

lemma exec_op_next_id: "unat (next_id (exec_op x l)) \<le> unat (next_id l) + 1"
proof (cases x)
  case (Reserve s c now ttl)
  then show ?thesis
    by (cases rule: reserve_cases [of s c now ttl l])
      (use sat_add_one_le in \<open>auto simp: ledger_simps max_def\<close>)
next
  case (Settle i a now)
  then show ?thesis
    by (cases "map_of (leases l) i") (simp_all add: ledger_simps settle_some)
qed (simp_all add: ledger_simps reclaim_expired_def)

section \<open>Accounting and the cap\<close>

lemma scope_sum_delete:
  assumes "distinct (map fst xs)" and "map_of xs i = Some r"
  shows "scope_sum xs s =
    (if res_scope r = s then unat (ceiling r) else 0) + scope_sum (AList.delete i xs) s"
  unfolding scope_sum_def by (subst alist_delete_sum [OF assms]) simp

lemma scope_sum_update_fresh:
  "i \<notin> fst ` set xs \<Longrightarrow>
   scope_sum (AList.update i r xs) s =
     scope_sum xs s + (if res_scope r = s then unat (ceiling r) else 0)"
  by (simp add: scope_sum_def alist_update_fresh)

lemma remove_accounted:
  assumes inv: "ledger_inv l" and acc: "scope_accounted s l" and r: "map_of (leases l) i = Some r"
    and l': "leases l' = AList.delete i (leases l)"
    and res: "reserved l' s = (if s = res_scope r then sat_sub (reserved l s) (ceiling r) else reserved l s)"
  shows "scope_accounted s l'"
    and "res_scope r = s \<Longrightarrow> unat (reserved l s) = unat (ceiling r) + unat (reserved l' s)"
  using acc scope_sum_delete [OF ledger_inv_distinct [OF inv] r, of s] l' res
  by (auto simp: scope_accounted_def word_facts)

lemma reclaim_one_accounted:
  assumes inv: "ledger_inv l" and acc: "scope_accounted s l"
  shows "ledger_inv (reclaim_one i l) \<and> scope_accounted s (reclaim_one i l) \<and>
    unat (reserved (reclaim_one i l) s) \<le> unat (reserved l s)"
proof (cases "map_of (leases l) i")
  case None
  with assms show ?thesis by (simp add: ledger_simps)
next
  case (Some r)
  have "ledger_inv (reclaim_one i l)"
    using inv by (rule ledger_inv_filter) (simp_all add: ledger_simps alist_delete_filter)
  moreover have "scope_accounted s (reclaim_one i l)"
    by (rule remove_accounted(1) [OF inv acc Some])
      (simp_all add: ledger_simps reclaim_one_reserved [OF Some])
  ultimately show ?thesis
    by (simp add: reclaim_one_reserved [OF Some] word_facts)
qed

lemma fold_reclaim_accounted:
  "ledger_inv l \<Longrightarrow> scope_accounted s l \<Longrightarrow>
   ledger_inv (fold reclaim_one xs l) \<and> scope_accounted s (fold reclaim_one xs l) \<and>
   unat (reserved (fold reclaim_one xs l) s) \<le> unat (reserved l s)"
proof (induction xs arbitrary: l)
  case Nil
  then show ?case by simp
next
  case (Cons i xs)
  from reclaim_one_accounted [OF Cons.prems, of i]
  have "ledger_inv (reclaim_one i l)" "scope_accounted s (reclaim_one i l)"
    and le: "unat (reserved (reclaim_one i l) s) \<le> unat (reserved l s)"
    by auto
  from Cons.IH [OF this(1,2)] le show ?case
    by (auto intro: order_trans)
qed

lemma admitted_fits:
  assumes "check_admit l s c = Inr ()"
    and "limits l s = Some \<lparr>spec_limit = Some L, spec_window = w, spec_policy = Block\<rparr>"
    and "L \<noteq> - 1"
  shows "unat (spent l s) + unat (reserved l s) + unat c \<le> unat L"
proof -
  have "unat L \<noteq> 2 ^ 64 - 1"
    using \<open>L \<noteq> - 1\<close> unat_max_word [where ?'a = 64] by (simp add: word_unat_eq_iff)
  with unat_le_max [of L] have L: "unat L < 2 ^ 64 - 1"
    by simp
  have "sat_add (sat_add (spent l s) (reserved l s)) c \<le> L"
    using assms(1,2) by (simp add: check_admit_def not_less split: if_splits)
  then have "unat (sat_add (sat_add (spent l s) (reserved l s)) c) \<le> unat L"
    by (simp add: word_le_nat_alt)
  with L show ?thesis
    by (simp add: word_facts min_def split: if_splits)
qed

lemma reserve_cap:
  assumes cap: "cap_inv s L w l" and n: "next_id l \<noteq> - 1" and L: "L \<noteq> - 1"
  shows "cap_inv s L w (snd (reserve s' c now ttl l))"
proof -
  let ?l1 = "roll s' now l"
  have spent_le: "unat (spent ?l1 s) \<le> unat (spent l s)"
    by (rule spent_roll_le)
  have roll_cap: "cap_inv s L w ?l1"
    using cap spent_le ledger_inv_cong [of ?l1 l]
    by (simp add: cap_inv_def scope_accounted_def ledger_simps)
  show ?thesis
  proof (cases rule: reserve_cases [of s' c now ttl l])
    case (denied d)
    with roll_cap show ?thesis by simp
  next
    case (admitted r)
    let ?l2 = "apply_reserve r ?l1"
    have inv: "ledger_inv ?l1"
      using roll_cap by (simp add: cap_inv_def)
    have "ledger_inv ?l2"
      by (rule apply_reserve_inv [OF inv]) (use n admitted in \<open>simp_all add: ledger_simps\<close>)
    moreover have "scope_sum (leases ?l2) s =
        scope_sum (leases l) s + (if s' = s then unat c else 0)"
      using ledger_inv_fresh [OF inv] admitted(2) by (simp add: ledger_simps scope_sum_update_fresh)
    moreover have "unat (reserved ?l2 s) = unat (reserved l s) + (if s' = s then unat c else 0) \<and>
        unat (spent ?l2 s) + unat (reserved ?l2 s) \<le> unat L"
    proof (cases "s' = s")
      case True
      have fits: "unat (spent ?l1 s) + unat (reserved ?l1 s) + unat c \<le> unat L"
        by (rule admitted_fits) (use admitted(3) True roll_cap L in \<open>auto simp: cap_inv_def\<close>)
      then have "unat (reserved l s) + unat c < 2 ^ LENGTH(64)"
        using unsigned_less [of L, where ?'a = nat] by (simp add: ledger_simps)
      then show ?thesis
        using fits True admitted(2) by (simp add: ledger_simps word_facts)
    next
      case False
      then show ?thesis
        using roll_cap admitted(2) by (simp add: ledger_simps cap_inv_def)
    qed
    ultimately show ?thesis
      using admitted roll_cap by (simp add: cap_inv_def scope_accounted_def ledger_simps)
  qed
qed

lemma settle_cap:
  assumes cap: "cap_inv s L w l" and ok: "op_ok s l (Settle i a now)"
  shows "cap_inv s L w (settle i a now l)"
proof (cases "map_of (leases l) i")
  case None
  with cap show ?thesis by (simp add: ledger_simps)
next
  case (Some r)
  let ?l' = "settle i a now l"
  note fields = settle_some [OF Some, where a = a and now = now]
  have inv: "ledger_inv l" and acc: "scope_accounted s l"
    using cap by (simp_all add: cap_inv_def)
  note rem = remove_accounted [OF inv acc Some fields(4) fields(5)]
  have "unat (spent ?l' s) + unat (reserved ?l' s) \<le> unat L"
  proof (cases "res_scope r = s")
    case True
    have "unat a \<le> unat (ceiling r)"
      using ok Some True by (simp add: word_le_nat_alt)
    moreover have "unat (spent ?l' s) \<le> unat (spent l s) + unat a"
      using True spent_roll_le [of s now l s] by (simp add: fields word_facts)
    ultimately show ?thesis
      using rem(2) [OF True] cap by (simp add: cap_inv_def)
  next
    case False
    then show ?thesis
      using cap by (simp add: fields cap_inv_def)
  qed
  then show ?thesis
    using settle_inv [OF inv] rem(1) cap by (simp add: cap_inv_def fields)
qed

lemma exec_op_cap:
  assumes cap: "cap_inv s L w l" and n: "next_id l \<noteq> - 1" and L: "L \<noteq> - 1" and ok: "op_ok s l x"
  shows "cap_inv s L w (exec_op x l)"
proof (cases x)
  case (SetLimit s' lim w' p)
  with cap ok show ?thesis
    by (simp add: cap_inv_def ledger_simps scope_accounted_def spent_def reserved_def cong: ledger_inv_cong)
next
  case (Reclaim now)
  let ?xs = "map fst (filter (\<lambda>(i, r). expires_at_ns r \<le> now) (leases l))"
  have "ledger_inv l" "scope_accounted s l"
    using cap by (simp_all add: cap_inv_def)
  from fold_reclaim_accounted [OF this, of ?xs] cap Reclaim show ?thesis
    by (simp add: cap_inv_def reclaim_expired_def Let_def ledger_simps spent_def)
next
  case (Cas k e v)
  with cap show ?thesis
    by (simp add: cap_inv_def ledger_simps scope_accounted_def spent_def reserved_def cong: ledger_inv_cong)
qed (use assms in \<open>simp_all add: reserve_cap settle_cap del: op_ok.simps\<close>)

lemma run_cap:
  assumes "cap_inv s L w l" and "L \<noteq> - 1" and "run_ok s xs l"
    and "unat (next_id l) + length xs < 2 ^ 64"
  shows "cap_inv s L w (fold exec_op xs l)"
  using assms
proof (induction xs arbitrary: l)
  case Nil
  then show ?case by simp
next
  case (Cons x xs)
  have "unat (next_id l) < 2 ^ 64 - 1"
    using Cons.prems(4) by simp
  then have n: "next_id l \<noteq> - 1"
    using unat_max_word [where ?'a = 64] by auto
  have "cap_inv s L w (exec_op x l)"
    by (rule exec_op_cap [OF Cons.prems(1) n Cons.prems(2)]) (use Cons.prems(3) in simp)
  moreover have "unat (next_id (exec_op x l)) + length xs < 2 ^ 64"
    using Cons.prems(4) exec_op_next_id [of x l] by simp
  ultimately show ?case
    using Cons by simp
qed

lemma reclaim_filter:
  assumes "ledger_inv l" and "scope_accounted s l"
  shows "leases (snd (reclaim_expired now_ns l)) = filter (\<lambda>(i, r). now_ns < expires_at_ns r) (leases l)"
    and "unat (reserved (snd (reclaim_expired now_ns l)) s) =
           scope_sum (leases (snd (reclaim_expired now_ns l))) s"
proof -
  let ?E = "\<lambda>(i, r :: reservation). expires_at_ns r \<le> now_ns"
  let ?xs = "map fst (filter ?E (leases l))"
  have "fst p \<in> set ?xs \<longleftrightarrow> ?E p" if "p \<in> set (leases l)" for p
    using that ledger_inv_distinct [OF assms(1)]
    by (cases p) (auto simp: image_iff dest: eq_key_imp_eq_value)
  then have "filter (\<lambda>p. fst p \<notin> set ?xs) (leases l) =
      filter (\<lambda>(i, r). now_ns < expires_at_ns r) (leases l)"
    by (intro filter_cong) (auto simp: not_le)
  then show "leases (snd (reclaim_expired now_ns l)) = filter (\<lambda>(i, r). now_ns < expires_at_ns r) (leases l)"
    by (simp add: reclaim_expired_def Let_def ledger_simps)
  show "unat (reserved (snd (reclaim_expired now_ns l)) s) =
      scope_sum (leases (snd (reclaim_expired now_ns l))) s"
    using fold_reclaim_accounted [OF assms, where xs = ?xs]
    by (simp add: reclaim_expired_def Let_def scope_accounted_def)
qed

section \<open>Compare and swap\<close>

lemma cas_success:
  "compare_and_swap k e v l = (Inr ver, l') \<longleftrightarrow>
   map_option fst (kv l k) = e \<and> ver = sat_add (case e of None \<Rightarrow> 0 | Some x \<Rightarrow> x) 1 \<and>
   l' = apply_cas k ver v l"
  by (auto simp: compare_and_swap_def check_cas_def Let_def)

lemma cas_mismatch:
  "map_option fst (kv l k) \<noteq> e \<Longrightarrow>
   compare_and_swap k e v l = (Inl (VersionMismatch k e (map_option fst (kv l k))), l)"
  by (simp add: compare_and_swap_def check_cas_def Let_def)

lemma exec_op_version_mono:
  assumes "kv l k = Some (a, x)"
  shows "\<exists>a' x'. kv (exec_op y l) k = Some (a', x') \<and> a \<le> a'"
proof (cases y)
  case (Reserve s c now ttl)
  with assms show ?thesis
    by (cases rule: reserve_cases [of s c now ttl l]) (auto simp: ledger_simps)
next
  case (Settle i b now)
  with assms show ?thesis
    by (cases "map_of (leases l) i") (auto simp: ledger_simps settle_some)
next
  case (Cas k' e v)
  show ?thesis
  proof (cases "compare_and_swap k' e v l")
    case (Pair res l')
    show ?thesis
    proof (cases res)
      case (Inl err)
      with Pair Cas assms show ?thesis
        by (auto simp: compare_and_swap_def split: sum.splits)
    next
      case (Inr ver)
      have "a \<le> sat_add a 1"
        using unat_le_max [of a] by (simp add: word_le_nat_alt word_facts)
      from Pair Cas have y: "exec_op y l = l'" by simp
      from Pair Inr have "map_option fst (kv l k') = e"
        and "l' = apply_cas k' (sat_add (case e of None \<Rightarrow> 0 | Some x \<Rightarrow> x) 1) v l"
        by (simp_all add: cas_success)
      with y assms \<open>a \<le> sat_add a 1\<close> show ?thesis
        by (auto simp: apply_cas_def)
    qed
  qed
qed (use assms in \<open>auto simp: ledger_simps reclaim_expired_def Let_def\<close>)

lemma run_version_mono:
  "kv l k = Some (a, x) \<Longrightarrow> \<exists>a' x'. kv (fold exec_op ys l) k = Some (a', x') \<and> a \<le> a'"
proof (induction ys arbitrary: l a x)
  case Nil
  then show ?case by simp
next
  case (Cons y ys)
  obtain b z where b: "kv (exec_op y l) k = Some (b, z)" "a \<le> b"
    using exec_op_version_mono [OF Cons.prems] by blast
  from Cons.IH [OF b(1)] b(2) show ?case
    by (auto intro: order_trans)
qed

section \<open>Properties\<close>

lemmas ledger_eval = ledger_new_def set_limit_def reserve_def roll_def check_admit_def
  apply_reserve_def add_reserved_def sub_reserved_def new_reservation_def peek_next_id_def
  settle_def reclaim_expired_def reclaim_one_def scope_window_def spent_def reserved_def Let_def
  i64_sat_add_def i64_max_def i64_min_def sat_add_def sat_sub_def

text \<open>
  C1: the hard cap (C1 of the crate's contract). Take a scope with a \<open>Block\<close> cap \<open>L\<close> (any cap but
  the largest \<open>u64\<close>, at which the saturating check cannot see an overflow) and any interleaving of
  operations of any callers on any scopes, in which nobody reconfigures the scope and settlements
  of its leases stay within their ceilings. After every such run, spend plus held reservations is at
  most the cap, and the held units are exactly the ceilings of the scope's live leases.
\<close>

theorem cap_never_overshot:
  assumes "L \<noteq> - 1"
    and "run_ok s ops (set_limit s (Some L) w Block ledger_new)"
    and "length ops < 2 ^ 64"
  shows "let l = fold exec_op ops (set_limit s (Some L) w Block ledger_new)
         in unat (spent l s) + unat (reserved l s) \<le> unat L \<and>
            unat (reserved l s) = scope_sum (leases l) s"
proof -
  let ?l0 = "set_limit s (Some L) w Block ledger_new"
  have "cap_inv s L w ?l0"
    by (simp add: cap_inv_def ledger_inv_def scope_accounted_def scope_sum_def spent_def
        reserved_def set_limit_def ledger_new_def)
  moreover have "unat (next_id ?l0) + length ops < 2 ^ 64"
    using assms(3) by (simp add: set_limit_def ledger_new_def)
  ultimately have "cap_inv s L w (fold exec_op ops ?l0)"
    using assms(1,2) by (intro run_cap)
  then show ?thesis
    by (simp add: cap_inv_def scope_accounted_def Let_def)
qed

theorem cap_never_overshot_witness:
  "run_ok ''g'' [Reserve ''g'' 100 0 60, Reserve ''g'' 1 0 60, Settle 0 40 0]
     (set_limit ''g'' (Some 100) Total Block ledger_new) \<and>
   (let l = fold exec_op [Reserve ''g'' 100 0 60, Reserve ''g'' 1 0 60, Settle 0 40 0]
              (set_limit ''g'' (Some 100) Total Block ledger_new)
    in unat (spent l ''g'') + unat (reserved l ''g'') \<le> unat (100 :: u64))"
proof -
  have ok: "run_ok ''g'' [Reserve ''g'' 100 0 60, Reserve ''g'' 1 0 60, Settle 0 40 0]
     (set_limit ''g'' (Some 100) Total Block ledger_new)"
    by (simp add: ledger_eval)
  show ?thesis
    using ok cap_never_overshot [OF _ ok] by (simp add: Let_def)
qed

text \<open>
  Settlement is idempotent (C3 of the contract): settling a reservation again, with any amount
  and at any time, changes nothing, so at-least-once delivery never double-counts.
\<close>

theorem settle_idempotent: "settle i b later (settle i a now_ns l) = settle i a now_ns l"
proof (cases "map_of (leases l) i")
  case (Some r)
  have "map_of (leases (settle i a now_ns l)) i = None"
    by (simp add: settle_some [OF Some] alist_facts)
  then show ?thesis by (simp add: ledger_simps)
qed (simp add: ledger_simps)

text \<open>
  Timed reclamation (C2 of the contract). On a ledger whose accounting is in order,
  \<open>reclaim_expired\<close> removes exactly the leases expired at or before the given time, returns their
  number, records no spend, and leaves each scope holding exactly the ceilings of its remaining
  leases.
\<close>

theorem reclaim_expired_exact:
  assumes "ledger_inv l" and "scope_accounted s l"
  shows "let (n, l') = reclaim_expired now_ns l
         in leases l' = filter (\<lambda>(i, r). now_ns < expires_at_ns r) (leases l) \<and>
            n + length (leases l') = length (leases l) \<and>
            spent_buckets l' = spent_buckets l \<and> limits l' = limits l \<and> kv l' = kv l \<and>
            unat (reserved l' s) = scope_sum (leases l') s"
proof -
  let ?E = "\<lambda>(i, r :: reservation). expires_at_ns r \<le> now_ns"
  have "length (filter ?E (leases l)) + length (filter (\<lambda>(i, r). now_ns < expires_at_ns r) (leases l))
      = length (leases l)"
    using sum_length_filter_compl [of ?E "leases l"] by (simp add: case_prod_unfold not_le)
  with reclaim_filter [OF assms, of now_ns] show ?thesis
    by (simp add: reclaim_expired_def Let_def ledger_simps(1-4) fold_reclaim_fields(1-4))
qed

theorem reclaim_expired_exact_witness:
  "(let l = snd (reserve ''g'' 80 0 60 ledger_new)
    in ledger_inv l \<and> scope_accounted ''g'' l \<and>
       unat (reserved (snd (reclaim_expired 61 l)) ''g'') = 0)"
proof -
  define l where "l = snd (reserve ''g'' 80 0 60 ledger_new)"
  have inv: "ledger_inv l" and acc: "scope_accounted ''g'' l"
    unfolding l_def by (simp_all add: ledger_inv_def scope_accounted_def scope_sum_def ledger_eval)
  have "leases (snd (reclaim_expired 61 l)) = []"
    unfolding l_def by (simp add: ledger_eval)
  with reclaim_expired_exact [OF inv acc, of 61] have "unat (reserved (snd (reclaim_expired 61 l)) ''g'') = 0"
    by (simp add: scope_sum_def split_beta Let_def)
  with inv acc show ?thesis
    by (simp add: l_def Let_def)
qed

text \<open>
  Compare-and-swap has no lost update. Once a write with expectation \<open>e\<close> has won, every later
  write of the same key with the same expectation is refused with the observed version, whatever
  operations ran in between, and changes nothing (the expectation is not the largest version,
  where the version counter saturates).
\<close>

theorem cas_single_winner:
  assumes "compare_and_swap key e v l = (Inr ver, l1)" and "e \<noteq> Some (- 1)"
  shows "\<exists>actual \<ge> ver. compare_and_swap key e v' (fold exec_op ops l1) =
           (Inl (VersionMismatch key e (Some actual)), fold exec_op ops l1)"
proof -
  from assms(1) have l1: "kv l1 key = Some (ver, v)" and ver: "ver = sat_add (case e of None \<Rightarrow> 0 | Some x \<Rightarrow> x) 1"
    by (auto simp: cas_success apply_cas_def)
  from run_version_mono [OF l1] obtain a x where
    a: "kv (fold exec_op ops l1) key = Some (a, x)" "ver \<le> a" by blast
  have "e \<noteq> Some a"
  proof
    assume e: "e = Some a"
    then have "unat a \<noteq> 2 ^ 64 - 1"
      using assms(2) unat_max_word [where ?'a = 64] by (simp add: word_unat_eq_iff)
    with a(2) ver e show False
      using unat_le_max [of a] by (simp add: word_le_nat_alt word_facts)
  qed
  then have "map_option fst (kv (fold exec_op ops l1) key) \<noteq> e"
    using a(1) by auto
  from cas_mismatch [OF this] a show ?thesis by auto
qed

theorem cas_single_winner_witness:
  "compare_and_swap ''k'' None 10 ledger_new = (Inr 1, apply_cas ''k'' 1 10 ledger_new) \<and>
   (\<exists>actual \<ge> (1 :: u64). compare_and_swap ''k'' None 5
        (fold exec_op [Cas ''k'' (Some 1) 20] (apply_cas ''k'' 1 10 ledger_new)) =
      (Inl (VersionMismatch ''k'' None (Some actual)),
       fold exec_op [Cas ''k'' (Some 1) 20] (apply_cas ''k'' 1 10 ledger_new)))"
proof -
  have c: "compare_and_swap ''k'' None 10 ledger_new = (Inr 1, apply_cas ''k'' 1 10 ledger_new)"
    by (simp add: cas_success ledger_new_def)
  show ?thesis
    using c cas_single_winner [OF c, of 5 "[Cas ''k'' (Some 1) 20]"] by simp
qed

end
