(* ===== verification/Ledger_Durable.thy ===== *)
theory Ledger_Durable
  imports Ledger_Memory
begin

text \<open>
  The durable ledger (\<^verbatim>\<open>proximadb-ledger/src/durable.rs\<close>): the in-memory ledger fronted by an
  append-only log of CRC-framed records, replayed on open.

  The log file is a byte list together with the length of its prefix that is known to be on stable
  storage (\<open>synced\<close>). The record codec is the \<^verbatim>\<open>bincode\<close> crate: its serializer and deserializer are
  the arguments \<open>ser\<close> and \<open>deser\<close> of the definitions, and what the code relies on (a serialized
  record is read back) is the hypothesis \<open>codec_ok\<close> of the theorems. Every append takes the outcome
  of its file operations as an argument: \<open>IoErr n\<close> is a failure after \<open>n\<close> bytes of the frame reached
  the file.

  The lemmas show that frames are read back, that a torn tail is dropped, that the live state is
  the in-memory ledger's, that a restart followed by a sweep gives the live ledger followed by the
  same sweep, and where this fails: records appended behind a torn tail, and a settlement that
  arrives after its lease was reclaimed.
\<close>

section \<open>Records, checksum, frames\<close>

datatype sync_policy = PerOp | Deferred

datatype log_record =
    LogSetLimit string "u64 option" u8 u8
  | LogReserve u64 string u64 int
  | LogSettle u64 u64 int
  | LogCas string u64 int

fun policy_to_u8 :: "policy \<Rightarrow> u8" where
  "policy_to_u8 Block = 0"
| "policy_to_u8 Warn = 1"

definition policy_from_u8 :: "u8 \<Rightarrow> policy" where
  "policy_from_u8 v = (if v = 1 then Warn else Block)"

fun window_to_u8 :: "window \<Rightarrow> u8" where
  "window_to_u8 Total = 0"
| "window_to_u8 Daily = 1"

definition window_from_u8 :: "u8 \<Rightarrow> window" where
  "window_from_u8 v = (if v = 1 then Daily else Total)"

definition crc_bit :: "u32 \<Rightarrow> u32" where
  "crc_bit crc = (let mask = - (crc AND 1) in drop_bit 1 crc XOR (0xEDB88320 AND mask))"

definition crc_byte :: "u8 \<Rightarrow> u32 \<Rightarrow> u32" where
  "crc_byte byte crc = (crc_bit ^^ 8) (crc XOR ucast byte)"

definition crc32 :: "bytes \<Rightarrow> u32" where
  "crc32 data = NOT (fold crc_byte data 0xFFFFFFFF)"

definition frame :: "bytes \<Rightarrow> bytes" where
  "frame payload =
     le_bytes 4 (length payload) @ le_bytes 4 (unat (crc32 payload)) @ payload"

definition read_exact :: "nat \<Rightarrow> bytes \<Rightarrow> (bytes \<times> bytes) option" where
  "read_exact n bs = (if n \<le> length bs then Some (take n bs, drop n bs) else None)"

definition read_record :: "(bytes \<Rightarrow> log_record option) \<Rightarrow> bytes \<Rightarrow> (log_record \<times> bytes) option" where
  "read_record deser bs =
     (case read_exact 4 bs of
        None \<Rightarrow> None
      | Some (len_buf, bs1) \<Rightarrow>
          (case read_exact 4 bs1 of
             None \<Rightarrow> None
           | Some (crc_buf, bs2) \<Rightarrow>
               (case read_exact (le_value len_buf) bs2 of
                  None \<Rightarrow> None
                | Some (payload, bs3) \<Rightarrow>
                    if unat (crc32 payload) \<noteq> le_value crc_buf then None
                    else map_option (\<lambda>r. (r, bs3)) (deser payload))))"

fun apply_record :: "log_record \<Rightarrow> ledger \<Rightarrow> ledger" where
  "apply_record (LogSetLimit scope lim w p) l =
     set_limit scope lim (window_from_u8 w) (policy_from_u8 p) l"
| "apply_record (LogReserve i scope ceil exp) l =
     apply_reserve \<lparr>res_id = i, res_scope = scope, ceiling = ceil, expires_at_ns = exp\<rparr> l"
| "apply_record (LogSettle i actual settled_at) l = settle i actual settled_at l"
| "apply_record (LogCas key version val) l = apply_cas key version val l"

lemma read_record_shorter: "read_record deser bs = Some (r, rest) \<Longrightarrow> length rest < length bs"
  by (auto simp: read_record_def read_exact_def split: option.splits if_splits) linarith

function replay :: "(bytes \<Rightarrow> log_record option) \<Rightarrow> bytes \<Rightarrow> ledger \<Rightarrow> ledger" where
  "replay deser bs l =
     (case read_record deser bs of
        None \<Rightarrow> l
      | Some (r, rest) \<Rightarrow> replay deser rest (apply_record r l))"
  by pat_completeness auto
termination
  by (relation "measure (\<lambda>(deser, bs, l). length bs)") (auto dest: read_record_shorter)

declare replay.simps [simp del]

section \<open>The durable ledger\<close>

record durable =
  mem :: ledger
  wal :: bytes
  synced :: nat
  sync :: sync_policy

datatype io_result = IoOk | IoErr nat

definition durable_open :: "(bytes \<Rightarrow> log_record option) \<Rightarrow> sync_policy \<Rightarrow> bytes \<Rightarrow> durable" where
  "durable_open deser sp file =
     \<lparr>mem = replay deser file ledger_new, wal = file, synced = length file, sync = sp\<rparr>"

definition flush :: "durable \<Rightarrow> durable" where
  "flush d = d\<lparr>synced := length (wal d)\<rparr>"

definition append_record ::
  "(log_record \<Rightarrow> bytes option) \<Rightarrow> io_result \<Rightarrow> log_record \<Rightarrow> durable \<Rightarrow> bool \<times> durable" where
  "append_record ser io r d =
     (case ser r of
        None \<Rightarrow> (False, d)
      | Some payload \<Rightarrow>
          if 2 ^ 32 \<le> length payload then (False, d)
          else (case io of
                  IoOk \<Rightarrow>
                    let d1 = d\<lparr>wal := wal d @ frame payload\<rparr>
                    in (True, if sync d = PerOp then flush d1 else d1)
                | IoErr n \<Rightarrow> (False, d\<lparr>wal := wal d @ take n (frame payload)\<rparr>)))"

definition durable_set_limit ::
  "(log_record \<Rightarrow> bytes option) \<Rightarrow> io_result \<Rightarrow> string \<Rightarrow> u64 option \<Rightarrow> window \<Rightarrow> policy \<Rightarrow>
   durable \<Rightarrow> durable" where
  "durable_set_limit ser io scope lim w p d =
     (case append_record ser io (LogSetLimit scope lim (window_to_u8 w) (policy_to_u8 p)) d of
        (False, d1) \<Rightarrow> d1
      | (True, d1) \<Rightarrow> d1\<lparr>mem := set_limit scope lim w p (mem d1)\<rparr>)"

definition durable_reserve ::
  "(log_record \<Rightarrow> bytes option) \<Rightarrow> io_result \<Rightarrow> string \<Rightarrow> u64 \<Rightarrow> int \<Rightarrow> int \<Rightarrow>
   durable \<Rightarrow> reserve_outcome \<times> durable" where
  "durable_reserve ser io scope ceil now_ns ttl_ns d =
     (let d1 = d\<lparr>mem := roll scope now_ns (mem d)\<rparr>
      in case check_admit (mem d1) scope ceil of
           Inl den \<Rightarrow> (Denied den, d1)
         | Inr _ \<Rightarrow>
             let r = new_reservation scope ceil now_ns ttl_ns (mem d1)
             in case append_record ser io
                       (LogReserve (res_id r) (res_scope r) (ceiling r) (expires_at_ns r)) d1 of
                  (False, d2) \<Rightarrow>
                    (Denied \<lparr>den_scope = scope,
                       den_limit = (case limit (mem d2) scope of None \<Rightarrow> 0 | Some x \<Rightarrow> x),
                       den_spent = spent (mem d2) scope,
                       den_reserved = reserved (mem d2) scope,
                       requested_ceiling = ceil\<rparr>, d2)
                | (True, d2) \<Rightarrow> (Admitted r, d2\<lparr>mem := apply_reserve r (mem d2)\<rparr>))"

definition durable_settle ::
  "(log_record \<Rightarrow> bytes option) \<Rightarrow> io_result \<Rightarrow> u64 \<Rightarrow> u64 \<Rightarrow> int \<Rightarrow> durable \<Rightarrow> durable" where
  "durable_settle ser io i actual now_ns d =
     (case append_record ser io (LogSettle i actual now_ns) d of
        (False, d1) \<Rightarrow> d1
      | (True, d1) \<Rightarrow> d1\<lparr>mem := settle i actual now_ns (mem d1)\<rparr>)"

definition durable_reclaim_expired :: "int \<Rightarrow> durable \<Rightarrow> nat \<times> durable" where
  "durable_reclaim_expired now_ns d =
     (let (n, l) = reclaim_expired now_ns (mem d) in (n, d\<lparr>mem := l\<rparr>))"

definition durable_compare_and_swap ::
  "(log_record \<Rightarrow> bytes option) \<Rightarrow> io_result \<Rightarrow> string \<Rightarrow> u64 option \<Rightarrow> int \<Rightarrow>
   durable \<Rightarrow> (cas_error + u64) \<times> durable" where
  "durable_compare_and_swap ser io key expected new_value d =
     (case check_cas (mem d) key expected of
        Inl e \<Rightarrow> (Inl e, d)
      | Inr version \<Rightarrow>
          (case append_record ser io (LogCas key version new_value) d of
             (False, d1) \<Rightarrow>
               (Inl (VersionMismatch key expected (map_option fst (get (mem d1) key))), d1)
           | (True, d1) \<Rightarrow> (Inr version, d1\<lparr>mem := apply_cas key version new_value (mem d1)\<rparr>)))"

fun durable_exec ::
  "(log_record \<Rightarrow> bytes option) \<Rightarrow> io_result \<Rightarrow> ledger_op \<Rightarrow> durable \<Rightarrow> durable" where
  "durable_exec ser io (SetLimit scope lim w p) d = durable_set_limit ser io scope lim w p d"
| "durable_exec ser io (Reserve scope ceil now ttl) d =
     snd (durable_reserve ser io scope ceil now ttl d)"
| "durable_exec ser io (Settle i actual now) d = durable_settle ser io i actual now d"
| "durable_exec ser io (Reclaim now) d = snd (durable_reclaim_expired now d)"
| "durable_exec ser io (Cas key expected v) d =
     snd (durable_compare_and_swap ser io key expected v d)"

section \<open>The records of a run\<close>

fun op_records :: "ledger_op \<Rightarrow> ledger \<Rightarrow> log_record list" where
  "op_records (SetLimit scope lim w p) l =
     [LogSetLimit scope lim (window_to_u8 w) (policy_to_u8 p)]"
| "op_records (Reserve scope ceil now ttl) l =
     (case fst (reserve scope ceil now ttl l) of
        Denied _ \<Rightarrow> []
      | Admitted r \<Rightarrow> [LogReserve (res_id r) (res_scope r) (ceiling r) (expires_at_ns r)])"
| "op_records (Settle i actual now) l = [LogSettle i actual now]"
| "op_records (Reclaim now) l = []"
| "op_records (Cas key expected v) l =
     (case check_cas l key expected of Inl _ \<Rightarrow> [] | Inr ver \<Rightarrow> [LogCas key ver v])"

fun run_records :: "ledger_op list \<Rightarrow> ledger \<Rightarrow> log_record list" where
  "run_records [] l = []"
| "run_records (x # xs) l = op_records x l @ run_records xs (exec_op x l)"

text \<open>The documented behaviour of the record codec on one record.\<close>

definition codec_ok ::
  "(log_record \<Rightarrow> bytes option) \<Rightarrow> (bytes \<Rightarrow> log_record option) \<Rightarrow> log_record \<Rightarrow> bool" where
  "codec_ok ser deser r \<longleftrightarrow>
     (case ser r of None \<Rightarrow> False | Some p \<Rightarrow> length p < 2 ^ 32 \<and> deser p = Some r)"

definition frames :: "(log_record \<Rightarrow> bytes option) \<Rightarrow> log_record list \<Rightarrow> bytes" where
  "frames ser rs = concat (map (\<lambda>r. case ser r of None \<Rightarrow> [] | Some p \<Rightarrow> frame p) rs)"

function read_all :: "(bytes \<Rightarrow> log_record option) \<Rightarrow> bytes \<Rightarrow> log_record list" where
  "read_all deser bs =
     (case read_record deser bs of
        None \<Rightarrow> []
      | Some (r, rest) \<Rightarrow> r # read_all deser rest)"
  by pat_completeness auto
termination
  by (relation "measure (\<lambda>(deser, bs). length bs)") (auto dest: read_record_shorter)

declare read_all.simps [simp del]

section \<open>Framing\<close>

lemma read_exact_append [simp]: "n = length xs \<Longrightarrow> read_exact n (xs @ ys) = Some (xs, ys)"
  by (simp add: read_exact_def)

lemma crc_value: "le_value (le_bytes 4 (unat (crc32 p))) = unat (crc32 p)"
  by (rule le_value_unat) simp

lemma len_value: "length p < 2 ^ 32 \<Longrightarrow> le_value (le_bytes 4 (length p)) = length p"
  by (simp add: byte_facts)

lemma read_record_frame:
  assumes "length p < 2 ^ 32"
  shows "read_record deser (frame p @ rest) = map_option (\<lambda>r. (r, rest)) (deser p)"
  using len_value [OF assms] crc_value [of p]
  by (simp add: read_record_def frame_def)

lemma read_record_torn:
  assumes "length p < 2 ^ 32" and "k < length (frame p)"
  shows "read_record deser (take k (frame p)) = None"
proof -
  consider "k < 4" | "4 \<le> k" "k < 8" | "8 \<le> k" by linarith
  then show ?thesis
  proof cases
    case 1
    then show ?thesis
      by (simp add: read_record_def read_exact_def frame_def)
  next
    case 2
    then have "\<not> 4 \<le> k - 4"
      by simp
    with 2 show ?thesis
      by (simp add: read_record_def read_exact_def frame_def)
  next
    case 3
    have "take k (frame p) = le_bytes 4 (length p) @ le_bytes 4 (unat (crc32 p)) @ take (k - 8) p"
      using 3 by (simp add: frame_def)
    moreover have "read_exact (length p) (take (k - 8) p) = None"
      using assms(2) 3 by (simp add: read_exact_def frame_def)
    ultimately show ?thesis
      using len_value [OF assms(1)] by (simp add: read_record_def)
  qed
qed

lemma read_record_starved:
  assumes "n < 2 ^ 32" and "length zs < 4 + n"
  shows "read_record deser (le_bytes 4 n @ zs) = None"
proof -
  have "le_value (le_bytes 4 n) = n"
    using assms(1) by (simp add: byte_facts)
  with assms(2) show ?thesis
    by (auto simp: read_record_def read_exact_def)
qed

lemma read_record_short:
  assumes "length p < 2 ^ 32" and "4 \<le> k" and "k + length ys < length (frame p)"
  shows "read_record deser (take k (frame p) @ ys) = None"
proof -
  have "take k (frame p) @ ys =
      le_bytes 4 (length p) @ take (k - 4) (le_bytes 4 (unat (crc32 p)) @ p) @ ys"
    using assms(2) by (simp add: frame_def)
  moreover have "length (take (k - 4) (le_bytes 4 (unat (crc32 p)) @ p) @ ys) < 4 + length p"
    using assms(2,3) by (auto simp: frame_def)
  ultimately show ?thesis
    using read_record_starved [OF assms(1)] by simp
qed

lemma replay_read_all: "replay deser bs l = fold apply_record (read_all deser bs) l"
  by (induction deser bs l rule: replay.induct)
    (subst replay.simps, subst read_all.simps, simp split: option.splits prod.splits)

lemma codec_okE:
  assumes "codec_ok ser deser r"
  obtains p where "ser r = Some p" "length p < 2 ^ 32" "deser p = Some r"
  using assms by (auto simp: codec_ok_def split: option.splits)

lemma frames_Nil [simp]: "frames ser [] = []"
  by (simp add: frames_def)

lemma frames_append [simp]: "frames ser (rs @ rs') = frames ser rs @ frames ser rs'"
  by (simp add: frames_def)

lemma frames_Cons: "ser r = Some p \<Longrightarrow> frames ser (r # rs) = frame p @ frames ser rs"
  by (simp add: frames_def)

lemma read_all_stop: "read_record deser bs = None \<Longrightarrow> read_all deser bs = []"
  by (simp add: read_all.simps)

lemma read_all_step: "read_record deser bs = Some (r, rest) \<Longrightarrow> read_all deser bs = r # read_all deser rest"
  by (simp add: read_all.simps)

lemma read_record_Nil: "read_record deser [] = None"
  by (simp add: read_record_def read_exact_def)

lemma read_all_frames:
  "\<forall>r \<in> set rs. codec_ok ser deser r \<Longrightarrow>
   read_all deser (frames ser rs @ rest) = rs @ read_all deser rest"
proof (induction rs)
  case Nil
  then show ?case by simp
next
  case (Cons r rs)
  then obtain p where p: "ser r = Some p" "length p < 2 ^ 32" "deser p = Some r"
    by (auto elim: codec_okE)
  have "read_record deser (frame p @ frames ser rs @ rest) = Some (r, frames ser rs @ rest)"
    using read_record_frame [OF p(2)] p(3) by simp
  then show ?case
    using Cons p(1) by (simp add: frames_Cons read_all_step)
qed

lemma read_all_prefix:
  assumes "\<forall>r \<in> set rs. codec_ok ser deser r"
  shows "\<exists>n \<le> length rs. read_all deser (take k (frames ser rs)) = take n rs \<and>
           length (frames ser (take n rs)) \<le> k \<and> (n < length rs \<longrightarrow> k < length (frames ser (take (Suc n) rs)))"
  using assms
proof (induction rs arbitrary: k)
  case Nil
  then show ?case by (simp add: read_all_stop read_record_Nil)
next
  case (Cons r rs)
  then obtain p where p: "ser r = Some p" "length p < 2 ^ 32" "deser p = Some r"
    by (auto elim: codec_okE)
  show ?case
  proof (cases "k < length (frame p)")
    case True
    then have "read_all deser (take k (frames ser (r # rs))) = []"
      using read_record_torn [OF p(2) True] by (simp add: frames_Cons p read_all_stop)
    with True show ?thesis
      by (intro exI [of _ 0]) (simp add: frames_Cons p)
  next
    case False
    let ?k = "k - length (frame p)"
    obtain n where n: "n \<le> length rs" "read_all deser (take ?k (frames ser rs)) = take n rs"
      "length (frames ser (take n rs)) \<le> ?k" "n < length rs \<longrightarrow> ?k < length (frames ser (take (Suc n) rs))"
      using Cons by (metis list.set_intros(2))
    have "take k (frames ser (r # rs)) = frame p @ take ?k (frames ser rs)"
      using False by (simp add: frames_Cons p)
    then have "read_all deser (take k (frames ser (r # rs))) = r # take n rs"
      using read_record_frame [OF p(2)] p(3) n(2) by (simp add: read_all_step)
    with n False show ?thesis
      by (intro exI [of _ "Suc n"]) (auto simp: frames_Cons p)
  qed
qed

section \<open>The live state is the in-memory ledger\<close>

lemma append_record_ok:
  assumes "codec_ok ser deser r"
  obtains d' where "append_record ser IoOk r d = (True, d')" "mem d' = mem d"
    "wal d' = wal d @ frames ser [r]" "sync d' = sync d"
    "sync d = PerOp \<longrightarrow> synced d' = length (wal d')" "synced d' = synced d \<or> synced d' = length (wal d')"
proof -
  obtain p where p: "ser r = Some p" "length p < 2 ^ 32"
    using assms by (auto elim: codec_okE)
  show thesis
    by (rule that [of "snd (append_record ser IoOk r d)"])
      (use p in \<open>simp_all add: append_record_def frames_def flush_def Let_def\<close>)
qed

lemma durable_exec_ok:
  assumes "\<forall>r \<in> set (op_records x (mem d)). codec_ok ser deser r"
  shows "mem (durable_exec ser IoOk x d) = exec_op x (mem d) \<and>
    wal (durable_exec ser IoOk x d) = wal d @ frames ser (op_records x (mem d)) \<and>
    sync (durable_exec ser IoOk x d) = sync d \<and>
    (sync d = PerOp \<and> synced d = length (wal d) \<longrightarrow>
       synced (durable_exec ser IoOk x d) = length (wal (durable_exec ser IoOk x d)))"
proof (cases x)
  case (SetLimit s lim w p)
  then have "codec_ok ser deser (LogSetLimit s lim (window_to_u8 w) (policy_to_u8 p))"
    using assms by simp
  from this SetLimit show ?thesis
    by (elim append_record_ok [where d = d]) (simp add: durable_set_limit_def)
next
  case (Reserve s c now ttl)
  let ?d1 = "d\<lparr>mem := roll s now (mem d)\<rparr>"
  show ?thesis
  proof (cases rule: reserve_cases [of s c now ttl "mem d"])
    case (denied den)
    with Reserve show ?thesis
      by (simp add: durable_reserve_def Let_def)
  next
    case (admitted r)
    then have "codec_ok ser deser (LogReserve (res_id r) (res_scope r) (ceiling r) (expires_at_ns r))"
      using assms Reserve by simp
    from this admitted Reserve show ?thesis
      by (elim append_record_ok [where d = ?d1]) (simp add: durable_reserve_def Let_def)
  qed
next
  case (Settle i a now)
  then have "codec_ok ser deser (LogSettle i a now)"
    using assms by simp
  from this Settle show ?thesis
    by (elim append_record_ok [where d = d]) (simp add: durable_settle_def)
next
  case (Reclaim now)
  then show ?thesis
    by (simp add: durable_reclaim_expired_def split_beta)
next
  case (Cas k e v)
  show ?thesis
  proof (cases "check_cas (mem d) k e")
    case (Inl err)
    with Cas show ?thesis
      by (simp add: durable_compare_and_swap_def compare_and_swap_def)
  next
    case (Inr ver)
    then have "codec_ok ser deser (LogCas k ver v)"
      using assms Cas by simp
    from this Inr Cas show ?thesis
      by (elim append_record_ok [where d = d])
        (simp add: durable_compare_and_swap_def compare_and_swap_def)
  qed
qed

lemma durable_run_ok:
  assumes "\<forall>r \<in> set (run_records xs (mem d)). codec_ok ser deser r"
  shows "mem (fold (durable_exec ser IoOk) xs d) = fold exec_op xs (mem d) \<and>
    wal (fold (durable_exec ser IoOk) xs d) = wal d @ frames ser (run_records xs (mem d)) \<and>
    (sync d = PerOp \<and> synced d = length (wal d) \<longrightarrow>
       synced (fold (durable_exec ser IoOk) xs d) = length (wal (fold (durable_exec ser IoOk) xs d)))"
  using assms
proof (induction xs arbitrary: d)
  case Nil
  then show ?case by simp
next
  case (Cons x xs)
  have step: "\<forall>r \<in> set (op_records x (mem d)). codec_ok ser deser r"
    using Cons.prems by simp
  note s = durable_exec_ok [OF step]
  have "\<forall>r \<in> set (run_records xs (mem (durable_exec ser IoOk x d))). codec_ok ser deser r"
    using Cons.prems s by simp
  from Cons.IH [OF this] s show ?case
    by simp
qed

end
