(* ===== verification/Ledger_Recovery.thy ===== *)
theory Ledger_Recovery
  imports Ledger_Durable
begin

text \<open>
  Restart of the durable ledger. The log keeps the decided mutations but not the sweeps and not the
  window rolls of refused reservations, so the state rebuilt by \<open>replay\<close> is not the live state: it
  holds leases the live ledger already reclaimed, and spend of windows that have passed. The
  relation \<open>recover_rel\<close> says how the two differ, every operation keeps it, and after a sweep of
  both the difference is gone (\<open>restart_equiv\<close>).
\<close>

section \<open>Runs the guarantee covers\<close>

text \<open>
  \<open>clean_run t R ops l\<close>: from time \<open>t\<close> on, the clock does not run backwards, a scope keeps its window
  once it has spend, and no settlement names a lease reclaimed before (the set \<open>R\<close>).
\<close>

fun clean_run :: "int \<Rightarrow> u64 set \<Rightarrow> ledger_op list \<Rightarrow> ledger \<Rightarrow> bool" where
  "clean_run t R [] l = True"
| "clean_run t R (SetLimit s lim w p # xs) l =
     ((if spent_buckets l s = None then True else w = scope_window l s) \<and>
      clean_run t R xs (exec_op (SetLimit s lim w p) l))"
| "clean_run t R (Reserve s c now ttl # xs) l =
     (t \<le> now \<and> clean_run now R xs (exec_op (Reserve s c now ttl) l))"
| "clean_run t R (Settle i a now # xs) l =
     (t \<le> now \<and> i \<notin> R \<and> clean_run now R xs (exec_op (Settle i a now) l))"
| "clean_run t R (Reclaim now # xs) l =
     (t \<le> now \<and>
      clean_run now (R \<union> set (map fst (filter (\<lambda>(i, r). expires_at_ns r \<le> now) (leases l)))) xs
        (exec_op (Reclaim now) l))"
| "clean_run t R (Cas k e v # xs) l = clean_run t R xs (exec_op (Cas k e v) l)"

fun end_time :: "int \<Rightarrow> ledger_op list \<Rightarrow> int" where
  "end_time t [] = t"
| "end_time t (Reserve s c now ttl # xs) = end_time now xs"
| "end_time t (Settle i a now # xs) = end_time now xs"
| "end_time t (Reclaim now # xs) = end_time now xs"
| "end_time t (_ # xs) = end_time t xs"

fun total_reserved :: "ledger_op list \<Rightarrow> string \<Rightarrow> nat" where
  "total_reserved [] s = 0"
| "total_reserved (Reserve s' c now ttl # xs) s =
     (if s' = s then unat c else 0) + total_reserved xs s"
| "total_reserved (_ # xs) s = total_reserved xs s"

section \<open>The recovery relation\<close>

fun bucket_rel :: "int \<Rightarrow> (int \<times> u64) option \<Rightarrow> (int \<times> u64) option \<Rightarrow> bool" where
  "bucket_rel cur None None = True"
| "bucket_rel cur (Some (w, x)) None = (w \<le> cur \<and> x = 0)"
| "bucket_rel cur None (Some b) = False"
| "bucket_rel cur (Some (w', x')) (Some (w, x)) =
     (w \<le> w' \<and> w' \<le> cur \<and> x' = (if w = w' then x else 0))"

definition recover_rel :: "int \<Rightarrow> u64 set \<Rightarrow> ledger \<Rightarrow> ledger \<Rightarrow> bool" where
  "recover_rel t R live rep \<longleftrightarrow>
     0 \<le> t \<and> ledger_inv live \<and> ledger_inv rep \<and> limits rep = limits live \<and> kv rep = kv live \<and>
     next_id rep = next_id live \<and>
     (\<forall>i r. map_of (leases live) i = Some r \<longrightarrow> map_of (leases rep) i = Some r) \<and>
     (\<forall>i r. map_of (leases rep) i = Some r \<and> map_of (leases live) i = None \<longrightarrow>
        i \<in> R \<and> expires_at_ns r \<le> t) \<and>
     (\<forall>s. scope_accounted s live \<and> scope_accounted s rep) \<and>
     (\<forall>s. bucket_rel (window_start_ns t (scope_window live s)) (spent_buckets live s)
            (spent_buckets rep s))"

definition restart_equiv :: "int \<Rightarrow> ledger \<Rightarrow> ledger \<Rightarrow> bool" where
  "restart_equiv t a b \<longleftrightarrow>
     limits a = limits b \<and> kv a = kv b \<and> next_id a = next_id b \<and>
     map_of (leases a) = map_of (leases b) \<and> reserved a = reserved b \<and>
     (\<forall>s now. t \<le> now \<longrightarrow> spent (roll s now a) s = spent (roll s now b) s)"

lemmas recover_defs = recover_rel_def

lemma recover_relI:
  assumes "0 \<le> t" "ledger_inv live" "ledger_inv rep" "limits rep = limits live" "kv rep = kv live"
    and "next_id rep = next_id live"
    and "\<And>i r. map_of (leases live) i = Some r \<Longrightarrow> map_of (leases rep) i = Some r"
    and "\<And>i r. map_of (leases rep) i = Some r \<Longrightarrow> map_of (leases live) i = None \<Longrightarrow>
           i \<in> R \<and> expires_at_ns r \<le> t"
    and "\<And>s. scope_accounted s live" "\<And>s. scope_accounted s rep"
    and "\<And>s. bucket_rel (window_start_ns t (scope_window live s)) (spent_buckets live s) (spent_buckets rep s)"
  shows "recover_rel t R live rep"
  using assms unfolding recover_rel_def by blast

lemma recover_relD:
  assumes "recover_rel t R live rep"
  shows "0 \<le> t" "ledger_inv live" "ledger_inv rep" "limits rep = limits live" "kv rep = kv live"
    "next_id rep = next_id live"
    "map_of (leases live) i = Some r \<Longrightarrow> map_of (leases rep) i = Some r"
    "map_of (leases rep) i = Some r \<Longrightarrow> map_of (leases live) i = None \<Longrightarrow> i \<in> R \<and> expires_at_ns r \<le> t"
    "scope_accounted s live" "scope_accounted s rep"
    "bucket_rel (window_start_ns t (scope_window live s)) (spent_buckets live s) (spent_buckets rep s)"
  using assms unfolding recover_rel_def by blast+

lemma window_start_mono: "0 \<le> t \<Longrightarrow> t \<le> now \<Longrightarrow> window_start_ns t w \<le> window_start_ns now w"
  by (cases w) (simp_all add: rust_div_nonneg NANOS_PER_DAY_def zdiv_mono1)

lemma bucket_rel_mono: "bucket_rel cur x y \<Longrightarrow> cur \<le> cur' \<Longrightarrow> bucket_rel cur' x y"
  by (cases "(cur, x, y)" rule: bucket_rel.cases) auto

lemma scope_window_limits: "limits a = limits b \<Longrightarrow> scope_window a s = scope_window b s"
  by (simp add: scope_window_def)

lemma bucket_rel_roll_live:
  assumes "bucket_rel cur (spent_buckets live s) b" and "cur \<le> window_start_ns now (scope_window live s)"
  shows "bucket_rel (window_start_ns now (scope_window live s)) (spent_buckets (roll s now live) s) b"
proof -
  let ?c = "window_start_ns now (scope_window live s)"
  have "bucket_rel ?c (spent_buckets live s) b"
    using assms by (rule bucket_rel_mono)
  then show ?thesis
    by (cases "(?c, spent_buckets live s, b)" rule: bucket_rel.cases) (auto simp: bucket_roll)
qed

lemma bucket_rel_roll_spent:
  assumes "bucket_rel cur (spent_buckets live s) (spent_buckets rep s)"
    and "cur \<le> window_start_ns now (scope_window live s)" and "limits rep = limits live"
  shows "spent (roll s now live) s = spent (roll s now rep) s"
proof -
  let ?c = "window_start_ns now (scope_window live s)"
  have "scope_window rep s = scope_window live s"
    by (rule scope_window_limits [OF assms(3)])
  moreover have "bucket_rel ?c (spent_buckets live s) (spent_buckets rep s)"
    using assms(1,2) by (rule bucket_rel_mono)
  ultimately show ?thesis
    by (cases "(?c, spent_buckets live s, spent_buckets rep s)" rule: bucket_rel.cases)
      (auto simp: bucket_roll spent_def split: if_splits)
qed

section \<open>Every operation keeps the relation\<close>

lemma recover_rel_buckets:
  assumes "recover_rel t R live rep" and "t \<le> now"
  shows "bucket_rel (window_start_ns now (scope_window live s)) (spent_buckets live s) (spent_buckets rep s)"
    and "window_start_ns t (scope_window live s) \<le> window_start_ns now (scope_window live s)"
proof -
  show "window_start_ns t (scope_window live s) \<le> window_start_ns now (scope_window live s)"
    using assms by (simp add: recover_defs window_start_mono)
  then show "bucket_rel (window_start_ns now (scope_window live s)) (spent_buckets live s) (spent_buckets rep s)"
    using assms(1) by (auto simp: recover_defs intro: bucket_rel_mono)
qed

lemma recover_later:
  assumes "recover_rel t R live rep" and "t \<le> now"
  shows "recover_rel now R live rep"
proof -
  have "bucket_rel (window_start_ns now (scope_window live s)) (spent_buckets live s) (spent_buckets rep s)" for s
    using assms by (rule recover_rel_buckets)
  with assms show ?thesis
    by (fastforce simp: recover_defs)
qed

lemma recover_roll:
  assumes rel: "recover_rel t R live rep" and now: "t \<le> now"
  shows "recover_rel now R (roll s now live) rep"
proof -
  have "bucket_rel (window_start_ns now (scope_window live s')) (spent_buckets (roll s now live) s') (spent_buckets rep s')" for s'
  proof (cases "s' = s")
    case True
    then show ?thesis
      using bucket_rel_roll_live [OF recover_rel_buckets(1) [OF rel now, of s] order_refl] by simp
  next
    case False
    then show ?thesis
      using recover_rel_buckets(1) [OF rel now, of s'] by (simp add: ledger_simps)
  qed
  then show ?thesis
    using recover_later [OF rel now] ledger_inv_cong [of "roll s now live" live]
    by (simp add: recover_defs ledger_simps scope_accounted_def)
qed

lemma recover_set_limit:
  assumes rel: "recover_rel t R live rep"
    and w: "spent_buckets live s = None \<or> w = scope_window live s"
  shows "recover_rel t R (set_limit s lim w p live) (set_limit s lim w p rep)"
proof -
  have "bucket_rel (window_start_ns t (scope_window (set_limit s lim w p live) s')) (spent_buckets live s') (spent_buckets rep s')" for s'
  proof (cases "s' = s \<and> spent_buckets live s = None")
    case True
    moreover have "bucket_rel (window_start_ns t (scope_window live s)) (spent_buckets live s) (spent_buckets rep s)"
      using rel by (simp add: recover_defs)
    ultimately show ?thesis
      by (cases "spent_buckets rep s") auto
  next
    case False
    then have "scope_window (set_limit s lim w p live) s' = scope_window live s'"
      using w by (auto simp: scope_window_def set_limit_def)
    then show ?thesis
      using rel by (simp add: recover_defs)
  qed
  then show ?thesis
    using rel ledger_inv_cong [of "set_limit s lim w p live" live] ledger_inv_cong [of "set_limit s lim w p rep" rep]
    by (simp add: recover_defs ledger_simps scope_accounted_def reserved_def set_limit_def)
qed

lemma accounted_add:
  assumes inv: "ledger_inv l" and acc: "scope_accounted s l" and i: "res_id r = next_id l"
    and fit: "scope_sum (leases l) s + (if res_scope r = s then unat (ceiling r) else 0) < 2 ^ 64"
  shows "scope_accounted s (apply_reserve r l)"
  using ledger_inv_fresh [OF inv] acc i fit
  by (auto simp: scope_accounted_def ledger_simps scope_sum_update_fresh word_facts)

lemma scope_sum_submap:
  assumes "distinct (map fst xs)" and "\<And>i r. map_of xs i = Some r \<Longrightarrow> map_of ys i = Some r"
  shows "scope_sum xs s \<le> scope_sum ys s"
proof -
  let ?f = "\<lambda>(i, r :: reservation). if res_scope r = s then unat (ceiling r) else 0"
  have sub: "set xs \<subseteq> set ys"
    using assms by (auto dest: map_of_SomeD simp: map_of_eq_Some_iff)
  have "distinct xs"
    using assms(1) by (simp add: distinct_map)
  then have "sum_list (map ?f xs) = sum ?f (set xs)"
    by (simp add: sum_list_distinct_conv_sum_set)
  also have "\<dots> \<le> sum ?f (set ys)"
    using sub by (simp add: sum_mono2)
  also have "\<dots> = sum_list (map ?f (remdups ys))"
    by (simp add: sum_list_distinct_conv_sum_set)
  also have "\<dots> \<le> sum_list (map ?f ys)"
    by (induction ys) auto
  finally show ?thesis
    by (simp add: scope_sum_def)
qed

lemma recover_apply_reserve:
  assumes rel: "recover_rel t R live rep" and i: "res_id r = next_id live" and n: "next_id live \<noteq> - 1"
    and fit: "\<And>s. scope_sum (leases rep) s + (if res_scope r = s then unat (ceiling r) else 0) < 2 ^ 64"
  shows "recover_rel t R (apply_reserve r live) (apply_reserve r rep)"
proof -
  have inv: "ledger_inv live" "ledger_inv rep" and nid: "next_id rep = next_id live"
    and sub: "\<And>i r. map_of (leases live) i = Some r \<Longrightarrow> map_of (leases rep) i = Some r"
    and acc: "\<And>s. scope_accounted s live" "\<And>s. scope_accounted s rep"
    using rel by (auto simp: recover_defs)
  have fit_live: "scope_sum (leases live) s + (if res_scope r = s then unat (ceiling r) else 0) < 2 ^ 64" for s
    using fit [of s] scope_sum_submap [OF ledger_inv_distinct [OF inv(1)] sub, of s] by linarith
  have "scope_accounted s (apply_reserve r live)" "scope_accounted s (apply_reserve r rep)" for s
    using accounted_add [OF inv(1) acc(1) i fit_live] accounted_add [OF inv(2) acc(2) _ fit] i nid
    by simp_all
  moreover have "ledger_inv (apply_reserve r live)" "ledger_inv (apply_reserve r rep)"
    using apply_reserve_inv inv i n nid by simp_all
  ultimately show ?thesis
    using rel nid by (auto simp: recover_defs ledger_simps alist_facts scope_window_def split: if_splits)
qed

lemma recover_settle:
  assumes rel: "recover_rel t R live rep" and now: "t \<le> now" and i: "i \<notin> R"
  shows "recover_rel now R (settle i a now live) (settle i a now rep)"
proof (cases "map_of (leases live) i")
  case None
  then have "map_of (leases rep) i = None"
    using rel i by (cases "map_of (leases rep) i") (auto simp: recover_defs)
  with None recover_later [OF rel now] show ?thesis
    by (simp add: ledger_simps)
next
  case (Some r)
  then have rep: "map_of (leases rep) i = Some r"
    using rel by (auto simp: recover_defs)
  note L = settle_some [OF Some, where a = a and now = now]
  note P = settle_some [OF rep, where a = a and now = now]
  have inv: "ledger_inv live" "ledger_inv rep" and lim: "limits rep = limits live"
    and acc: "\<And>s. scope_accounted s live" "\<And>s. scope_accounted s rep"
    using rel by (auto simp: recover_defs)
  have win: "scope_window (settle i a now live) s = scope_window live s"
    "scope_window rep s = scope_window live s" for s
    by (rule scope_window_limits, rule L(1), rule scope_window_limits, rule lim)
  have "scope_accounted s (settle i a now live)" "scope_accounted s (settle i a now rep)" for s
    using remove_accounted(1) [OF inv(1) acc(1) Some L(4,5)] remove_accounted(1) [OF inv(2) acc(2) rep P(4,5)]
    by blast+
  moreover have "bucket_rel (window_start_ns now (scope_window live s))
      (spent_buckets (settle i a now live) s) (spent_buckets (settle i a now rep) s)" for s
  proof (cases "s = res_scope r")
    case True
    have "spent (roll s now live) s = spent (roll s now rep) s"
      by (rule bucket_rel_roll_spent [OF recover_rel_buckets(1) [OF rel now] order_refl lim])
    with True show ?thesis
      by (simp add: L P win)
  next
    case False
    then show ?thesis
      using recover_rel_buckets(1) [OF rel now] by (simp add: L P)
  qed
  moreover note later = recover_later [OF rel now]
  ultimately show ?thesis
  proof (intro recover_relI, goal_cases)
    case (7 k q)
    then show ?case
      using recover_relD(7) [OF later] by (simp add: L(4) P(4) map_of_alist_delete split: if_splits)
  next
    case (8 k q)
    then show ?case
      using recover_relD(8) [OF later] by (simp add: L(4) P(4) map_of_alist_delete split: if_splits)
  next
    case (11 s)
    then show ?case by (simp add: win)
  qed (use recover_relD(1,4,5,6) [OF later] settle_inv inv in \<open>simp_all add: L(1-3) P(1-3)\<close>)
qed

lemma recover_reclaim:
  assumes rel: "recover_rel t R live rep" and now: "t \<le> now"
  shows "recover_rel now (R \<union> set (map fst (filter (\<lambda>(i, r). expires_at_ns r \<le> now) (leases live))))
           (snd (reclaim_expired now live)) rep"
proof -
  let ?xs = "map fst (filter (\<lambda>(i, r). expires_at_ns r \<le> now) (leases live))"
  let ?l' = "fold reclaim_one ?xs live"
  have inv: "ledger_inv live" and acc: "\<And>s. scope_accounted s live"
    and sub: "\<And>i r. map_of (leases live) i = Some r \<Longrightarrow> map_of (leases rep) i = Some r"
    using rel by (auto simp: recover_defs)
  have d: "distinct (map fst (leases live))"
    using inv by (rule ledger_inv_distinct)
  have look: "map_of (leases ?l') i = (if i \<notin> set ?xs then map_of (leases live) i else None)" for i
    unfolding fold_reclaim_fields(5) by (rule map_of_filter_key)
  have gone: "expires_at_ns r \<le> now" if "map_of (leases rep) i = Some r" "i \<in> set ?xs" for i r
  proof -
    from that(2) obtain r' where r': "(i, r') \<in> set (leases live)" "expires_at_ns r' \<le> now"
      by auto
    with d have "map_of (leases live) i = Some r'"
      by simp
    with sub that(1) r'(2) show ?thesis by fastforce
  qed
  have later: "recover_rel now R live rep"
    by (rule recover_later [OF rel now])
  have acc': "ledger_inv ?l'" "\<And>s. scope_accounted s ?l'"
    using fold_reclaim_accounted [OF inv acc, where xs = ?xs] by blast+
  have A: "map_of (leases rep) i = Some r" if "map_of (leases ?l') i = Some r" for i r
    using that look [of i] sub [of i r] by (simp split: if_splits)
  have B: "i \<in> R \<union> set ?xs \<and> expires_at_ns r \<le> now"
    if "map_of (leases rep) i = Some r" "map_of (leases ?l') i = None" for i r
  proof (cases "i \<in> set ?xs")
    case True
    with gone that(1) show ?thesis by blast
  next
    case False
    with that later look [of i] show ?thesis by (simp add: recover_defs)
  qed
  have "recover_rel now (R \<union> set ?xs) ?l' rep"
  proof (intro recover_relI, goal_cases)
    case (7 i r)
    then show ?case by (rule A)
  next
    case (8 i r)
    then show ?case by (rule B)
  next
    case (11 s)
    then show ?case
      using recover_relD(11) [OF later] scope_window_limits [OF fold_reclaim_fields(1)]
      by (simp add: fold_reclaim_fields(4))
  qed (use recover_relD(1,3-6,10) [OF later] acc' in \<open>simp_all add: fold_reclaim_fields(1-3)\<close>)
  then show ?thesis
    by (simp add: reclaim_expired_def Let_def)
qed

lemma recover_cas:
  assumes rel: "recover_rel t R live rep"
  shows "recover_rel t R (apply_cas k ver v live) (apply_cas k ver v rep)"
proof -
  have "scope_window (apply_cas k ver v live) s = scope_window live s" for s
    by (rule scope_window_limits) (simp add: apply_cas_def)
  then show ?thesis
    using recover_relD(1-8,11) [OF rel] recover_relD(9,10) [OF rel]
    by (intro recover_relI) (simp_all add: apply_cas_def ledger_inv_def scope_accounted_def reserved_def)
qed

lemma codes_inverse [simp]:
  "policy_from_u8 (policy_to_u8 p) = p" "window_from_u8 (window_to_u8 w) = w"
  by (cases p; simp add: policy_from_u8_def) (cases w; simp add: window_from_u8_def)

lemma settle_scope_sum_le: "scope_sum (leases (settle i a now l)) s \<le> scope_sum (leases l) s"
  by (cases "map_of (leases l) i")
    (simp_all add: ledger_simps settle_some scope_sum_def alist_delete_filter sum_list_filter_le)

text \<open>One operation: the live ledger executes it, the replayed one applies the records it logged.\<close>

lemma recover_reserve:
  assumes rel: "recover_rel t R live rep" and now: "t \<le> now" and n: "next_id live \<noteq> - 1"
    and fit: "\<And>s'. scope_sum (leases rep) s' + (if s = s' then unat c else 0) < 2 ^ 64"
  shows "recover_rel now R (exec_op (Reserve s c now ttl) live)
           (fold apply_record (op_records (Reserve s c now ttl) live) rep) \<and>
    scope_sum (leases (fold apply_record (op_records (Reserve s c now ttl) live) rep)) s' \<le>
      scope_sum (leases rep) s' + (if s = s' then unat c else 0)"
proof (cases rule: reserve_cases [of s c now ttl live])
  case (denied d)
  then show ?thesis
    using recover_roll [OF rel now] by simp
next
  case (admitted r)
  let ?l1 = "roll s now live"
  have r: "res_id r = next_id ?l1" "res_scope r = s" "ceiling r = c" and n1: "next_id ?l1 \<noteq> - 1"
    using admitted(2) n by (simp_all add: ledger_simps)
  note rel1 = recover_roll [OF rel now, of s]
  have "recover_rel now R (apply_reserve r ?l1) (apply_reserve r rep)"
    by (rule recover_apply_reserve [OF rel1 r(1) n1]) (use fit in \<open>simp only: r\<close>)
  moreover have "res_id r \<notin> fst ` set (leases rep)"
    using ledger_inv_fresh [OF recover_relD(3) [OF rel]] recover_relD(6) [OF rel] r(1)
    by (simp add: ledger_simps)
  moreover have "fold apply_record (op_records (Reserve s c now ttl) live) rep = apply_reserve r rep"
    using admitted(1) by (cases r) simp
  moreover have "exec_op (Reserve s c now ttl) live = apply_reserve r ?l1"
    using admitted(1) by simp
  ultimately show ?thesis
    using r by (auto simp: scope_sum_update_fresh apply_reserve_fields(5) simp del: op_records.simps)
qed

lemma recover_step:
  assumes rel: "recover_rel t R live rep" and clean: "clean_run t R (x # xs) live"
    and n: "next_id live \<noteq> - 1"
    and fit: "\<And>s. scope_sum (leases rep) s + total_reserved (x # xs) s < 2 ^ 64"
  shows "\<exists>t' R'. end_time t (x # xs) = end_time t' xs \<and> clean_run t' R' xs (exec_op x live) \<and>
    recover_rel t' R' (exec_op x live) (fold apply_record (op_records x live) rep) \<and>
    (\<forall>s. scope_sum (leases (fold apply_record (op_records x live) rep)) s + total_reserved xs s < 2 ^ 64)"
proof (cases x)
  case (SetLimit s lim w p)
  have "recover_rel t R (exec_op x live) (fold apply_record (op_records x live) rep)"
    using recover_set_limit [OF rel, of s w] clean SetLimit by (auto split: if_splits)
  with SetLimit clean fit show ?thesis
    by (intro exI [of _ t] exI [of _ R]) (simp add: set_limit_fields(1))
next
  case (Reserve s c now ttl)
  have now: "t \<le> now"
    using clean Reserve by simp
  have fit': "scope_sum (leases rep) s' + (if s = s' then unat c else 0) < 2 ^ 64" for s'
    using fit [of s'] Reserve by simp
  note step = recover_reserve [OF rel now n fit', of ttl]
  have "scope_sum (leases (fold apply_record (op_records x live) rep)) s' + total_reserved xs s' < 2 ^ 64" for s'
    using conjunct2 [OF step, of s'] fit [of s'] Reserve by simp
  with step clean Reserve show ?thesis
    by (intro exI [of _ now] exI [of _ R]) (simp del: op_records.simps exec_op.simps)
next
  case (Settle i a now)
  have "scope_sum (leases (settle i a now rep)) s + total_reserved xs s < 2 ^ 64" for s
    using settle_scope_sum_le [of i a now rep s] fit [of s] Settle by simp
  then show ?thesis
    using recover_settle [OF rel, of now i a] clean Settle
    by (intro exI [of _ now] exI [of _ R]) simp
next
  case (Reclaim now)
  then show ?thesis
    using recover_reclaim [OF rel, of now] clean fit
    by (intro exI [of _ now] exI) (auto simp del: set_map set_filter)
next
  case (Cas k e v)
  have kv: "kv rep = kv live"
    by (rule recover_relD(5) [OF rel])
  have "recover_rel t R (exec_op x live) (fold apply_record (op_records x live) rep) \<and>
      leases (fold apply_record (op_records x live) rep) = leases rep"
  proof (cases "check_cas live k e")
    case (Inl err)
    with Cas rel show ?thesis by (simp add: compare_and_swap_def)
  next
    case (Inr ver)
    with Cas recover_cas [OF rel] show ?thesis
      by (simp add: compare_and_swap_def apply_cas_def)
  qed
  with Cas clean fit show ?thesis
    by (intro exI [of _ t] exI [of _ R]) simp
qed

lemma recover_run:
  assumes "recover_rel t R live rep" and "clean_run t R xs live"
    and "unat (next_id live) + length xs < 2 ^ 64"
    and "\<And>s. scope_sum (leases rep) s + total_reserved xs s < 2 ^ 64"
  shows "\<exists>R'. recover_rel (end_time t xs) R' (fold exec_op xs live)
           (fold apply_record (run_records xs live) rep)"
  using assms
proof (induction xs arbitrary: t R live rep)
  case Nil
  then show ?case by auto
next
  case (Cons x xs)
  have "unat (next_id live) < 2 ^ 64 - 1"
    using Cons.prems(3) by simp
  then have n: "next_id live \<noteq> - 1"
    using unat_max_word [where ?'a = 64] by auto
  from recover_step [OF Cons.prems(1,2) n Cons.prems(4)] obtain t' R' where
    step: "end_time t (x # xs) = end_time t' xs" "clean_run t' R' xs (exec_op x live)"
      "recover_rel t' R' (exec_op x live) (fold apply_record (op_records x live) rep)"
      "\<And>s. scope_sum (leases (fold apply_record (op_records x live) rep)) s + total_reserved xs s < 2 ^ 64"
    by blast
  have "unat (next_id (exec_op x live)) + length xs < 2 ^ 64"
    using Cons.prems(3) exec_op_next_id [of x live] by simp
  from Cons.IH [OF step(3,2) this step(4)] step(1) show ?case
    by simp
qed

section \<open>After the sweep\<close>

lemma recover_sweep:
  assumes rel: "recover_rel t R live rep"
  shows "restart_equiv t (snd (reclaim_expired t live)) (snd (reclaim_expired t rep))"
proof -
  let ?a = "snd (reclaim_expired t live)" and ?b = "snd (reclaim_expired t rep)"
  note D = recover_relD [OF rel]
  have fields: "limits ?a = limits live" "kv ?a = kv live" "next_id ?a = next_id live"
    "spent_buckets ?a = spent_buckets live" "limits ?b = limits rep" "kv ?b = kv rep"
    "next_id ?b = next_id rep" "spent_buckets ?b = spent_buckets rep"
    by (simp_all add: reclaim_expired_def Let_def fold_reclaim_fields)
  have d: "distinct (map fst (leases live))" "distinct (map fst (leases rep))"
    using D(2,3) by (simp_all add: ledger_inv_distinct)
  have inv: "ledger_inv ?a" "ledger_inv ?b"
    using D(2,3) by (simp_all add: reclaim_inv)
  have filt: "leases ?a = filter (\<lambda>(i, r). t < expires_at_ns r) (leases live)"
    "leases ?b = filter (\<lambda>(i, r). t < expires_at_ns r) (leases rep)"
    "\<And>s. unat (reserved ?a s) = scope_sum (leases ?a) s" "\<And>s. unat (reserved ?b s) = scope_sum (leases ?b) s"
    using reclaim_filter [OF D(2) D(9)] reclaim_filter [OF D(3) D(10)] by blast+
  have leases: "map_of (leases ?a) i = map_of (leases ?b) i" for i
    unfolding filt map_of_filter_value [OF d(1)] map_of_filter_value [OF d(2)]
    using D(7) [of i] D(8) [of i] by (fastforce split: option.splits)
  have "scope_sum (leases ?a) s = scope_sum (leases ?b) s" for s
    unfolding scope_sum_def using inv leases
    by (intro map_of_eq_sum_list ext) (simp_all add: ledger_inv_distinct)
  then have "reserved ?a s = reserved ?b s" for s
    using filt(3,4) by (simp add: word_unat_eq_iff)
  moreover have "spent (roll s now ?a) s = spent (roll s now ?b) s" if "t \<le> now" for s now
  proof (rule bucket_rel_roll_spent)
    have "scope_window ?a s = scope_window live s"
      by (rule scope_window_limits [OF fields(1)])
    then show "bucket_rel (window_start_ns now (scope_window live s)) (spent_buckets ?a s) (spent_buckets ?b s)"
      "window_start_ns now (scope_window live s) \<le> window_start_ns now (scope_window ?a s)"
      using recover_rel_buckets(1) [OF rel that] by (simp_all add: fields)
    show "limits ?b = limits ?a"
      using D(4) by (simp add: fields)
  qed
  ultimately show ?thesis
    using D(4-6) leases by (auto simp: restart_equiv_def fields)
qed

section \<open>Restart\<close>

lemma recover_rel_new: "recover_rel 0 {} ledger_new ledger_new"
  by (rule recover_relI)
    (simp_all add: ledger_new_def ledger_inv_def scope_accounted_def scope_sum_def reserved_def)

lemma replay_frames:
  "\<forall>r \<in> set rs. codec_ok ser deser r \<Longrightarrow>
   replay deser (frames ser rs @ rest) ledger_new =
     fold apply_record (read_all deser rest) (fold apply_record rs ledger_new)"
  by (simp add: replay_read_all read_all_frames)

lemma durable_open_empty [simp]:
  "mem (durable_open deser sp []) = ledger_new" "wal (durable_open deser sp []) = []"
  "sync (durable_open deser sp []) = sp" "synced (durable_open deser sp []) = 0"
  by (simp_all add: durable_open_def replay_read_all read_all_stop read_record_Nil)

text \<open>A codec given by a table: record \<open>n\<close> of the table is written as the byte \<open>n\<close>.\<close>

definition table_ser :: "log_record list \<Rightarrow> log_record \<Rightarrow> bytes option" where
  "table_ser tab r = map_option (\<lambda>b. [b]) (map_of (zip tab (map of_nat [0..<length tab])) r)"

definition table_deser :: "log_record list \<Rightarrow> bytes \<Rightarrow> log_record option" where
  "table_deser tab bs =
     (case bs of [b] \<Rightarrow> if unat b < length tab then Some (tab ! unat b) else None | _ \<Rightarrow> None)"

text \<open>
  C2: restart. Every operation of a clean run is acknowledged; the file is then reopened and both
  ledgers sweep at the time of the last operation. The reopened ledger has the caps, the keyspace,
  the next id, the leases and the reserved units of the live one, and reports the same spend for
  every scope at every later time. The live ledger is the in-memory ledger of the same run.
\<close>

theorem durable_restart:
  assumes "clean_run 0 {} ops ledger_new"
    and "\<forall>r \<in> set (run_records ops ledger_new). codec_ok ser deser r"
    and "length ops < 2 ^ 64" and "\<And>s. total_reserved ops s < 2 ^ 64"
  shows "let d = fold (durable_exec ser IoOk) ops (durable_open deser sp []);
             d' = durable_open deser sp (wal d);
             now = end_time 0 ops
         in mem d = fold exec_op ops ledger_new \<and>
            restart_equiv now (mem (snd (durable_reclaim_expired now d)))
              (mem (snd (durable_reclaim_expired now d')))"
proof -
  let ?d = "fold (durable_exec ser IoOk) ops (durable_open deser sp [])"
  have d: "mem ?d = fold exec_op ops ledger_new" "wal ?d = frames ser (run_records ops ledger_new)"
    using durable_run_ok [of ops "durable_open deser sp []" ser deser] assms(2) by simp_all
  have rep: "mem (durable_open deser sp (wal ?d)) = fold apply_record (run_records ops ledger_new) ledger_new"
    using replay_frames [OF assms(2), of "[]"] d(2)
    by (simp add: durable_open_def read_all_stop read_record_Nil)
  have "\<exists>R. recover_rel (end_time 0 ops) R (fold exec_op ops ledger_new)
      (fold apply_record (run_records ops ledger_new) ledger_new)"
    by (rule recover_run [OF recover_rel_new assms(1)])
      (use assms(3,4) in \<open>simp_all add: ledger_new_def scope_sum_def\<close>)
  then show ?thesis
    using d rep by (auto simp: Let_def durable_reclaim_expired_def split_beta dest: recover_sweep)
qed

theorem durable_restart_witness:
  "let ops = [SetLimit ''g'' (Some 10) Daily Block, Reserve ''g'' 5 0 60, Reserve ''g'' 4 1 200,
              Settle 0 3 9, Reclaim 100, Cas ''k'' None 7];
       tab = [LogSetLimit ''g'' (Some 10) 1 0, LogReserve 0 ''g'' 5 60, LogReserve 1 ''g'' 4 201,
              LogSettle 0 3 9, LogCas ''k'' 1 7];
       d = fold (durable_exec (table_ser tab) IoOk) ops (durable_open (table_deser tab) PerOp []);
       d' = durable_open (table_deser tab) PerOp (wal d)
   in mem d = fold exec_op ops ledger_new \<and>
      restart_equiv 100 (mem (snd (durable_reclaim_expired 100 d)))
        (mem (snd (durable_reclaim_expired 100 d')))"
proof -
  let ?ops = "[SetLimit ''g'' (Some 10) Daily Block, Reserve ''g'' 5 0 60, Reserve ''g'' 4 1 200,
    Settle 0 3 9, Reclaim 100, Cas ''k'' None 7]"
  let ?tab = "[LogSetLimit ''g'' (Some 10) 1 0, LogReserve 0 ''g'' 5 60, LogReserve 1 ''g'' 4 201,
    LogSettle 0 3 9, LogCas ''k'' 1 7]"
  have rs: "run_records ?ops ledger_new = ?tab"
    by (simp add: ledger_eval NANOS_PER_DAY_def rust_div_def check_cas_def)
  have codec: "\<forall>r \<in> set (run_records ?ops ledger_new). codec_ok (table_ser ?tab) (table_deser ?tab) r"
    unfolding rs by (simp add: codec_ok_def table_ser_def table_deser_def)
  have clean: "clean_run 0 {} ?ops ledger_new"
    by (simp add: ledger_eval NANOS_PER_DAY_def rust_div_def)
  have "total_reserved ?ops s < 2 ^ 64" for s
    by simp
  then show ?thesis
    using durable_restart [OF clean codec, of PerOp] by (simp add: Let_def del: fold_simps)
qed



text \<open>
  C34: appending after a torn tail. A crash left whole records and the first \<open>k\<close> bytes of one more
  frame, its length field included. The ledger reopens with the whole records, accepts the
  operations \<open>ops\<close>, logs and acknowledges them; but as long as the bytes it appended do not fill
  the length announced by the torn frame, the next reopening recovers none of them.
\<close>

theorem append_after_torn_tail_lost:
  assumes codec: "\<forall>r \<in> set old. codec_ok ser deser r"
    and p: "length p < 2 ^ 32" and k: "4 \<le> k"
    and new: "\<forall>r \<in> set (run_records ops (fold apply_record old ledger_new)). codec_ok ser deser r"
    and short: "k + length (frames ser (run_records ops (fold apply_record old ledger_new))) < length (frame p)"
  shows "let d1 = durable_open deser sp (frames ser old @ take k (frame p));
             d2 = fold (durable_exec ser IoOk) ops d1
         in mem d1 = fold apply_record old ledger_new \<and> mem d2 = fold exec_op ops (mem d1) \<and>
            mem (durable_open deser sp (wal d2)) = mem d1"
proof -
  let ?d1 = "durable_open deser sp (frames ser old @ take k (frame p))"
  let ?new = "frames ser (run_records ops (fold apply_record old ledger_new))"
  have torn: "read_record deser (take k (frame p) @ ys) = None"
    if "k + length ys < length (frame p)" for ys
    by (rule read_record_short [OF p k that])
  have m1: "mem ?d1 = fold apply_record old ledger_new"
    using torn [of "[]"] short by (simp add: durable_open_def replay_frames [OF codec] read_all_stop)
  have run: "mem (fold (durable_exec ser IoOk) ops ?d1) = fold exec_op ops (mem ?d1)"
    "wal (fold (durable_exec ser IoOk) ops ?d1) = wal ?d1 @ ?new"
    using durable_run_ok [of ops ?d1 ser deser] new m1 by simp_all
  have w: "wal ?d1 = frames ser old @ take k (frame p)"
    by (simp add: durable_open_def)
  have "mem (durable_open deser sp (wal ?d1 @ ?new)) = fold apply_record old ledger_new"
    using torn [OF short] unfolding w
    by (simp add: durable_open_def replay_frames [OF codec] read_all_stop)
  with m1 run show ?thesis
    by (simp add: Let_def)
qed

theorem append_after_torn_tail_lost_witness:
  "let tab = [LogSetLimit ''g'' (Some 10) 0 0];
       d1 = durable_open (table_deser tab) PerOp (take 9 (frame (replicate 40 0)));
       d2 = durable_exec (table_ser tab) IoOk (SetLimit ''g'' (Some 10) Total Block) d1
   in limit (mem d1) ''g'' = None \<and> limit (mem d2) ''g'' = Some 10 \<and>
      limit (mem (durable_open (table_deser tab) PerOp (wal d2))) ''g'' = None"
proof -
  let ?tab = "[LogSetLimit ''g'' (Some 10) 0 0]"
  let ?ser = "table_ser ?tab" and ?deser = "table_deser ?tab"
  let ?ops = "[SetLimit ''g'' (Some 10) Total Block]"
  have new: "\<forall>r \<in> set (run_records ?ops (fold apply_record [] ledger_new)). codec_ok ?ser ?deser r"
    by (simp add: codec_ok_def table_ser_def table_deser_def)
  have short: "9 + length (frames ?ser (run_records ?ops (fold apply_record [] ledger_new)))
      < length (frame (replicate 40 0))"
    by (simp add: frames_def table_ser_def frame_def)
  show ?thesis
    using append_after_torn_tail_lost [of "[]" ?ser ?deser "replicate 40 0" 9 ?ops PerOp] new short
    by (simp add: Let_def limit_def ledger_new_def set_limit_def)
qed

lemma late_settle_spent:
  fixes sp :: sync_policy
  assumes "i64_sat_add t0 ttl \<le> t1"
    and "codec_ok ser deser (LogReserve 0 s c (i64_sat_add t0 ttl))"
    and "codec_ok ser deser (LogSettle 0 a t2)"
  defines "d \<equiv> fold (durable_exec ser IoOk) [Reserve s c t0 ttl, Reclaim t1, Settle 0 a t2]
             (durable_open deser sp [])"
  shows "spent (mem d) s = 0" and "spent (mem (durable_open deser sp (wal d))) s = a"
proof -
  let ?ops = "[Reserve s c t0 ttl, Reclaim t1, Settle 0 a t2]"
  let ?r = "LogReserve 0 s c (i64_sat_add t0 ttl)"
  have rs: "run_records ?ops ledger_new = [?r, LogSettle 0 a t2]"
    by (simp add: reserve_def check_admit_def roll_def ledger_new_def Let_def new_reservation_def
        peek_next_id_def)
  have codec: "\<forall>r \<in> set (run_records ?ops ledger_new). codec_ok ser deser r"
    using assms(2,3) unfolding rs by simp
  have d: "mem d = fold exec_op ?ops ledger_new" "wal d = frames ser [?r, LogSettle 0 a t2] @ []"
    using durable_run_ok [where xs = ?ops and d = "durable_open deser sp []" and ser = ser and deser = deser,
        unfolded durable_open_empty, OF codec, unfolded rs]
    unfolding d_def by (simp_all only: append_Nil append_Nil2)
  show "spent (mem d) s = 0"
    unfolding d(1) using assms(1)
    by (simp add: reserve_def check_admit_def roll_def ledger_new_def Let_def new_reservation_def
        peek_next_id_def apply_reserve_def add_reserved_def reclaim_expired_def reclaim_one_def
        sub_reserved_def settle_def spent_def reserved_def)
  have "spent (fold apply_record [?r, LogSettle 0 a t2] ledger_new) s = a"
    by (simp add: apply_reserve_def add_reserved_def settle_def ledger_new_def Let_def roll_def
        sub_reserved_def spent_def)
  then show "spent (mem (durable_open deser sp (wal d))) s = a"
    using d(2) replay_frames [OF codec [unfolded rs], of "[]"]
    by (simp add: durable_open_def read_all_stop read_record_Nil del: fold_simps)
qed

text \<open>
  C35: a settlement after the reclaim. A lease is reserved, swept at its expiry, and settled
  afterwards. The live ledger ignores the settlement, as the contract says, but logs it; the replay
  has no sweep, so there the settlement is applied: after a restart the scope shows the spend
  \<open>a\<close> that the live ledger never booked.
\<close>

theorem late_settle_diverges:
  assumes "i64_sat_add t0 ttl \<le> t1"
    and "codec_ok ser deser (LogReserve 0 s c (i64_sat_add t0 ttl))"
    and "codec_ok ser deser (LogSettle 0 a t2)"
  shows "let d = fold (durable_exec ser IoOk) [Reserve s c t0 ttl, Reclaim t1, Settle 0 a t2]
                   (durable_open deser sp [])
         in spent (mem d) s = 0 \<and> spent (mem (durable_open deser sp (wal d))) s = a"
  using late_settle_spent [OF assms, of sp] by (simp only: Let_def simp_thms)

theorem late_settle_diverges_witness:
  "let tab = [LogReserve 0 ''g'' 5 60, LogSettle 0 3 70];
       d = fold (durable_exec (table_ser tab) IoOk)
             [Reserve ''g'' 5 0 60, Reclaim 61, Settle 0 3 70] (durable_open (table_deser tab) PerOp [])
   in spent (mem d) ''g'' = 0 \<and>
      spent (mem (durable_open (table_deser tab) PerOp (wal d))) ''g'' = 3"
proof -
  let ?tab = "[LogReserve 0 ''g'' 5 60, LogSettle 0 3 70]"
  have t: "i64_sat_add 0 60 = 60"
    by (simp add: i64_sat_add_def i64_max_def i64_min_def)
  have "codec_ok (table_ser ?tab) (table_deser ?tab) (LogReserve 0 ''g'' 5 60)"
    "codec_ok (table_ser ?tab) (table_deser ?tab) (LogSettle 0 3 70)"
    by (simp_all add: codec_ok_def table_ser_def table_deser_def)
  then show ?thesis
    using late_settle_diverges [of 0 60 61 "table_ser ?tab" "table_deser ?tab" "''g''" 5 3 70 PerOp]
    unfolding t by (simp add: Let_def del: fold_simps)
qed

end
