(* ===== verification/Ledger_Service.thy ===== *)
theory Ledger_Service
  imports Ledger_Durable
begin

text \<open>
  The tenant-scoped service port (\<^verbatim>\<open>service.rs\<close>) over any implementation of the trait \<open>Ledger\<close>
  (\<^verbatim>\<open>lib.rs\<close>). The trait is the record \<open>ledger_ops\<close> of its methods; the in-memory and the durable
  ledger provide one value of it each. Every service method holds the mutex for its whole body, so it
  is one atomic step on the state of the inner ledger.

  The locale \<open>ledger_frame\<close> states what the port relies on: an operation on one scope or key does not
  touch another. Tenant isolation is proved once in it and holds for both implementations by
  interpretation, for the durable one under any sequence of I/O failures.
\<close>

section \<open>The trait\<close>

record 'l ledger_ops =
  do_set_limit :: "string \<Rightarrow> u64 option \<Rightarrow> window \<Rightarrow> policy \<Rightarrow> 'l \<Rightarrow> 'l"
  do_reserve :: "string \<Rightarrow> u64 \<Rightarrow> int \<Rightarrow> int \<Rightarrow> 'l \<Rightarrow> reserve_outcome \<times> 'l"
  do_settle :: "u64 \<Rightarrow> u64 \<Rightarrow> int \<Rightarrow> 'l \<Rightarrow> 'l"
  do_reclaim_expired :: "int \<Rightarrow> 'l \<Rightarrow> nat \<times> 'l"
  do_compare_and_swap :: "string \<Rightarrow> u64 option \<Rightarrow> int \<Rightarrow> 'l \<Rightarrow> (cas_error + u64) \<times> 'l"
  at_limit :: "'l \<Rightarrow> string \<Rightarrow> u64 option"
  at_policy :: "'l \<Rightarrow> string \<Rightarrow> policy"
  at_spent :: "'l \<Rightarrow> string \<Rightarrow> u64"
  at_reserved :: "'l \<Rightarrow> string \<Rightarrow> u64"
  at_get :: "'l \<Rightarrow> string \<Rightarrow> (u64 \<times> int) option"
  at_reservation_scope :: "'l \<Rightarrow> u64 \<Rightarrow> string option"

definition memory_ops :: "ledger ledger_ops" where
  "memory_ops = \<lparr>do_set_limit = set_limit, do_reserve = reserve, do_settle = settle,
     do_reclaim_expired = reclaim_expired, do_compare_and_swap = compare_and_swap,
     at_limit = limit, at_policy = policy_of, at_spent = spent, at_reserved = reserved,
     at_get = get, at_reservation_scope = reservation_scope\<rparr>"

text \<open>
  The durable ledger with the outcomes of its coming appends: each operation that may append takes
  the next one, and an exhausted list stands for a device that works.
\<close>

fun next_io :: "io_result list \<Rightarrow> io_result \<times> io_result list" where
  "next_io [] = (IoOk, [])"
| "next_io (x # xs) = (x, xs)"

definition durable_ops ::
  "(log_record \<Rightarrow> bytes option) \<Rightarrow> (io_result list \<times> durable) ledger_ops" where
  "durable_ops ser = \<lparr>
     do_set_limit = (\<lambda>s lim w p (ios, d).
       (snd (next_io ios), durable_set_limit ser (fst (next_io ios)) s lim w p d)),
     do_reserve = (\<lambda>s c now ttl (ios, d).
       let (out, d') = durable_reserve ser (fst (next_io ios)) s c now ttl d
       in (out, (snd (next_io ios), d'))),
     do_settle = (\<lambda>i a now (ios, d).
       (snd (next_io ios), durable_settle ser (fst (next_io ios)) i a now d)),
     do_reclaim_expired = (\<lambda>now (ios, d).
       let (n, d') = durable_reclaim_expired now d in (n, (ios, d'))),
     do_compare_and_swap = (\<lambda>k e v (ios, d).
       let (out, d') = durable_compare_and_swap ser (fst (next_io ios)) k e v d
       in (out, (snd (next_io ios), d'))),
     at_limit = (\<lambda>(ios, d). limit (mem d)), at_policy = (\<lambda>(ios, d). policy_of (mem d)),
     at_spent = (\<lambda>(ios, d). spent (mem d)), at_reserved = (\<lambda>(ios, d). reserved (mem d)),
     at_get = (\<lambda>(ios, d). get (mem d)),
     at_reservation_scope = (\<lambda>(ios, d). reservation_scope (mem d))\<rparr>"

section \<open>The service\<close>

definition SEP :: char where
  "SEP = CHR 0x1F"

definition key :: "string \<Rightarrow> string \<Rightarrow> string" where
  "key tenant scope = tenant @ [SEP] @ scope"

definition strip_prefix :: "string \<Rightarrow> string \<Rightarrow> string option" where
  "strip_prefix p s = (if take (length p) s = p then Some (drop (length p) s) else None)"

definition scope_belongs_to :: "string \<Rightarrow> string \<Rightarrow> bool" where
  "scope_belongs_to scope tenant \<longleftrightarrow>
     Option.bind (strip_prefix tenant scope) (\<lambda>rest. case rest of [] \<Rightarrow> None | c # cs \<Rightarrow> Some c)
       = Some SEP"

fun unscope_cas_error :: "cas_error \<Rightarrow> string \<Rightarrow> string \<Rightarrow> cas_error" where
  "unscope_cas_error (VersionMismatch k expected actual) tenant key' =
     VersionMismatch key' expected actual"

definition svc_set_limit where
  "svc_set_limit ops tenant scope lim w p l = do_set_limit ops (key tenant scope) lim w p l"

definition svc_reserve ::
  "'l ledger_ops \<Rightarrow> string \<Rightarrow> string \<Rightarrow> u64 \<Rightarrow> int \<Rightarrow> int \<Rightarrow> 'l \<Rightarrow> reserve_outcome \<times> 'l" where
  "svc_reserve ops tenant scope ceil now_ns ttl_ns l =
     (let (outcome, l') = do_reserve ops (key tenant scope) ceil now_ns ttl_ns l
      in ((case outcome of
             Admitted r \<Rightarrow> Admitted (r\<lparr>res_scope := scope\<rparr>)
           | Denied d \<Rightarrow> Denied (d\<lparr>den_scope := scope\<rparr>)), l'))"

definition svc_settle ::
  "'l ledger_ops \<Rightarrow> string \<Rightarrow> u64 \<Rightarrow> u64 \<Rightarrow> int \<Rightarrow> 'l \<Rightarrow> bool \<times> 'l" where
  "svc_settle ops tenant i actual now_ns l =
     (case at_reservation_scope ops l i of
        Some scope \<Rightarrow>
          if \<not> scope_belongs_to scope tenant then (False, l)
          else (True, do_settle ops i actual now_ns l)
      | None \<Rightarrow> (True, do_settle ops i actual now_ns l))"

definition svc_reclaim_expired :: "'l ledger_ops \<Rightarrow> int \<Rightarrow> 'l \<Rightarrow> nat \<times> 'l" where
  "svc_reclaim_expired ops now_ns l = do_reclaim_expired ops now_ns l"

definition svc_compare_and_swap ::
  "'l ledger_ops \<Rightarrow> string \<Rightarrow> string \<Rightarrow> u64 option \<Rightarrow> int \<Rightarrow> 'l \<Rightarrow> (cas_error + u64) \<times> 'l" where
  "svc_compare_and_swap ops tenant k expected new_value l =
     (let (out, l') = do_compare_and_swap ops (key tenant k) expected new_value l
      in ((case out of Inl e \<Rightarrow> Inl (unscope_cas_error e tenant k) | Inr v \<Rightarrow> Inr v), l'))"

definition svc_limit where "svc_limit ops tenant scope l = at_limit ops l (key tenant scope)"

definition svc_policy where "svc_policy ops tenant scope l = at_policy ops l (key tenant scope)"

definition svc_spent where "svc_spent ops tenant scope l = at_spent ops l (key tenant scope)"

definition svc_reserved where "svc_reserved ops tenant scope l = at_reserved ops l (key tenant scope)"

definition svc_get where "svc_get ops tenant k l = at_get ops l (key tenant k)"

section \<open>Requests\<close>

datatype svc_op =
    SvcSetLimit string string "u64 option" window policy
  | SvcReserve string string u64 int int
  | SvcSettle string u64 u64 int
  | SvcCas string string "u64 option" int
  | SvcReclaim int

fun svc_exec :: "'l ledger_ops \<Rightarrow> svc_op \<Rightarrow> 'l \<Rightarrow> 'l" where
  "svc_exec ops (SvcSetLimit t s lim w p) l = svc_set_limit ops t s lim w p l"
| "svc_exec ops (SvcReserve t s c now ttl) l = snd (svc_reserve ops t s c now ttl l)"
| "svc_exec ops (SvcSettle t i a now) l = snd (svc_settle ops t i a now l)"
| "svc_exec ops (SvcCas t k e v) l = snd (svc_compare_and_swap ops t k e v l)"
| "svc_exec ops (SvcReclaim now) l = snd (svc_reclaim_expired ops now l)"

text \<open>The tenant a request acts for; the sweep acts for none.\<close>

fun op_tenant :: "svc_op \<Rightarrow> string option" where
  "op_tenant (SvcSetLimit t s lim w p) = Some t"
| "op_tenant (SvcReserve t s c now ttl) = Some t"
| "op_tenant (SvcSettle t i a now) = Some t"
| "op_tenant (SvcCas t k e v) = Some t"
| "op_tenant (SvcReclaim now) = None"

text \<open>Requests of tenants with valid ids, none of them \<open>b\<close>.\<close>

definition foreign_op :: "string \<Rightarrow> svc_op \<Rightarrow> bool" where
  "foreign_op b x \<longleftrightarrow>
     (case op_tenant x of None \<Rightarrow> False | Some a \<Rightarrow> a \<noteq> b \<and> SEP \<notin> set a)"

text \<open>All a tenant can ask about a scope or key through the port.\<close>

definition tenant_view where
  "tenant_view ops b s l =
     (svc_limit ops b s l, svc_policy ops b s l, svc_spent ops b s l, svc_reserved ops b s l,
      svc_get ops b s l)"

definition name_view where
  "name_view ops l s =
     (at_limit ops l s, at_policy ops l s, at_spent ops l s, at_reserved ops l s, at_get ops l s)"

lemma tenant_view_name: "tenant_view ops b s l = name_view ops l (key b s)"
  by (simp add: tenant_view_def name_view_def svc_limit_def svc_policy_def svc_spent_def
      svc_reserved_def svc_get_def)

section \<open>Namespaced names\<close>

lemma first_sep_unique:
  "x \<notin> set as \<Longrightarrow> x \<notin> set bs \<Longrightarrow> as @ x # cs = bs @ x # ds \<Longrightarrow> as = bs \<and> cs = ds"
  by (induction as arbitrary: bs) (auto simp: Cons_eq_append_conv)

lemma key_inject:
  "SEP \<notin> set a \<Longrightarrow> SEP \<notin> set b \<Longrightarrow> key a s = key b s' \<longleftrightarrow> a = b \<and> s = s'"
  by (auto simp: key_def dest: first_sep_unique)

lemma strip_prefix_Some: "strip_prefix p s = Some r \<longleftrightarrow> s = p @ r"
  by (auto simp: strip_prefix_def) (metis append_take_drop_id)

lemma scope_belongs_to_key:
  "scope_belongs_to scope tenant \<longleftrightarrow> (\<exists>s. scope = key tenant s)"
proof
  assume "scope_belongs_to scope tenant"
  then obtain r where "strip_prefix tenant scope = Some r" "(case r of [] \<Rightarrow> None | c # cs \<Rightarrow> Some c) = Some SEP"
    by (auto simp: scope_belongs_to_def bind_eq_Some_conv)
  then show "\<exists>s. scope = key tenant s"
    by (auto simp: strip_prefix_Some key_def split: list.splits)
next
  assume "\<exists>s. scope = key tenant s"
  then obtain s where "scope = tenant @ SEP # s"
    by (auto simp: key_def)
  then show "scope_belongs_to scope tenant"
    by (simp add: scope_belongs_to_def strip_prefix_def)
qed

section \<open>What the port relies on\<close>

locale ledger_frame =
  fixes ops :: "'l ledger_ops"
  assumes set_limit_frame: "s' \<noteq> s \<Longrightarrow> name_view ops (do_set_limit ops s lim w p l) s' = name_view ops l s'"
    and reserve_frame: "s' \<noteq> s \<Longrightarrow> name_view ops (snd (do_reserve ops s c now ttl l)) s' = name_view ops l s'"
    and settle_frame: "at_reservation_scope ops l i \<noteq> Some s' \<Longrightarrow>
      name_view ops (do_settle ops i a now l) s' = name_view ops l s'"
    and cas_frame: "k' \<noteq> k \<Longrightarrow> name_view ops (snd (do_compare_and_swap ops k e v l)) k' = name_view ops l k'"
begin

lemma settle_view:
  assumes "SEP \<notin> set a" "SEP \<notin> set b" "a \<noteq> b"
  shows "name_view ops (snd (svc_settle ops a i u now l)) (key b s) = name_view ops l (key b s)"
proof (cases "at_reservation_scope ops l i = Some (key b s)")
  case True
  with assms show ?thesis
    by (simp add: svc_settle_def scope_belongs_to_key key_inject)
next
  case False
  from settle_frame [OF False, of u now] show ?thesis
    by (auto simp: svc_settle_def split: option.split)
qed

lemma foreign_view:
  assumes "SEP \<notin> set b" "foreign_op b x"
  shows "tenant_view ops b s (svc_exec ops x l) = tenant_view ops b s l"
  using assms
  by (cases x)
    (auto simp: foreign_op_def tenant_view_name settle_view key_inject svc_set_limit_def
      svc_reserve_def svc_compare_and_swap_def set_limit_frame reserve_frame cas_frame split_beta)

lemma foreign_run_view:
  assumes "SEP \<notin> set b" "list_all (foreign_op b) xs"
  shows "tenant_view ops b s (fold (svc_exec ops) xs l) = tenant_view ops b s l"
  using assms(2) by (induction xs arbitrary: l) (simp_all add: foreign_view [OF assms(1)])

end

section \<open>Both ledgers provide it\<close>

lemma name_view_memory:
  "name_view memory_ops l s = (limit l s, policy_of l s, spent l s, reserved l s, get l s)"
  by (simp add: name_view_def memory_ops_def)

lemma roll_name_frame:
  "s' \<noteq> s \<Longrightarrow> name_view memory_ops (roll s now l) s' = name_view memory_ops l s'"
  by (simp add: name_view_memory limit_def policy_of_def get_def spent_def reserved_def roll_def Let_def)

lemma apply_reserve_name_frame:
  "s' \<noteq> res_scope r \<Longrightarrow> name_view memory_ops (apply_reserve r l) s' = name_view memory_ops l s'"
  by (simp add: name_view_memory limit_def policy_of_def get_def spent_def reserved_def
      apply_reserve_def add_reserved_def Let_def)

lemma reserve_name_frame:
  "s' \<noteq> s \<Longrightarrow> name_view memory_ops (snd (reserve s c now ttl l)) s' = name_view memory_ops l s'"
  by (cases rule: reserve_cases [of s c now ttl l])
    (simp_all add: roll_name_frame apply_reserve_name_frame new_reservation_def)

lemma settle_name_frame:
  assumes "reservation_scope l i \<noteq> Some s'"
  shows "name_view memory_ops (settle i a now l) s' = name_view memory_ops l s'"
  using assms
  by (cases "map_of (leases l) i")
    (auto simp: settle_def reservation_scope_def name_view_memory limit_def policy_of_def get_def
      spent_def reserved_def roll_def Let_def sub_reserved_def split: option.splits)

lemma cas_name_frame:
  "k' \<noteq> k \<Longrightarrow> name_view memory_ops (snd (compare_and_swap k e v l)) k' = name_view memory_ops l k'"
  by (simp add: compare_and_swap_def apply_cas_def name_view_memory limit_def policy_of_def get_def
      spent_def reserved_def split: sum.split)

lemma set_limit_name_frame:
  "s' \<noteq> s \<Longrightarrow> name_view memory_ops (set_limit s lim w p l) s' = name_view memory_ops l s'"
  by (simp add: set_limit_def name_view_memory limit_def policy_of_def get_def spent_def reserved_def)

interpretation mem_svc: ledger_frame memory_ops
  by unfold_locales
    (simp_all add: memory_ops_def set_limit_name_frame [unfolded memory_ops_def]
      reserve_name_frame [unfolded memory_ops_def] settle_name_frame [unfolded memory_ops_def]
      cas_name_frame [unfolded memory_ops_def])

lemma append_record_mem: "append_record ser io r d = (ok, d') \<Longrightarrow> mem d' = mem d"
  by (auto simp: append_record_def flush_def Let_def split: option.splits if_splits io_result.splits)

lemma name_view_durable: "name_view (durable_ops ser) l s = name_view memory_ops (mem (snd l)) s"
  by (simp add: name_view_def memory_ops_def durable_ops_def split_beta)

lemma durable_reserve_name_frame:
  assumes "s' \<noteq> s"
  shows "name_view memory_ops (mem (snd (durable_reserve ser io s c now ttl d))) s' =
    name_view memory_ops (mem d) s'"
  using assms
  by (auto simp: durable_reserve_def Let_def roll_name_frame apply_reserve_name_frame
      new_reservation_def dest: append_record_mem split: sum.splits prod.splits bool.splits)

lemma durable_mem_cases:
  "mem (durable_set_limit ser io s lim w p d) \<in> {mem d, set_limit s lim w p (mem d)}"
  "mem (durable_settle ser io i a now d) \<in> {mem d, settle i a now (mem d)}"
  "mem (snd (durable_compare_and_swap ser io k e v d)) \<in> {mem d, snd (compare_and_swap k e v (mem d))}"
  by (auto simp: durable_set_limit_def durable_settle_def durable_compare_and_swap_def
      compare_and_swap_def dest: append_record_mem split: prod.split bool.split sum.split)

lemma durable_ops_mem:
  "mem (snd (do_set_limit (durable_ops ser) s lim w p l)) =
     mem (durable_set_limit ser (fst (next_io (fst l))) s lim w p (snd l))"
  "mem (snd (snd (do_reserve (durable_ops ser) s c now ttl l))) =
     mem (snd (durable_reserve ser (fst (next_io (fst l))) s c now ttl (snd l)))"
  "mem (snd (do_settle (durable_ops ser) i a now l)) =
     mem (durable_settle ser (fst (next_io (fst l))) i a now (snd l))"
  "mem (snd (snd (do_compare_and_swap (durable_ops ser) k e v l))) =
     mem (snd (durable_compare_and_swap ser (fst (next_io (fst l))) k e v (snd l)))"
  "at_reservation_scope (durable_ops ser) l i = reservation_scope (mem (snd l)) i"
  by (simp_all add: durable_ops_def split_beta Let_def)

interpretation dur_svc: ledger_frame "durable_ops ser" for ser
proof (unfold_locales, goal_cases)
  case (1 s' s lim w p l)
  then show ?case
    using durable_mem_cases(1) [of ser "fst (next_io (fst l))" s lim w p "snd l"]
    by (auto simp: name_view_durable durable_ops_mem set_limit_name_frame)
next
  case (2 s' s c now ttl l)
  then show ?case
    by (simp add: name_view_durable durable_ops_mem durable_reserve_name_frame)
next
  case (3 l i s' a now)
  then show ?case
    using durable_mem_cases(2) [of ser "fst (next_io (fst l))" i a now "snd l"]
    by (auto simp: name_view_durable durable_ops_mem settle_name_frame)
next
  case (4 k' k e v l)
  then show ?case
    using durable_mem_cases(3) [of ser "fst (next_io (fst l))" k e v "snd l"]
    by (auto simp: name_view_durable durable_ops_mem cas_name_frame)
qed

section \<open>Tenant isolation\<close>

text \<open>
  C12: fail-closed tenant isolation. Take any sequence of requests of tenants other than \<open>b\<close> (their
  ids free of the separator, as the gateway mints them), on any scopes, keys and reservation ids,
  against the durable ledger and with any outcomes of its appends. The cap, policy, spend, held
  units and keyspace entry that \<open>b\<close> reads are what they were. The same holds of the in-memory ledger.
\<close>

theorem tenant_isolation:
  assumes "SEP \<notin> set b" and "list_all (foreign_op b) xs"
  shows "tenant_view (durable_ops ser) b s (fold (svc_exec (durable_ops ser)) xs l) =
      tenant_view (durable_ops ser) b s l \<and>
    tenant_view memory_ops b s (fold (svc_exec memory_ops) xs m) = tenant_view memory_ops b s m"
  using dur_svc.foreign_run_view [OF assms] mem_svc.foreign_run_view [OF assms] by simp

theorem tenant_isolation_witness:
  "let xs = [SvcSetLimit ''a'' ''g'' (Some 1) Total Block, SvcReserve ''a'' ''g'' 1 0 9,
             SvcSettle ''a'' 0 1 5, SvcCas ''c'' ''k'' None 3]
   in tenant_view (durable_ops (\<lambda>r. None)) ''b'' ''g''
        (fold (svc_exec (durable_ops (\<lambda>r. None))) xs ([IoErr 3], durable_open (\<lambda>bs. None) PerOp [])) =
      tenant_view (durable_ops (\<lambda>r. None)) ''b'' ''g'' ([IoErr 3], durable_open (\<lambda>bs. None) PerOp []) \<and>
      tenant_view memory_ops ''b'' ''g'' (fold (svc_exec memory_ops) xs ledger_new) =
      tenant_view memory_ops ''b'' ''g'' ledger_new"
  using tenant_isolation [of "''b''" "[SvcSetLimit ''a'' ''g'' (Some 1) Total Block,
      SvcReserve ''a'' ''g'' 1 0 9, SvcSettle ''a'' 0 1 5, SvcCas ''c'' ''k'' None 3]" "\<lambda>r. None" "''g''"]
  by (simp add: Let_def foreign_op_def SEP_def del: fold_simps)

text \<open>
  C27: a reservation id is not a bearer capability. A reservation admitted for tenant \<open>b\<close> can be
  settled neither by another tenant nor by a guessed id: the attempt returns \<open>false\<close> and leaves the
  ledger as it was, while the owner's settlement is let through.
\<close>

theorem cross_tenant_settle_refused:
  assumes "SEP \<notin> set a" "SEP \<notin> set b" "a \<noteq> b"
    and "fst (svc_reserve memory_ops b s c now ttl l) = Admitted r"
    and "l' = snd (svc_reserve memory_ops b s c now ttl l)"
  shows "svc_settle memory_ops a (res_id r) u now' l' = (False, l') \<and>
    svc_settle memory_ops b (res_id r) u now' l' = (True, settle (res_id r) u now' l')"
proof -
  obtain r' where r': "reserve (key b s) c now ttl l = (Admitted r', l')" "r = r'\<lparr>res_scope := s\<rparr>"
    using assms(4,5)
    by (cases rule: reserve_cases [of "key b s" c now ttl l])
      (auto simp: svc_reserve_def memory_ops_def)
  have "reservation_scope l' (res_id r) = Some (key b s)"
    using r'
    by (cases rule: reserve_cases [of "key b s" c now ttl l])
      (auto simp: reservation_scope_def apply_reserve_def add_reserved_def Let_def new_reservation_def
        map_of_alist_update)
  then show ?thesis
    using assms(1-3) by (auto simp: svc_settle_def memory_ops_def scope_belongs_to_key key_inject)
qed

theorem cross_tenant_settle_refused_witness:
  "let l' = snd (svc_reserve memory_ops ''b'' ''g'' 5 0 60 ledger_new)
   in svc_settle memory_ops ''a'' 0 3 9 l' = (False, l') \<and>
      svc_settle memory_ops ''b'' 0 3 9 l' = (True, settle 0 3 9 l')"
proof -
  let ?l' = "snd (svc_reserve memory_ops ''b'' ''g'' 5 0 60 ledger_new)"
  have "fst (svc_reserve memory_ops ''b'' ''g'' 5 0 60 ledger_new) =
      Admitted \<lparr>res_id = 0, res_scope = ''g'', ceiling = 5, expires_at_ns = 60\<rparr>"
    by (simp add: svc_reserve_def memory_ops_def ledger_eval)
  from cross_tenant_settle_refused [OF _ _ _ this refl, of "''a''" 3 9] show ?thesis
    by (simp add: SEP_def Let_def)
qed

end
