(* ===== verification/Circuit_Breaker.thy ===== *)
theory Circuit_Breaker
  imports Prelude
begin

text \<open>
  The circuit breaker (\<^verbatim>\<open>proximadb-resilience/src/circuit_breaker.rs\<close>). The atomics are the fields of
  one record with their widths, \<open>Instant\<close> is a number of nanoseconds and an argument of the methods
  that read the clock, and one method call is one step. The bodies of the guarded operations run
  between the calls: \<open>cb_step\<close> interleaves the admissions and the results of any number of requests,
  counting the probes of the current half-open episode and the requests admitted before it.
\<close>

section \<open>Data\<close>

datatype circuit_state = Closed | Open | HalfOpen

record cb_config =
  failure_threshold :: u32
  success_threshold :: u32
  timeout_secs :: u64
  half_open_max_requests :: u32
  cb_name :: string

definition cb_config_default :: cb_config where
  "cb_config_default = \<lparr>failure_threshold = 5, success_threshold = 3, timeout_secs = 30,
     half_open_max_requests = 3, cb_name = ''default''\<rparr>"

text \<open>An \<^verbatim>\<open>anyhow::Error\<close> is its message.\<close>

datatype cb_error = CircuitOpen string | HalfOpenLimitExceeded string | OperationFailed string

record breaker =
  cb_conf :: cb_config
  cb_state :: circuit_state
  failure_count :: u32
  success_count :: u32
  half_open_requests :: u32
  last_failure_time :: "nat option"
  total_requests :: u64
  rejected_requests :: u64

record cb_metrics =
  m_name :: string
  m_state :: circuit_state
  m_failure_count :: u32
  m_success_count :: u32
  m_total_requests :: u64
  m_rejected_requests :: u64

section \<open>Methods\<close>

definition cb_new :: "cb_config \<Rightarrow> breaker" where
  "cb_new conf = \<lparr>cb_conf = conf, cb_state = Closed, failure_count = 0, success_count = 0,
     half_open_requests = 0, last_failure_time = None, total_requests = 0, rejected_requests = 0\<rparr>"

definition with_name :: "string \<Rightarrow> breaker" where
  "with_name name = cb_new (cb_config_default\<lparr>cb_name := name\<rparr>)"

definition cb_timeout :: "breaker \<Rightarrow> nat" where
  "cb_timeout cb = unat (timeout_secs (cb_conf cb)) * 1000000000"

definition check_state_transition :: "nat \<Rightarrow> breaker \<Rightarrow> breaker" where
  "check_state_transition now cb =
     (if cb_state cb = Open
      then (case last_failure_time cb of
              None \<Rightarrow> cb
            | Some last_failure \<Rightarrow>
                if cb_timeout cb \<le> now - last_failure
                then cb\<lparr>cb_state := HalfOpen, success_count := 0, half_open_requests := 0\<rparr>
                else cb)
      else cb)"

definition state_of :: "nat \<Rightarrow> breaker \<Rightarrow> circuit_state \<times> breaker" where
  "state_of now cb = (let cb1 = check_state_transition now cb in (cb_state cb1, cb1))"

definition allow_request :: "nat \<Rightarrow> breaker \<Rightarrow> (cb_error + unit) \<times> breaker" where
  "allow_request now cb =
     (let cb1 = check_state_transition now (cb\<lparr>total_requests := total_requests cb + 1\<rparr>)
      in case cb_state cb1 of
           Closed \<Rightarrow> (Inr (), cb1)
         | Open \<Rightarrow>
             (Inl (CircuitOpen (cb_name (cb_conf cb1))),
              cb1\<lparr>rejected_requests := rejected_requests cb1 + 1\<rparr>)
         | HalfOpen \<Rightarrow>
             (let current = half_open_requests cb1;
                  cb2 = cb1\<lparr>half_open_requests := current + 1\<rparr>
              in if half_open_max_requests (cb_conf cb2) \<le> current
                 then (Inl (HalfOpenLimitExceeded (cb_name (cb_conf cb2))),
                       cb2\<lparr>half_open_requests := half_open_requests cb2 - 1,
                           rejected_requests := rejected_requests cb2 + 1\<rparr>)
                 else (Inr (), cb2)))"

definition record_success :: "breaker \<Rightarrow> breaker" where
  "record_success cb =
     (case cb_state cb of
        Closed \<Rightarrow> cb\<lparr>failure_count := 0\<rparr>
      | HalfOpen \<Rightarrow>
          (let cb1 = cb\<lparr>half_open_requests := half_open_requests cb - 1\<rparr>;
               success = success_count cb1 + 1;
               cb2 = cb1\<lparr>success_count := success\<rparr>
           in if success_threshold (cb_conf cb2) \<le> success
              then cb2\<lparr>cb_state := Closed, failure_count := 0, success_count := 0\<rparr>
              else cb2)
      | Open \<Rightarrow> cb)"

definition record_failure :: "nat \<Rightarrow> breaker \<Rightarrow> breaker" where
  "record_failure now cb =
     (case cb_state cb of
        Closed \<Rightarrow>
          (let failures = failure_count cb + 1;
               cb1 = cb\<lparr>failure_count := failures\<rparr>
           in if failure_threshold (cb_conf cb1) \<le> failures
              then cb1\<lparr>cb_state := Open, last_failure_time := Some now\<rparr>
              else cb1)
      | HalfOpen \<Rightarrow>
          cb\<lparr>half_open_requests := half_open_requests cb - 1, cb_state := Open,
             last_failure_time := Some now, success_count := 0\<rparr>
      | Open \<Rightarrow> cb\<lparr>last_failure_time := Some now\<rparr>)"

text \<open>\<open>execute\<close> with the outcome of the guarded operation and the time it ends.\<close>

definition cb_execute ::
  "nat \<Rightarrow> nat \<Rightarrow> string + 'a \<Rightarrow> breaker \<Rightarrow> (cb_error + 'a) \<times> breaker" where
  "cb_execute now ended outcome cb =
     (case allow_request now cb of
        (Inl e, cb1) \<Rightarrow> (Inl e, cb1)
      | (Inr _, cb1) \<Rightarrow>
          (case outcome of
             Inr result \<Rightarrow> (Inr result, record_success cb1)
           | Inl e \<Rightarrow> (Inl (OperationFailed e), record_failure ended cb1)))"

definition cb_metrics_of :: "nat \<Rightarrow> breaker \<Rightarrow> cb_metrics \<times> breaker" where
  "cb_metrics_of now cb =
     (let (st, cb1) = state_of now cb
      in (\<lparr>m_name = cb_name (cb_conf cb1), m_state = st, m_failure_count = failure_count cb1,
           m_success_count = success_count cb1, m_total_requests = total_requests cb1,
           m_rejected_requests = rejected_requests cb1\<rparr>, cb1))"

definition cb_reset :: "breaker \<Rightarrow> breaker" where
  "cb_reset cb = cb\<lparr>cb_state := Closed, failure_count := 0, success_count := 0,
     half_open_requests := 0, last_failure_time := None\<rparr>"

section \<open>Interleaved requests\<close>

text \<open>
  A configuration is the breaker, the number of requests in flight that were admitted in the current
  half-open episode, and the number of the other requests in flight. The two result rules for the
  latter are confined to a breaker that is not half-open.
\<close>

inductive cb_step :: "breaker \<times> nat \<times> nat \<Rightarrow> breaker \<times> nat \<times> nat \<Rightarrow> bool" where
  admit: "allow_request now cb = (Inr (), cb') \<Longrightarrow> cb_state cb' = Closed \<Longrightarrow>
    cb_step (cb, p, q) (cb', p, Suc q)"
| admit_probe: "allow_request now cb = (Inr (), cb') \<Longrightarrow> cb_state cb' = HalfOpen \<Longrightarrow>
    cb_step (cb, p, q) (cb', Suc p, q)"
| reject: "allow_request now cb = (Inl e, cb') \<Longrightarrow> cb_step (cb, p, q) (cb', p, q)"
| poll: "cb_step (cb, p, q) (snd (state_of now cb), p, q)"
| probe_succeeds: "cb_state cb = HalfOpen \<Longrightarrow> cb_state (record_success cb) = HalfOpen \<Longrightarrow>
    cb_step (cb, Suc p, q) (record_success cb, p, q)"
| probe_closes: "cb_state cb = HalfOpen \<Longrightarrow> cb_state (record_success cb) = Closed \<Longrightarrow>
    cb_step (cb, Suc p, q) (record_success cb, 0, q + p)"
| probe_fails: "cb_state cb = HalfOpen \<Longrightarrow> cb_step (cb, Suc p, q) (record_failure now cb, 0, q + p)"
| other_succeeds: "cb_state cb \<noteq> HalfOpen \<Longrightarrow> cb_step (cb, p, Suc q) (record_success cb, p, q)"
| other_fails: "cb_state cb \<noteq> HalfOpen \<Longrightarrow> cb_step (cb, p, Suc q) (record_failure now cb, p, q)"

definition cb_inv :: "cb_config \<Rightarrow> breaker \<times> nat \<times> nat \<Rightarrow> bool" where
  "cb_inv conf = (\<lambda>(cb, p, q). cb_conf cb = conf \<and> 0 < failure_threshold conf \<and> 0 < success_threshold conf \<and>
     (case cb_state cb of
        Closed \<Rightarrow> p = 0 \<and> failure_count cb < failure_threshold conf
      | Open \<Rightarrow> p = 0 \<and> last_failure_time cb \<noteq> None
      | HalfOpen \<Rightarrow> unat (half_open_requests cb) = p \<and>
          half_open_requests cb \<le> half_open_max_requests conf \<and>
          success_count cb < success_threshold conf))"

section \<open>Invariant\<close>

lemma word_Suc_cases:
  fixes a b :: "'a::len word"
  assumes "a < b"
  shows "unat (a + 1) = Suc (unat a) \<and> a + 1 \<le> b"
proof -
  have le: "Suc (unat a) \<le> unat b"
    using assms by (simp add: word_less_nat_alt)
  then have "Suc (unat a) < 2 ^ LENGTH('a)"
    by (rule le_less_trans) (rule unsigned_less)
  with le show ?thesis
    by (simp add: word_le_nat_alt unat_word_ariths)
qed

lemma transition_cases:
  obtains "check_state_transition now cb = cb"
  | "cb_state cb = Open"
    "check_state_transition now cb = cb\<lparr>cb_state := HalfOpen, success_count := 0, half_open_requests := 0\<rparr>"
proof (cases "cb_state cb = Open \<and> (\<exists>t. last_failure_time cb = Some t \<and> cb_timeout cb \<le> now - t)")
  case True
  then show ?thesis
    by (intro that(2)) (auto simp: check_state_transition_def)
next
  case False
  then show ?thesis
    by (intro that(1)) (auto simp: check_state_transition_def split: option.split)
qed

lemma cb_inv_transition:
  assumes "cb_inv conf (cb, p, q)"
  shows "cb_inv conf (check_state_transition now cb, p, q)"
  using assms
  by (cases rule: transition_cases [of now cb]) (simp_all add: cb_inv_def)

lemma cb_inv_total [simp]: "cb_inv conf (cb\<lparr>total_requests := n\<rparr>, p, q) = cb_inv conf (cb, p, q)"
  "cb_inv conf (cb\<lparr>rejected_requests := n\<rparr>, p, q) = cb_inv conf (cb, p, q)"
  by (simp_all add: cb_inv_def split: circuit_state.split)

lemma cb_inv_allow:
  assumes "cb_inv conf (cb, p, q)" "allow_request now cb = (r, cb')"
  shows "cb_inv conf (cb', (if r = Inr () \<and> cb_state cb' = HalfOpen then Suc p else p), q')"
proof -
  let ?cb1 = "check_state_transition now (cb\<lparr>total_requests := total_requests cb + 1\<rparr>)"
  have inv: "cb_inv conf (?cb1, p, q)"
    using assms(1) by (simp add: cb_inv_transition)
  show ?thesis
  proof (cases "cb_state ?cb1")
    case Closed
    with inv assms(2) show ?thesis
      by (auto simp: allow_request_def cb_inv_def Let_def)
  next
    case Open
    with inv assms(2) show ?thesis
      by (auto simp: allow_request_def cb_inv_def Let_def)
  next
    case HalfOpen
    with inv assms(2) show ?thesis
      using word_Suc_cases [of "half_open_requests ?cb1" "half_open_max_requests conf"]
      by (auto simp: allow_request_def cb_inv_def Let_def not_le split: if_splits)
  qed
qed

lemma cb_inv_success:
  assumes "cb_inv conf (cb, p, q)"
  shows "cb_state cb = HalfOpen \<Longrightarrow> p = Suc p' \<Longrightarrow>
      cb_inv conf (record_success cb, (if cb_state (record_success cb) = HalfOpen then p' else 0), q')"
    and "cb_state cb \<noteq> HalfOpen \<Longrightarrow> cb_inv conf (record_success cb, p, q')"
proof -
  assume half: "cb_state cb = HalfOpen" and p: "p = Suc p'"
  have "unat (half_open_requests cb) = Suc p'"
    using assms half p by (simp add: cb_inv_def)
  then have "unat (half_open_requests cb - 1) = p'" "half_open_requests cb - 1 \<le> half_open_requests cb"
    by (auto simp: unat_sub_if' word_le_nat_alt)
  then show "cb_inv conf (record_success cb, (if cb_state (record_success cb) = HalfOpen then p' else 0), q')"
    using assms half by (auto simp: cb_inv_def record_success_def Let_def not_le)
next
  assume "cb_state cb \<noteq> HalfOpen"
  with assms show "cb_inv conf (record_success cb, p, q')"
    by (cases "cb_state cb") (auto simp: cb_inv_def record_success_def)
qed

lemma cb_inv_failure:
  assumes "cb_inv conf (cb, p, q)"
  shows "cb_state cb = HalfOpen \<Longrightarrow> cb_inv conf (record_failure now cb, 0, q')"
    and "cb_state cb \<noteq> HalfOpen \<Longrightarrow> cb_inv conf (record_failure now cb, p, q')"
  using assms
  by (cases "cb_state cb"; auto simp: cb_inv_def record_failure_def Let_def not_le)+

lemma cb_inv_step: "cb_step x y \<Longrightarrow> cb_inv conf x \<Longrightarrow> cb_inv conf y"
proof (induction rule: cb_step.induct)
  case (admit now cb cb' p q)
  with cb_inv_allow [OF admit(3,1)] show ?case by simp
next
  case (admit_probe now cb cb' p q)
  with cb_inv_allow [OF admit_probe(3,1)] show ?case by simp
next
  case (reject now cb e cb' p q)
  with cb_inv_allow [OF reject(2,1)] show ?case by simp
next
  case (poll cb p q now)
  then show ?case
    by (simp add: state_of_def Let_def cb_inv_transition)
next
  case (probe_succeeds cb p q)
  with cb_inv_success(1) [OF probe_succeeds(3,1) refl] show ?case by simp
next
  case (probe_closes cb p q)
  with cb_inv_success(1) [OF probe_closes(3,1) refl] show ?case by simp
next
  case (probe_fails cb p q now)
  then show ?case by (blast intro: cb_inv_failure(1))
next
  case (other_succeeds cb p q)
  then show ?case by (blast intro: cb_inv_success(2))
next
  case (other_fails cb p q now)
  then show ?case by (blast intro: cb_inv_failure(2))
qed

lemma cb_inv_run: "cb_step\<^sup>*\<^sup>* x y \<Longrightarrow> cb_inv conf x \<Longrightarrow> cb_inv conf y"
  by (induction rule: rtranclp_induct) (blast intro: cb_inv_step)+

lemma cb_inv_new:
  "0 < failure_threshold conf \<Longrightarrow> 0 < success_threshold conf \<Longrightarrow> cb_inv conf (cb_new conf, 0, 0)"
  by (simp add: cb_inv_def cb_new_def)

lemma step_to_run: "cb_step x y \<Longrightarrow> cb_step\<^sup>*\<^sup>* y z \<Longrightarrow> cb_step\<^sup>*\<^sup>* x z"
  by (rule converse_rtranclp_into_rtranclp)

lemmas cb_eval = cb_new_def cb_config_default_def with_name_def check_state_transition_def cb_timeout_def
  allow_request_def record_success_def record_failure_def state_of_def Let_def

section \<open>Properties\<close>



lemma wedged_allow:
  assumes "cb_state cb = HalfOpen" "half_open_requests cb = - 1"
  shows "fst (allow_request now cb) = Inl (HalfOpenLimitExceeded (cb_name (cb_conf cb)))"
    and "cb_state (snd (allow_request now cb)) = HalfOpen"
    and "half_open_requests (snd (allow_request now cb)) = - 1"
    and "cb_conf (snd (allow_request now cb)) = cb_conf cb"
  using assms by (simp_all add: allow_request_def check_state_transition_def Let_def)

lemma wedged_run:
  "cb_state cb = HalfOpen \<Longrightarrow> half_open_requests cb = - 1 \<Longrightarrow>
   let cb' = fold (\<lambda>now c. snd (allow_request now c)) ts cb
   in cb_state cb' = HalfOpen \<and> half_open_requests cb' = - 1 \<and> cb_conf cb' = cb_conf cb"
proof (induction ts arbitrary: cb)
  case (Cons t ts)
  from Cons.IH [OF wedged_allow(2,3) [OF Cons.prems, of t]] wedged_allow(4) [OF Cons.prems, of t]
  show ?case by (simp add: Let_def)
qed simp



lemma record_failure_closed:
  "cb_state c = Closed \<Longrightarrow>
   cb_state (record_failure t c) =
     (if failure_threshold (cb_conf c) \<le> failure_count c + 1 then Open else Closed) \<and>
   failure_count (record_failure t c) = failure_count c + 1 \<and> cb_conf (record_failure t c) = cb_conf c \<and>
   (failure_threshold (cb_conf c) \<le> failure_count c + 1 \<longrightarrow>
      last_failure_time (record_failure t c) = Some t)"
  by (simp add: record_failure_def Let_def)

lemma failures_below:
  assumes "cb_state cb = Closed" "failure_count cb = 0" "length ts < unat (failure_threshold (cb_conf cb))"
  shows "let cb' = fold record_failure ts cb
    in cb_state cb' = Closed \<and> unat (failure_count cb') = length ts \<and> cb_conf cb' = cb_conf cb"
  using assms(3)
proof (induction ts rule: rev_induct)
  case Nil
  with assms show ?case by simp
next
  case (snoc t ts)
  let ?cb' = "fold record_failure ts cb"
  have IH: "cb_state ?cb' = Closed" "unat (failure_count ?cb') = length ts" "cb_conf ?cb' = cb_conf cb"
    using snoc by (simp_all add: Let_def)
  have "failure_count ?cb' < failure_threshold (cb_conf cb)"
    using snoc.prems IH(2) by (simp add: word_less_nat_alt)
  then have "unat (failure_count ?cb' + 1) = Suc (length ts)"
    using word_Suc_cases IH(2) by metis
  with IH snoc.prems show ?case
    by (simp add: record_failure_closed word_le_nat_alt)
qed

lemma open_rejects_step:
  assumes "cb_state cb = Open" "last_failure_time cb = Some t" "now - t < cb_timeout cb"
  shows "fst (allow_request now cb) = Inl (CircuitOpen (cb_name (cb_conf cb)))"
    and "cb_state (snd (allow_request now cb)) = Open"
    and "last_failure_time (snd (allow_request now cb)) = Some t"
    and "cb_conf (snd (allow_request now cb)) = cb_conf cb"
  using assms by (simp_all add: allow_request_def check_state_transition_def Let_def cb_timeout_def)

lemma open_rejects_run:
  "cb_state cb = Open \<Longrightarrow> last_failure_time cb = Some t \<Longrightarrow> \<forall>now \<in> set ts. now - t < cb_timeout cb \<Longrightarrow>
   let cb' = fold (\<lambda>now c. snd (allow_request now c)) ts cb
   in cb_state cb' = Open \<and> last_failure_time cb' = Some t \<and> cb_conf cb' = cb_conf cb"
proof (induction ts arbitrary: cb)
  case (Cons now ts)
  have now: "now - t < cb_timeout cb"
    using Cons.prems(3) by simp
  note step = open_rejects_step(2-4) [OF Cons.prems(1,2) now]
  have "\<forall>now' \<in> set ts. now' - t < cb_timeout (snd (allow_request now cb))"
    using Cons.prems(3) step(3) by (simp add: cb_timeout_def)
  from Cons.IH [OF step(1,2) this] step(3) show ?case
    by (simp add: Let_def)
qed simp

text \<open>
  C33: trip and recovery. A closed breaker with a clean count stays closed under fewer than
  \<open>failure_threshold\<close> consecutive failures and opens with the last of \<open>failure_threshold\<close> ones. From
  there every request before the timeout is refused, whatever requests came before it, and the
  first one after the timeout is admitted as a probe (the half-open limit is not zero).
\<close>

theorem trips_and_recovers:
  assumes "cb_state cb = Closed" and "failure_count cb = 0"
    and "Suc (length ts) = unat (failure_threshold (cb_conf cb))"
    and "0 < half_open_max_requests (cb_conf cb)"
    and "\<forall>now \<in> set early. now - t < cb_timeout cb"
    and "now - t < cb_timeout cb" and "cb_timeout cb \<le> after - t"
  shows "let tripped = record_failure t (fold record_failure ts cb);
             refused = fold (\<lambda>now c. snd (allow_request now c)) early tripped
         in cb_state (fold record_failure ts cb) = Closed \<and> cb_state tripped = Open \<and>
            fst (allow_request now refused) = Inl (CircuitOpen (cb_name (cb_conf cb))) \<and>
            fst (allow_request after refused) = Inr () \<and>
            cb_state (snd (allow_request after refused)) = HalfOpen \<and>
            half_open_requests (snd (allow_request after refused)) = 1"
proof -
  let ?c = "fold record_failure ts cb" and ?tr = "record_failure t (fold record_failure ts cb)"
  let ?re = "fold (\<lambda>now c. snd (allow_request now c)) early ?tr"
  have c: "cb_state ?c = Closed" "unat (failure_count ?c) = length ts" "cb_conf ?c = cb_conf cb"
    using failures_below [OF assms(1,2)] assms(3) by (simp_all add: Let_def)
  have "failure_count ?c < failure_threshold (cb_conf cb)"
    using c(2) assms(3) by (simp add: word_less_nat_alt)
  then have "failure_threshold (cb_conf cb) \<le> failure_count ?c + 1"
    using word_Suc_cases c(2) assms(3) by (metis le_refl word_le_nat_alt)
  then have tr: "cb_state ?tr = Open" "last_failure_time ?tr = Some t" "cb_conf ?tr = cb_conf cb"
    using c by (simp_all add: record_failure_closed)
  have "\<forall>now \<in> set early. now - t < cb_timeout ?tr"
    using assms(5) tr(3) by (simp add: cb_timeout_def)
  from open_rejects_run [OF tr(1,2) this] have re: "cb_state ?re = Open"
    "last_failure_time ?re = Some t" "cb_conf ?re = cb_conf cb"
    using tr(3) by (simp_all add: Let_def)
  have "fst (allow_request now ?re) = Inl (CircuitOpen (cb_name (cb_conf cb)))"
    using open_rejects_step(1) [OF re(1,2), of now] re(3) assms(6) by (simp add: cb_timeout_def)
  moreover have "fst (allow_request after ?re) = Inr () \<and>
      cb_state (snd (allow_request after ?re)) = HalfOpen \<and>
      half_open_requests (snd (allow_request after ?re)) = 1"
    using re assms(4,7)
    by (auto simp add: allow_request_def check_state_transition_def Let_def cb_timeout_def)
  ultimately show ?thesis
    using c(1) tr(1) by (simp add: Let_def)
qed

theorem trips_and_recovers_witness:
  "let cb = with_name ''w'';
       tripped = record_failure 7 (fold record_failure [1, 2, 3, 4] cb)
   in cb_state tripped = Open \<and>
      fst (allow_request 9 (fold (\<lambda>now c. snd (allow_request now c)) [8] tripped)) =
        Inl (CircuitOpen ''w'') \<and>
      fst (allow_request 40000000000 (fold (\<lambda>now c. snd (allow_request now c)) [8] tripped)) =
        Inr ()"
  using trips_and_recovers [of "with_name ''w''" "[1, 2, 3, 4]" "[8]" 7 9 40000000000]
  by (simp add: Let_def with_name_def cb_new_def cb_config_default_def cb_timeout_def del: fold_simps)

end
