(* ===== verification/Mvcc_Resolution.thy ===== *)
theory Mvcc_Resolution
  imports Prelude "HOL-Library.Char_ord" "HOL-Library.List_Lexorder" "HOL-Library.Product_Lexorder"
begin

text \<open>
  Version resolution of record batches (\<^verbatim>\<open>proximadb-mvcc-resolution\<close>): the general resolver of the
  query path, which groups by OID in a hash map, and the compaction resolver, which sorts the batch in
  place, marks the survivors in a mask and retains them. A record has the fields the resolvers read;
  the others are its \<open>payload\<close>. A string is a list of code points below 256, on which Rust's byte order
  is the order of the code points. The iteration order of the hash map and the result of the unstable
  sort are the parameters \<open>iter\<close> and \<open>sorter\<close>.

  The specification is \<open>resolution\<close>: for every versioned OID the winner or nothing, and every
  append-only record that has not expired. Both resolvers meet it, and two results that meet it agree
  on OID, version and creation time.
\<close>

section \<open>Records\<close>

record 'p precord =
  oid :: string
  record_version :: u64
  created_at_ns :: int
  updated_at_ns :: int
  valid_to_ns :: "int option"
  payload :: 'p

definition with_timestamp_ns :: "int \<Rightarrow> int" where
  "with_timestamp_ns ns = ns"

definition with_timestamp :: "u32 \<Rightarrow> int" where
  "with_timestamp seconds = with_timestamp_ns (uint seconds * 1000000000)"

definition effective_version :: "'p precord \<Rightarrow> u64" where
  "effective_version r = (if record_version r = 0 then 1 else record_version r)"

text \<open>\<open>char::is_whitespace\<close> on the code points below 256.\<close>

definition is_whitespace :: "char \<Rightarrow> bool" where
  "is_whitespace c \<longleftrightarrow> (of_char c :: nat) \<in> {9, 10, 11, 12, 13, 32, 133, 160}"

definition trim :: "string \<Rightarrow> string" where
  "trim s = rev (dropWhile is_whitespace (rev (dropWhile is_whitespace s)))"

definition is_append_only_oid :: "string \<Rightarrow> bool" where
  "is_append_only_oid s \<longleftrightarrow> s = [] \<or> s = ''null'' \<or> s = ''none'' \<or> trim s = []"

definition is_expired :: "int \<Rightarrow> 'p precord \<Rightarrow> bool" where
  "is_expired now r \<longleftrightarrow> (case valid_to_ns r of None \<Rightarrow> False | Some vt \<Rightarrow> vt < now)"

definition compare_records :: "int \<Rightarrow> 'p precord \<Rightarrow> 'p precord \<Rightarrow> bool" where
  "compare_records now r1 r2 =
     (case (is_expired now r1, is_expired now r2) of
        (True, False) \<Rightarrow> False
      | (False, True) \<Rightarrow> True
      | _ \<Rightarrow>
          if effective_version r1 \<noteq> effective_version r2
          then effective_version r2 < effective_version r1
          else created_at_ns r1 \<le> created_at_ns r2)"

section \<open>The general resolver\<close>

type_synonym 'p groups = "(string \<times> 'p precord list) list"

definition push_group :: "'p precord \<Rightarrow> 'p groups \<Rightarrow> 'p groups" where
  "push_group r gs =
     AList.update (oid r) ((case map_of gs (oid r) of None \<Rightarrow> [] | Some xs \<Rightarrow> xs) @ [r]) gs"

definition partition_step ::
  "'p precord \<Rightarrow> 'p groups \<times> 'p precord list \<Rightarrow> 'p groups \<times> 'p precord list" where
  "partition_step r = (\<lambda>(groups, append_only).
     if is_append_only_oid (oid r) then (groups, append_only @ [r])
     else (push_group r groups, append_only))"

fun scan_versions :: "u64 \<Rightarrow> 'p precord option \<Rightarrow> 'p precord list \<Rightarrow> 'p precord option" where
  "scan_versions expected last_valid [] = last_valid"
| "scan_versions expected last_valid (r # rs) =
     (if effective_version r = expected then scan_versions (expected + 1) (Some r) rs
      else if expected < effective_version r then last_valid
      else scan_versions expected last_valid rs)"

definition version_key :: "'p precord \<Rightarrow> u64 \<times> int" where
  "version_key r = (effective_version r, created_at_ns r)"

definition resolve_group :: "int \<Rightarrow> 'p precord list \<Rightarrow> 'p precord option" where
  "resolve_group now versions =
     (if list_ex (is_expired now) versions then None
      else let sorted = sort_key version_key versions;
               start = effective_version (hd sorted)
           in if 1 < start then None else scan_versions start None sorted)"

definition resolve_batch ::
  "('p groups \<Rightarrow> 'p groups) \<Rightarrow> int \<Rightarrow> 'p precord list \<Rightarrow> 'p precord list" where
  "resolve_batch iter now records =
     (let (id_groups, append_only) = fold partition_step records ([], []);
          resolved = concat (map (\<lambda>(i, versions).
            case resolve_group now versions of None \<Rightarrow> [] | Some r \<Rightarrow> [r]) (iter id_groups))
      in resolved @ filter (\<lambda>r. \<not> is_expired now r) append_only)"

section \<open>The compaction resolver\<close>

definition sort_order :: "'p precord \<Rightarrow> string \<times> u64 \<times> int \<times> int" where
  "sort_order r = (oid r, effective_version r, created_at_ns r, updated_at_ns r)"

function group_end :: "'p precord list \<Rightarrow> string \<Rightarrow> nat \<Rightarrow> nat" where
  "group_end records group_oid i =
     (if i < length records \<and> oid (records ! i) = group_oid then group_end records group_oid (Suc i)
      else i)"
  by pat_completeness auto
termination
  by (relation "measure (\<lambda>(records, group_oid, i). length records - i)") auto

declare group_end.simps [simp del]

fun find_winner :: "u64 \<Rightarrow> nat option \<Rightarrow> nat \<Rightarrow> 'p precord list \<Rightarrow> nat option" where
  "find_winner expected winner index [] = winner"
| "find_winner expected winner index (r # rs) =
     (if effective_version r = expected then find_winner (expected + 1) (Some index) (Suc index) rs
      else if expected < effective_version r then winner
      else find_winner expected winner (Suc index) rs)"

definition mark_group :: "int \<Rightarrow> 'p precord list \<Rightarrow> nat \<Rightarrow> nat \<Rightarrow> bool list \<Rightarrow> bool list" where
  "mark_group now records gs ge keep =
     (let slice = take (ge - gs) (drop gs records);
          start_version = effective_version (records ! gs)
      in if is_append_only_oid (oid (records ! gs))
         then fold (\<lambda>i k. k[i := \<not> is_expired now (records ! i)]) [gs..<ge] keep
         else if list_ex (is_expired now) slice then keep
         else if 1 < start_version then keep
         else case find_winner start_version None gs slice of
                None \<Rightarrow> keep
              | Some i \<Rightarrow> keep[i := True])"

lemma group_end_ge: "i \<le> group_end records o' i"
  by (induction records o' i rule: group_end.induct) (subst group_end.simps, auto)

function mark_groups :: "int \<Rightarrow> 'p precord list \<Rightarrow> nat \<Rightarrow> bool list \<Rightarrow> bool list" where
  "mark_groups now records group_start keep =
     (if group_start < length records
      then let ge = group_end records (oid (records ! group_start)) (group_start + 1)
           in mark_groups now records ge (mark_group now records group_start ge keep)
      else keep)"
  by pat_completeness auto
termination
  by (relation "measure (\<lambda>(now, records, gs, keep). length records - gs)")
    (auto intro!: diff_less_mono2 less_le_trans [OF lessI group_end_ge])

declare mark_groups.simps [simp del]

definition retain :: "bool list \<Rightarrow> 'a list \<Rightarrow> 'a list" where
  "retain keep xs = map snd (filter fst (zip keep xs))"

definition resolve_sorted_batch ::
  "('p precord list \<Rightarrow> 'p precord list) \<Rightarrow> int \<Rightarrow> 'p precord list \<Rightarrow> 'p precord list" where
  "resolve_sorted_batch sorter now records =
     (let records' = sorter records;
          keep = mark_groups now records' 0 (replicate (length records') False)
      in retain keep records')"

section \<open>Specification\<close>

definition ver :: "'p precord \<Rightarrow> nat" where
  "ver r = unat (effective_version r)"

text \<open>
  The winner of an OID: no version of it has expired, the versions from 1 up to the winner's are all
  there, the next one is not, and no record of the winner's version was created earlier.
\<close>

definition winner :: "int \<Rightarrow> 'p precord list \<Rightarrow> string \<Rightarrow> 'p precord \<Rightarrow> bool" where
  "winner now records i r \<longleftrightarrow> (let group = filter (\<lambda>q. oid q = i) records in
     r \<in> set group \<and> (\<forall>q \<in> set group. \<not> is_expired now q) \<and>
     (\<forall>v. 1 \<le> v \<and> v \<le> ver r \<longrightarrow> v \<in> ver ` set group) \<and> Suc (ver r) \<notin> ver ` set group \<and>
     (\<forall>q \<in> set group. ver q = ver r \<longrightarrow> created_at_ns r \<le> created_at_ns q))"

definition resolution :: "int \<Rightarrow> 'p precord list \<Rightarrow> 'p precord list \<Rightarrow> bool" where
  "resolution now records out \<longleftrightarrow>
     (\<forall>i. \<not> is_append_only_oid i \<longrightarrow>
        (case filter (\<lambda>q. oid q = i) out of
           [] \<Rightarrow> \<not> (\<exists>r. winner now records i r)
         | [r] \<Rightarrow> winner now records i r
         | _ \<Rightarrow> False)) \<and>
     mset (filter (\<lambda>q. is_append_only_oid (oid q)) out) =
       mset (filter (\<lambda>q. is_append_only_oid (oid q) \<and> \<not> is_expired now q) records)"

definition signature :: "'p precord \<Rightarrow> string \<times> nat \<times> int" where
  "signature r = (oid r, ver r, created_at_ns r)"

section \<open>Scanning a sorted group\<close>

fun scan_nat :: "nat \<Rightarrow> 'p precord option \<Rightarrow> 'p precord list \<Rightarrow> 'p precord option" where
  "scan_nat k lv [] = lv"
| "scan_nat k lv (r # rs) =
     (if ver r = k then scan_nat (Suc k) (Some r) rs
      else if k < ver r then lv
      else scan_nat k lv rs)"

lemma ver_bounds: "1 \<le> ver r" "ver r < 2 ^ 64"
proof -
  have "effective_version r \<noteq> 0"
    by (simp add: effective_version_def)
  then show "1 \<le> ver r"
    by (simp add: ver_def Suc_le_eq unat_gt_0)
  show "ver r < 2 ^ 64"
    unfolding ver_def by (rule order_less_le_trans [OF unsigned_less]) simp
qed

lemma scan_nat_big: "2 ^ 64 \<le> k \<Longrightarrow> scan_nat k lv rs = lv"
proof (induction rs)
  case (Cons r rs)
  have "ver r < k"
    using ver_bounds(2) [of r] Cons.prems by (rule less_le_trans)
  with Cons show ?case by simp
qed simp

lemma scan_versions_nat:
  "k \<le> 2 ^ 64 \<Longrightarrow> scan_versions (of_nat k) lv rs = scan_nat k lv rs"
proof (induction rs arbitrary: k lv)
  case Nil
  show ?case by (simp only: scan_versions.simps scan_nat.simps)
next
  case (Cons r rs)
  note b = ver_bounds [of r]
  show ?case
  proof (cases "k = 2 ^ 64")
    case True
    then have "of_nat k = (0 :: u64)"
      by simp
    moreover have "effective_version r \<noteq> 0"
      by (simp add: effective_version_def)
    moreover have "scan_nat k lv (r # rs) = lv"
      using True by (intro scan_nat_big) simp
    ultimately show ?thesis
      by (simp add: word_gt_0 del: scan_nat.simps)
  next
    case False
    then have k: "k < 2 ^ 64"
      using Cons.prems by simp
    then have u: "unat (of_nat k :: u64) = k"
      by (simp add: unsigned_of_nat take_bit_nat_eq_self)
    have "effective_version r = of_nat k \<longleftrightarrow> ver r = k"
      using u by (auto simp: ver_def word_unat_eq_iff)
    moreover have "of_nat k < effective_version r \<longleftrightarrow> k < ver r"
      using u by (simp add: ver_def word_less_nat_alt)
    moreover have "scan_versions (of_nat k + 1) (Some r) rs = scan_nat (Suc k) (Some r) rs"
      using Cons.IH [OF Suc_leI [OF k], of "Some r"] by (metis of_nat_Suc add.commute)
    ultimately show ?thesis
      using Cons.IH [OF Cons.prems, of lv] by (simp only: scan_versions.simps scan_nat.simps)
  qed
qed

definition top_version :: "nat \<Rightarrow> 'p precord set \<Rightarrow> 'p precord \<Rightarrow> bool" where
  "top_version k G r \<longleftrightarrow> r \<in> G \<and> k \<le> ver r \<and> (\<forall>v. k \<le> v \<and> v \<le> ver r \<longrightarrow> v \<in> ver ` G) \<and>
     Suc (ver r) \<notin> ver ` G \<and> (\<forall>q \<in> G. ver q = ver r \<longrightarrow> created_at_ns r \<le> created_at_ns q)"

lemma version_key_le:
  "version_key x \<le> version_key q \<longleftrightarrow>
     ver x < ver q \<or> ver x = ver q \<and> created_at_ns x \<le> created_at_ns q"
  by (auto simp: version_key_def ver_def word_less_nat_alt word_le_nat_alt)

lemma top_version_first:
  assumes "ver x = k" "Suc k \<notin> ver ` G" "\<forall>q \<in> G. ver q = k \<longrightarrow> created_at_ns x \<le> created_at_ns q"
  shows "top_version k (insert x G) x"
proof -
  have "v \<in> ver ` insert x G" if "k \<le> v" "v \<le> ver x" for v
    using that assms(1) by (simp add: image_iff)
  with assms show ?thesis
    by (auto simp: top_version_def)
qed

lemma top_version_insert_eq:
  assumes "ver x = k" "top_version (Suc k) G r"
  shows "top_version k (insert x G) r"
proof -
  have "v \<in> ver ` insert x G" if "k \<le> v" "v \<le> ver r" for v
    using that assms by (cases "v = k") (auto simp: top_version_def)
  with assms show ?thesis
    by (auto simp: top_version_def)
qed

lemma top_version_insert_less:
  "ver x < k \<Longrightarrow> top_version k G r \<Longrightarrow> top_version k (insert x G) r"
  by (auto simp: top_version_def)

lemma scan_nat_spec:
  assumes "sorted (map version_key g)"
  shows "case scan_nat k lv g of
      None \<Rightarrow> lv = None \<and> k \<notin> ver ` set g
    | Some r \<Rightarrow> lv = Some r \<and> k \<notin> ver ` set g \<or> top_version k (set g) r"
  using assms
proof (induction g arbitrary: k lv)
  case Nil
  then show ?case by (cases lv) simp_all
next
  case (Cons x g)
  have x: "ver x < ver q \<or> ver x = ver q \<and> created_at_ns x \<le> created_at_ns q" if "q \<in> set g" for q
    using Cons.prems that by (simp add: version_key_le)
  have IH: "case scan_nat k' lv' g of None \<Rightarrow> lv' = None \<and> k' \<notin> ver ` set g
    | Some r \<Rightarrow> lv' = Some r \<and> k' \<notin> ver ` set g \<or> top_version k' (set g) r" for k' lv'
    using Cons by simp
  consider "ver x = k" | "k < ver x" | "ver x < k" by linarith
  then show ?case
  proof cases
    case 1
    then have "\<forall>q \<in> set g. ver q = k \<longrightarrow> created_at_ns x \<le> created_at_ns q"
      using x by fastforce
    with 1 IH [where k' = "Suc k" and lv' = "Some x"] show ?thesis
      by (auto split: option.splits intro: top_version_first top_version_insert_eq)
  next
    case 2
    then have "k \<notin> ver ` set (x # g)"
      using x by fastforce
    with 2 show ?thesis
      by (cases lv) simp_all
  next
    case 3
    with IH [where k' = k and lv' = lv] show ?thesis
      by (auto split: option.splits intro: top_version_insert_less)
  qed
qed

text \<open>What both resolvers do with a sorted, non-empty group.\<close>

definition pick :: "'p precord list \<Rightarrow> 'p precord option" where
  "pick g = (if 1 < effective_version (hd g) then None
             else scan_versions (effective_version (hd g)) None g)"

lemma pick_spec:
  assumes "sorted (map version_key g)" "g \<noteq> []"
  shows "case pick g of None \<Rightarrow> 1 \<notin> ver ` set g | Some r \<Rightarrow> top_version 1 (set g) r"
proof (cases "1 < effective_version (hd g)")
  case True
  then have "1 < ver (hd g)"
    by (simp add: ver_def word_less_nat_alt)
  moreover have "ver (hd g) \<le> ver q" if "q \<in> set g" for q
    using assms that by (cases g) (auto simp: version_key_le)
  ultimately show ?thesis
    using True by (fastforce simp: pick_def)
next
  case False
  then have "ver (hd g) \<le> 1"
    by (simp add: ver_def word_less_nat_alt)
  then have "ver (hd g) = 1"
    using ver_bounds(1) [of "hd g"] by simp
  then have e: "effective_version (hd g) = of_nat 1"
    by (simp add: ver_def word_unat_eq_iff)
  have "pick g = scan_nat 1 None g"
    using False unfolding pick_def e by (simp only: if_False scan_versions_nat) (simp add: e scan_versions_nat [of 1, simplified])
  with scan_nat_spec [OF assms(1), where k = 1 and lv = None] show ?thesis
    by (simp split: option.splits)
qed

definition group_winner :: "int \<Rightarrow> 'p precord set \<Rightarrow> 'p precord \<Rightarrow> bool" where
  "group_winner now G r \<longleftrightarrow> (\<forall>q \<in> G. \<not> is_expired now q) \<and> top_version 1 G r"

lemma winner_group:
  "winner now records i r \<longleftrightarrow> group_winner now (set (filter (\<lambda>q. oid q = i) records)) r"
  using ver_bounds(1) [of r]
  by (auto simp: winner_def group_winner_def top_version_def Let_def simp del: set_filter)

lemma pick_winner:
  assumes "sorted (map version_key g)" "g \<noteq> []" "\<forall>q \<in> set g. \<not> is_expired now q"
  shows "case pick g of None \<Rightarrow> \<not> (\<exists>r. group_winner now (set g) r) | Some r \<Rightarrow> group_winner now (set g) r"
proof -
  have "1 \<in> ver ` set g" if "top_version 1 (set g) r" for r
    using that ver_bounds(1) [of r] by (simp add: top_version_def)
  with pick_spec [OF assms(1,2)] assms(3) show ?thesis
    by (auto simp: group_winner_def split: option.splits)
qed

section \<open>The general resolver\<close>

lemma resolve_group_winner:
  assumes "g \<noteq> []"
  shows "case resolve_group now g of
      None \<Rightarrow> \<not> (\<exists>r. group_winner now (set g) r)
    | Some r \<Rightarrow> group_winner now (set g) r"
proof (cases "list_ex (is_expired now) g")
  case True
  then show ?thesis
    by (auto simp: resolve_group_def group_winner_def list_ex_iff)
next
  case False
  let ?s = "sort_key version_key g"
  have "?s \<noteq> []"
    using assms by (metis length_0_conv length_sort)
  then have "case pick ?s of None \<Rightarrow> \<not> (\<exists>r. group_winner now (set ?s) r) | Some r \<Rightarrow> group_winner now (set ?s) r"
    using False by (intro pick_winner) (simp_all add: list_ex_iff)
  moreover have "resolve_group now g = pick ?s"
    using False by (simp add: resolve_group_def pick_def Let_def)
  ultimately show ?thesis
    by (simp only: set_sort)
qed

lemma partition_spec:
  "let (gs, ap) = fold partition_step records ([], []);
       group = (\<lambda>i. filter (\<lambda>q. oid q = i) records)
   in ap = filter (\<lambda>q. is_append_only_oid (oid q)) records \<and> distinct (map fst gs) \<and>
      (\<forall>i. map_of gs i = (if is_append_only_oid i \<or> group i = [] then None else Some (group i)))"
proof (induction records rule: rev_induct)
  case Nil
  show ?case by simp
next
  case (snoc r records)
  then show ?case
    by (auto simp: partition_step_def push_group_def distinct_update update_conv' Let_def
        split: prod.splits option.splits)
qed

lemma filter_concat_keyed:
  assumes "distinct (map fst xs)" and "\<And>j y r. (j, y) \<in> set xs \<Longrightarrow> r \<in> set (f y) \<Longrightarrow> oid r = j"
  shows "filter (\<lambda>r. oid r = i) (concat (map (\<lambda>(j, y). f y) xs)) =
    (case map_of xs i of None \<Rightarrow> [] | Some y \<Rightarrow> f y)"
  using assms
proof (induction xs)
  case (Cons p xs)
  obtain j y where p: "p = (j, y)"
    by (cases p)
  have IH: "filter (\<lambda>r. oid r = i) (concat (map (\<lambda>(j, y). f y) xs)) =
      (case map_of xs i of None \<Rightarrow> [] | Some y \<Rightarrow> f y)"
    using Cons by auto
  have y: "oid r = j" if "r \<in> set (f y)" for r
    by (rule Cons.prems(2) [OF _ that]) (simp add: p)
  show ?case
  proof (cases "j = i")
    case True
    then have "map_of xs i = None"
      using Cons.prems(1) p by (simp add: map_of_eq_None_iff)
    with IH True p y show ?thesis by simp
  next
    case False
    with y have "filter (\<lambda>r. oid r = i) (f y) = []"
      by (auto simp: filter_empty_conv)
    with IH False p show ?thesis by simp
  qed
qed simp

definition outputs :: "int \<Rightarrow> 'p precord list \<Rightarrow> 'p precord list" where
  "outputs now g = (case resolve_group now g of None \<Rightarrow> [] | Some r \<Rightarrow> [r])"

lemma outputs_cases:
  assumes "g \<noteq> []"
  shows "outputs now g = [] \<and> \<not> (\<exists>r. group_winner now (set g) r) \<or>
    (\<exists>r. outputs now g = [r] \<and> group_winner now (set g) r)"
  using resolve_group_winner [OF assms, of now] by (auto simp: outputs_def split: option.splits)

lemma outputs_subset: "g \<noteq> [] \<Longrightarrow> r \<in> set (outputs now g) \<Longrightarrow> r \<in> set g"
  using outputs_cases [of g now] by (auto simp: group_winner_def top_version_def)

lemma resolutionI:
  assumes "\<And>i. \<not> is_append_only_oid i \<Longrightarrow>
      filter (\<lambda>q. oid q = i) out = [] \<and> \<not> (\<exists>r. group_winner now (set (filter (\<lambda>q. oid q = i) records)) r) \<or>
      (\<exists>r. filter (\<lambda>q. oid q = i) out = [r] \<and> group_winner now (set (filter (\<lambda>q. oid q = i) records)) r)"
    and "mset (filter (\<lambda>q. is_append_only_oid (oid q)) out) =
       mset (filter (\<lambda>q. is_append_only_oid (oid q) \<and> \<not> is_expired now q) records)"
  shows "resolution now records out"
  unfolding resolution_def winner_group
proof (intro conjI allI impI)
  fix i assume "\<not> is_append_only_oid i"
  from assms(1) [OF this] show "case filter (\<lambda>q. oid q = i) out of
      [] \<Rightarrow> \<not> (\<exists>r. group_winner now (set (filter (\<lambda>q. oid q = i) records)) r)
    | [r] \<Rightarrow> group_winner now (set (filter (\<lambda>q. oid q = i) records)) r | _ \<Rightarrow> False"
    by (auto simp del: set_filter)
qed (rule assms(2))

lemma no_group_winner_empty: "\<not> group_winner now {} r"
  by (simp add: group_winner_def top_version_def)

lemma resolve_batch_resolution:
  assumes iter: "\<And>gs. mset (iter gs) = mset gs"
  shows "resolution now records (resolve_batch iter now records)"
proof -
  obtain gs ap where fold: "fold partition_step records ([], []) = (gs, ap)"
    by (cases "fold partition_step records ([], [])")
  define grp where "grp i = filter (\<lambda>q. oid q = i) records" for i
  have ap: "ap = filter (\<lambda>q. is_append_only_oid (oid q)) records" and d: "distinct (map fst gs)"
    and gs: "\<And>i. map_of gs i = (if is_append_only_oid i \<or> grp i = [] then None else Some (grp i))"
    using partition_spec [of records] fold by (simp_all add: grp_def)
  have d': "distinct (map fst (iter gs))"
    using d iter by (metis mset_map mset_eq_imp_distinct_iff)
  have map: "map_of (iter gs) = map_of gs"
    using d d' iter [of gs] by (intro map_of_inject_set [THEN iffD2]) (auto dest: mset_eq_setD)
  have group: "g = grp j \<and> grp j \<noteq> [] \<and> \<not> is_append_only_oid j" if "(j, g) \<in> set (iter gs)" for j g
    using map_of_is_SomeI [OF d' that] by (simp add: map gs split: if_splits)
  let ?res = "concat (map (\<lambda>(j, g). outputs now g) (iter gs))"
  have out: "resolve_batch iter now records = ?res @ filter (\<lambda>r. \<not> is_expired now r) ap"
    by (simp add: resolve_batch_def fold outputs_def)
  have res_oid: "oid r = j" if "(j, g) \<in> set (iter gs)" "r \<in> set (outputs now g)" for j g r
    using group [OF that(1)] outputs_subset [of g r now] that(2) by (auto simp: grp_def)
  have keyed: "filter (\<lambda>q. oid q = i) ?res = (case map_of gs i of None \<Rightarrow> [] | Some g \<Rightarrow> outputs now g)" for i
    using filter_concat_keyed [OF d' res_oid, where i = i] by (simp add: map)
  have versioned: "\<not> is_append_only_oid (oid q)" if "q \<in> set ?res" for q
    using that res_oid group by auto
  show ?thesis
  proof (rule resolutionI)
    fix i assume i: "\<not> is_append_only_oid i"
    then have "filter (\<lambda>q. oid q = i) ap = []"
      by (auto simp: ap filter_empty_conv)
    then have f: "filter (\<lambda>q. oid q = i) (resolve_batch iter now records) = (if grp i = [] then [] else outputs now (grp i))"
      using i keyed [of i] gs [of i] by (auto simp: out filter_empty_conv)
    show "filter (\<lambda>q. oid q = i) (resolve_batch iter now records) = [] \<and>
        \<not> (\<exists>r. group_winner now (set (filter (\<lambda>q. oid q = i) records)) r) \<or>
      (\<exists>r. filter (\<lambda>q. oid q = i) (resolve_batch iter now records) = [r] \<and>
        group_winner now (set (filter (\<lambda>q. oid q = i) records)) r)"
      using outputs_cases [of "grp i" now] unfolding f grp_def [symmetric]
      by (auto simp: no_group_winner_empty)
  next
    have "filter (\<lambda>q. is_append_only_oid (oid q)) ?res = []"
      using versioned by (simp only: filter_empty_conv) blast
    then show "mset (filter (\<lambda>q. is_append_only_oid (oid q)) (resolve_batch iter now records)) =
        mset (filter (\<lambda>q. is_append_only_oid (oid q) \<and> \<not> is_expired now q) records)"
      by (simp only: out ap filter_append filter_filter append_Nil conj_commute conj_assoc) (simp add: conj_ac)
  qed
qed

section \<open>The compaction resolver\<close>

lemma group_end_takeWhile:
  "i \<le> length records \<Longrightarrow>
   group_end records o' i = i + length (takeWhile (\<lambda>r. oid r = o') (drop i records))"
proof (induction records o' i rule: group_end.induct)
  case (1 records o' i)
  show ?case
  proof (cases "i < length records")
    case True
    then have "drop i records = records ! i # drop (Suc i) records"
      by (simp add: Cons_nth_drop_Suc)
    with 1 True show ?thesis
      by (subst group_end.simps) simp
  next
    case False
    with 1 show ?thesis
      by (subst group_end.simps) simp
  qed
qed

lemma retain_append [simp]:
  "length a = length xs \<Longrightarrow> retain (a @ b) (xs @ ys) = retain a xs @ retain b ys"
  by (simp add: retain_def)

lemma retain_simps [simp]: "retain [] xs = []" "retain (b # bs) (x # xs) = (if b then x # retain bs xs else retain bs xs)"
  by (simp_all add: retain_def)

lemma retain_none [simp]: "retain (replicate n False) xs = []"
  by (induction n arbitrary: xs) (simp, case_tac xs, simp_all add: retain_def)

lemma retain_map [simp]: "retain (map f xs) xs = filter f xs"
  by (induction xs) simp_all

lemma retain_one: "i < length xs \<Longrightarrow> retain ((replicate (length xs) False)[i := True]) xs = [xs ! i]"
  by (induction xs arbitrary: i) (auto simp: less_Suc_eq_0_disj)

lemma fold_update_range:
  "a + n \<le> length ks \<Longrightarrow>
   fold (\<lambda>i k. k[i := f i]) [a..<a + n] ks = take a ks @ map f [a..<a + n] @ drop (a + n) ks"
proof (induction n)
  case (Suc n)
  let ?l = "take a ks @ map f [a..<a + n] @ drop (a + n) ks"
  have "drop (a + n) ks = ks ! (a + n) # drop (Suc (a + n)) ks"
    using Suc.prems by (simp add: Cons_nth_drop_Suc)
  moreover have "length (take a ks @ map f [a..<a + n]) = a + n"
    using Suc.prems by simp
  ultimately have "?l[a + n := f (a + n)] = take a ks @ map f [a..<a + n] @ f (a + n) # drop (Suc (a + n)) ks"
    by (simp add: list_update_append del: append_assoc add: append_assoc [symmetric])
  with Suc show ?case by simp
qed simp

lemma find_winner_scan:
  "\<forall>k < length g. records ! (j + k) = g ! k \<Longrightarrow>
   map_option ((!) records) (find_winner e w j g) = scan_versions e (map_option ((!) records) w) g"
proof (induction g arbitrary: j e w)
  case (Cons r g)
  have "records ! j = r"
    using Cons.prems by (metis add_0_right length_greater_0_conv list.discI nth_Cons_0)
  moreover have "\<forall>k < length g. records ! (Suc j + k) = g ! k"
    using Cons.prems by (metis Suc_less_eq add_Suc_shift length_Cons nth_Cons_Suc)
  ultimately show ?case
    using Cons.IH [of "Suc j" "e + 1" "Some j"] Cons.IH [of "Suc j" e w] by simp
qed simp

lemma find_winner_range:
  "find_winner e w j g = Some i \<Longrightarrow> w = Some i \<or> j \<le> i \<and> i < j + length g"
  by (induction g arbitrary: j e w) (fastforce split: if_splits)+

definition sorted_outputs :: "int \<Rightarrow> 'p precord list \<Rightarrow> 'p precord list" where
  "sorted_outputs now g =
     (if is_append_only_oid (oid (hd g)) then filter (\<lambda>r. \<not> is_expired now r) g
      else if list_ex (is_expired now) g then []
      else case pick g of None \<Rightarrow> [] | Some r \<Rightarrow> [r])"

lemma mark_winner:
  assumes "length d = gs" "gs \<le> i" "i < gs + n"
  shows "(d @ replicate (n + m) False)[i := True] =
    d @ (replicate n False)[i - gs := True] @ replicate m False"
proof -
  have "i - gs < n"
    using assms(2,3) by linarith
  with assms show ?thesis
    by (simp add: list_update_append replicate_add)
qed

lemma mark_group_retain:
  assumes "length d = length pre" and "g \<noteq> []"
  shows "\<exists>m. length m = length g \<and> retain m g = sorted_outputs now g \<and>
    mark_group now (pre @ g @ rest) (length pre) (length pre + length g)
      (d @ replicate (length g + length rest) False) = d @ m @ replicate (length rest) False"
proof -
  let ?rs = "pre @ g @ rest" and ?gs = "length pre" and ?n = "length g"
  let ?keep = "d @ replicate (?n + length rest) False"
  have slice: "take (?gs + ?n - ?gs) (drop ?gs ?rs) = g" and hd: "?rs ! ?gs = hd g"
    using assms(2) by (simp_all add: nth_append hd_conv_nth)
  have same: "d @ replicate ?n False @ replicate (length rest) False = ?keep"
    by (simp add: replicate_add)
  consider "is_append_only_oid (oid (hd g))"
    | "\<not> is_append_only_oid (oid (hd g))" "list_ex (is_expired now) g \<or> 1 < effective_version (hd g)"
    | "\<not> is_append_only_oid (oid (hd g))" "\<not> list_ex (is_expired now) g" "\<not> 1 < effective_version (hd g)"
    by blast
  then show ?thesis
  proof cases
    case 1
    have "map (\<lambda>i. \<not> is_expired now (?rs ! i)) [?gs..<?gs + ?n] = map (\<lambda>r. \<not> is_expired now r) g"
      by (rule nth_equalityI) (simp_all add: nth_append)
    with 1 show ?thesis
      using fold_update_range [of ?gs ?n ?keep "\<lambda>i. \<not> is_expired now (?rs ! i)"] assms(1)
      by (intro exI [of _ "map (\<lambda>r. \<not> is_expired now r) g"])
        (simp add: mark_group_def hd Let_def sorted_outputs_def)
  next
    case 2
    then show ?thesis
      using same by (intro exI [of _ "replicate ?n False"])
        (auto simp: mark_group_def hd slice Let_def sorted_outputs_def pick_def)
  next
    case 3
    let ?w = "find_winner (effective_version (hd g)) None ?gs g"
    have scan: "map_option ((!) ?rs) ?w = pick g"
      using find_winner_scan [of g ?rs ?gs "effective_version (hd g)" None] 3(3)
      by (simp add: nth_append pick_def)
    show ?thesis
    proof (cases ?w)
      case None
      then show ?thesis
        using same 3 scan by (intro exI [of _ "replicate ?n False"])
          (auto simp: mark_group_def hd slice Let_def sorted_outputs_def)
    next
      case (Some i)
      then have i: "?gs \<le> i" "i < ?gs + ?n"
        by (auto dest: find_winner_range)
      then have "i - ?gs < ?n"
        by linarith
      then have "pick g = Some (g ! (i - ?gs))"
        using scan Some i(1) by (simp add: nth_append)
      then show ?thesis
        using 3 Some i assms(1) \<open>i - ?gs < ?n\<close> retain_one [of "i - ?gs" g] mark_winner [OF assms(1) i]
        by (intro exI [of _ "(replicate ?n False)[i - ?gs := True]"])
          (simp add: mark_group_def hd slice Let_def sorted_outputs_def)
    qed
  qed
qed

function group_outputs :: "int \<Rightarrow> 'p precord list \<Rightarrow> 'p precord list" where
  "group_outputs now [] = []"
| "group_outputs now (x # xs) =
     sorted_outputs now (x # takeWhile (\<lambda>r. oid r = oid x) xs) @
     group_outputs now (dropWhile (\<lambda>r. oid r = oid x) xs)"
  by pat_completeness auto
termination
  by (relation "measure (\<lambda>(now, xs). length xs)") (auto simp: le_imp_less_Suc length_dropWhile_le)

lemma mark_groups_retain:
  "length d = length pre \<Longrightarrow>
   retain (mark_groups now (pre @ suf) (length pre) (d @ replicate (length suf) False)) (pre @ suf) =
     retain d pre @ group_outputs now suf"
proof (induction now suf arbitrary: pre d rule: group_outputs.induct)
  case (1 now)
  then show ?case by (subst mark_groups.simps) simp
next
  case (2 now x xs)
  let ?g = "x # takeWhile (\<lambda>r. oid r = oid x) xs" and ?rest = "dropWhile (\<lambda>r. oid r = oid x) xs"
  have split: "pre @ x # xs = pre @ ?g @ ?rest" "length (x # xs) = length ?g + length ?rest"
    by (simp_all add: length_append [symmetric] del: length_append)
  have ge: "group_end (pre @ x # xs) (oid ((pre @ x # xs) ! length pre)) (length pre + 1) =
      length pre + length ?g"
    by (simp add: group_end_takeWhile)
  obtain m where m: "length m = length ?g" "retain m ?g = sorted_outputs now ?g"
    "mark_group now (pre @ ?g @ ?rest) (length pre) (length pre + length ?g)
       (d @ replicate (length ?g + length ?rest) False) = d @ m @ replicate (length ?rest) False"
    using mark_group_retain [OF 2(2), of ?g now ?rest] by blast
  have "mark_groups now (pre @ x # xs) (length pre) (d @ replicate (length (x # xs)) False) =
      mark_groups now ((pre @ ?g) @ ?rest) (length (pre @ ?g)) ((d @ m) @ replicate (length ?rest) False)"
    using m(3) unfolding split(1) split(2) [symmetric]
    by (subst mark_groups.simps) (simp add: ge [unfolded split(1), simplified] Let_def del: length_Cons)
  then show ?case
    using 2(1) [of "d @ m" "pre @ ?g"] 2(2) m(1,2) by simp
qed

lemma sort_order_oid: "sort_order x \<le> sort_order y \<Longrightarrow> oid x \<le> oid y"
  by (auto simp: sort_order_def)

lemma sort_order_version: "sort_order x \<le> sort_order y \<Longrightarrow> oid x = oid y \<Longrightarrow> version_key x \<le> version_key y"
  by (auto simp: sort_order_def version_key_def)

lemma oid_passed:
  "sort_order x \<le> sort_order y \<Longrightarrow> sort_order y \<le> sort_order q \<Longrightarrow> oid y \<noteq> oid x \<Longrightarrow> oid q \<noteq> oid x"
  by (auto dest!: sort_order_oid)

lemma sorted_group:
  assumes "sorted (map sort_order (x # xs))"
  shows "takeWhile (\<lambda>r. oid r = oid x) xs = filter (\<lambda>r. oid r = oid x) xs"
    and "dropWhile (\<lambda>r. oid r = oid x) xs = filter (\<lambda>r. oid r \<noteq> oid x) xs"
  using assms
proof (induction xs)
  case (Cons y ys)
  have gone: "filter (\<lambda>r. oid r = oid x) ys = []" "filter (\<lambda>r. oid r \<noteq> oid x) ys = ys"
    if "oid y \<noteq> oid x" "sorted (map sort_order (x # y # ys))"
    using that oid_passed [of x y] by (auto simp: filter_empty_conv filter_id_conv)
  {
    case 1
    with Cons gone show ?case by (cases "oid y = oid x") simp_all
  next
    case 2
    with Cons gone show ?case by (cases "oid y = oid x") simp_all
  }
qed simp_all

lemma sorted_filter_oid:
  assumes "sorted (map sort_order xs)"
  shows "sorted (map version_key (filter (\<lambda>r. oid r = i) xs))"
  using assms
  by (induction xs) (auto intro: sort_order_version)

lemma sorted_outputs_subset: "g \<noteq> [] \<Longrightarrow> sorted (map version_key g) \<Longrightarrow> set (sorted_outputs now g) \<subseteq> set g"
  using pick_spec [of g] by (auto simp: sorted_outputs_def top_version_def split: option.splits)

lemma sorted_outputs_cases:
  assumes "g \<noteq> []" "sorted (map version_key g)" "\<not> is_append_only_oid (oid (hd g))"
  shows "sorted_outputs now g = [] \<and> \<not> (\<exists>r. group_winner now (set g) r) \<or>
    (\<exists>r. sorted_outputs now g = [r] \<and> group_winner now (set g) r)"
proof (cases "list_ex (is_expired now) g")
  case True
  then show ?thesis
    using assms(3) by (auto simp: sorted_outputs_def group_winner_def list_ex_iff)
next
  case False
  then show ?thesis
    using assms(3) pick_winner [OF assms(2,1), of now]
    by (auto simp: sorted_outputs_def list_ex_iff split: option.splits)
qed

lemma group_outputs_oid:
  assumes "sorted (map sort_order xs)"
  shows "filter (\<lambda>q. oid q = i) (group_outputs now xs) =
    (if filter (\<lambda>q. oid q = i) xs = [] then [] else sorted_outputs now (filter (\<lambda>q. oid q = i) xs))"
  using assms
proof (induction now xs rule: group_outputs.induct)
  case (1 now)
  then show ?case by simp
next
  case (2 now x xs)
  let ?g = "x # filter (\<lambda>r. oid r = oid x) xs" and ?rest = "filter (\<lambda>r. oid r \<noteq> oid x) xs"
  note grp = sorted_group [OF 2(2)]
  have g: "?g = filter (\<lambda>r. oid r = oid x) (x # xs)"
    by simp
  have "set (sorted_outputs now ?g) \<subseteq> set ?g"
    using sorted_filter_oid [OF 2(2), of "oid x"] by (intro sorted_outputs_subset) simp_all
  then have out: "filter (\<lambda>q. oid q = i) (sorted_outputs now ?g) =
      (if i = oid x then sorted_outputs now ?g else [])"
    by (auto simp: filter_id_conv filter_empty_conv)
  have "sorted (map sort_order ?rest)"
    using 2(2) by (simp add: sorted_filter)
  with 2(1) have IH: "filter (\<lambda>q. oid q = i) (group_outputs now ?rest) =
      (if filter (\<lambda>q. oid q = i) ?rest = [] then [] else sorted_outputs now (filter (\<lambda>q. oid q = i) ?rest))"
    by (simp only: grp)
  show ?case
  proof (cases "i = oid x")
    case True
    with IH out show ?thesis
      by (simp add: grp)
  next
    case False
    then have "filter (\<lambda>q. oid q = i) ?rest = filter (\<lambda>q. oid q = i) (x # xs)"
      by (auto intro: filter_cong)
    with IH out False show ?thesis
      by (simp only: grp group_outputs.simps filter_append if_False append_Nil)
  qed
qed

lemma group_outputs_append_only:
  assumes "sorted (map sort_order xs)"
  shows "filter (\<lambda>q. is_append_only_oid (oid q)) (group_outputs now xs) =
    filter (\<lambda>q. is_append_only_oid (oid q) \<and> \<not> is_expired now q) xs"
  using assms
proof (induction now xs rule: group_outputs.induct)
  case (2 now x xs)
  let ?g = "x # filter (\<lambda>r. oid r = oid x) xs" and ?rest = "filter (\<lambda>r. oid r \<noteq> oid x) xs"
  let ?P = "\<lambda>q. is_append_only_oid (oid q) \<and> \<not> is_expired now q"
  note grp = sorted_group [OF 2(2)]
  have split: "x # xs = ?g @ ?rest"
    by (simp add: grp [symmetric])
  have "sorted (map version_key ?g)"
    using sorted_filter_oid [OF 2(2), of "oid x"] by simp
  have "filter (\<lambda>q. is_append_only_oid (oid q)) (sorted_outputs now ?g) = filter ?P ?g"
  proof (cases "is_append_only_oid (oid x)")
    case True
    then have "filter (\<lambda>q. is_append_only_oid (oid q)) (sorted_outputs now ?g) = filter (\<lambda>q. is_append_only_oid (oid q)) (filter (\<lambda>r. \<not> is_expired now r) ?g)"
      by (simp add: sorted_outputs_def)
    then show ?thesis
      by (simp add: conj_ac)
  next
    case False
    then have "filter (\<lambda>q. is_append_only_oid (oid q)) (sorted_outputs now ?g) = []"
      using sorted_outputs_subset [OF _ \<open>sorted (map version_key ?g)\<close>, of now]
      by (auto simp: filter_empty_conv subset_iff)
    moreover have "filter ?P ?g = []"
      using False by (auto simp: filter_empty_conv)
    ultimately show ?thesis by (simp only:)
  qed
  moreover have "sorted (map sort_order ?rest)"
    using 2(2) by (simp add: sorted_filter)
  with 2(1) have "filter (\<lambda>q. is_append_only_oid (oid q)) (group_outputs now ?rest) = filter ?P ?rest"
    by (simp only: grp)
  ultimately have "filter (\<lambda>q. is_append_only_oid (oid q)) (sorted_outputs now ?g @ group_outputs now ?rest) =
      filter ?P (?g @ ?rest)"
    by (simp only: filter_append)
  then show ?case
    by (simp only: grp group_outputs.simps split [symmetric])
qed simp

lemma resolve_sorted_batch_outputs:
  "resolve_sorted_batch sorter now records = group_outputs now (sorter records)"
  using mark_groups_retain [of "[]" "[]" now "sorter records"]
  by (simp add: resolve_sorted_batch_def Let_def)

lemma resolve_sorted_batch_resolution:
  assumes "mset (sorter records) = mset records" and "sorted (map sort_order (sorter records))"
  shows "resolution now records (resolve_sorted_batch sorter now records)"
  unfolding resolve_sorted_batch_outputs
proof (rule resolutionI)
  fix i assume i: "\<not> is_append_only_oid i"
  let ?g = "filter (\<lambda>q. oid q = i) (sorter records)"
  have set: "set ?g = set (filter (\<lambda>q. oid q = i) records)"
    using mset_eq_setD [OF assms(1)] by simp
  have "oid (hd ?g) = i" if "?g \<noteq> []"
    using that hd_in_set [OF that] by simp
  with i sorted_filter_oid [OF assms(2), of i] sorted_outputs_cases [of ?g now]
  show "filter (\<lambda>q. oid q = i) (group_outputs now (sorter records)) = [] \<and>
        \<not> (\<exists>r. group_winner now (set (filter (\<lambda>q. oid q = i) records)) r) \<or>
      (\<exists>r. filter (\<lambda>q. oid q = i) (group_outputs now (sorter records)) = [r] \<and>
        group_winner now (set (filter (\<lambda>q. oid q = i) records)) r)"
    unfolding set [symmetric] group_outputs_oid [OF assms(2)]
    by (cases "?g = []") (auto simp: no_group_winner_empty simp del: set_filter)
next
  show "mset (filter (\<lambda>q. is_append_only_oid (oid q)) (group_outputs now (sorter records))) =
      mset (filter (\<lambda>q. is_append_only_oid (oid q) \<and> \<not> is_expired now q) records)"
    by (simp add: group_outputs_append_only [OF assms(2)] mset_filter assms(1))
qed

section \<open>Both resolvers agree\<close>

lemma winner_signature:
  assumes "winner now records i r" "winner now records i q"
  shows "signature r = signature q"
proof -
  have "ver r \<le> ver q" if "winner now records i r" "winner now records i q" for r q
  proof (rule ccontr)
    assume "\<not> ver r \<le> ver q"
    then have "Suc (ver q) \<in> ver ` set (filter (\<lambda>q. oid q = i) records)"
      using that(1) by (simp add: winner_def Let_def)
    then show False
      using that(2) by (simp add: winner_def Let_def)
  qed
  then have "ver r = ver q"
    using assms by (simp add: antisym)
  moreover from this have "created_at_ns r = created_at_ns q"
    using assms by (auto simp: winner_def Let_def intro: antisym)
  ultimately show ?thesis
    using assms by (simp add: winner_def Let_def signature_def)
qed

lemma mset_by_oid:
  fixes xs ys :: "'a precord list"
  assumes "\<And>i. mset (map signature (filter (\<lambda>q. oid q = i) xs)) = mset (map signature (filter (\<lambda>q. oid q = i) ys))"
  shows "mset (map signature xs) = mset (map signature ys)"
proof (rule multiset_eqI)
  fix s :: "string \<times> nat \<times> int"
  have c: "count (mset (map signature zs)) s = count (mset (map signature (filter (\<lambda>q. oid q = fst s) zs))) s"
    for zs :: "'a precord list"
    by (induction zs) (auto simp: signature_def)
  show "count (mset (map signature xs)) s = count (mset (map signature ys)) s"
    unfolding c [of xs] c [of ys] by (simp only: assms)
qed

lemma resolution_cases:
  assumes "resolution now records out" "\<not> is_append_only_oid i"
  shows "filter (\<lambda>q. oid q = i) out = [] \<and> \<not> (\<exists>r. winner now records i r) \<or>
    (\<exists>r. filter (\<lambda>q. oid q = i) out = [r] \<and> winner now records i r)"
proof -
  have "case filter (\<lambda>q. oid q = i) out of [] \<Rightarrow> \<not> (\<exists>r. winner now records i r)
      | [r] \<Rightarrow> winner now records i r | _ \<Rightarrow> False"
    using assms by (simp add: resolution_def)
  then show ?thesis
    by (auto split: list.splits)
qed

lemma resolution_unique:
  assumes "resolution now records xs" "resolution now records ys"
  shows "mset (map signature xs) = mset (map signature ys)"
proof (rule mset_by_oid)
  fix i
  show "mset (map signature (filter (\<lambda>q. oid q = i) xs)) = mset (map signature (filter (\<lambda>q. oid q = i) ys))"
  proof (cases "is_append_only_oid i")
    case True
    then have group: "mset (filter (\<lambda>q. oid q = i) zs) =
        filter_mset (\<lambda>q. oid q = i) (mset (filter (\<lambda>q. is_append_only_oid (oid q)) zs))"
      for zs :: "'a precord list"
      by (induction zs) auto
    have "mset (filter (\<lambda>q. is_append_only_oid (oid q)) xs) = mset (filter (\<lambda>q. is_append_only_oid (oid q)) ys)"
      using assms by (simp add: resolution_def)
    then show ?thesis
      by (simp only: mset_map group)
  next
    case False
    from resolution_cases [OF assms(1) False] resolution_cases [OF assms(2) False] show ?thesis
      by (auto dest: winner_signature simp del: mset_filter)
  qed
qed

lemma set_retain: "set (retain ks xs) \<subseteq> set xs"
  by (auto simp: retain_def dest: set_zip_rightD)

lemma retain_sorted: "sorted (map f xs) \<Longrightarrow> sorted (map f (retain ks xs))"
proof (induction xs arbitrary: ks)
  case (Cons x xs)
  show ?case
  proof (cases ks)
    case (Cons k ks')
    with Cons.prems Cons.IH [of ks'] set_retain [of ks' xs] show ?thesis
      by auto
  qed (simp add: retain_def)
qed (simp add: retain_def)

text \<open>
  C14: the resolvers keep the MVCC rules. Whatever order the hash map is iterated in, the general
  resolver returns for every versioned OID exactly one record, the winner (no expired version, all
  versions from 1 up to it present, the next one absent, created first among its version), or none when
  there is no winner; and exactly the append-only records that have not expired.
\<close>

theorem resolve_batch_correct:
  assumes "\<And>gs. mset (iter gs) = mset gs"
  shows "resolution now records (resolve_batch iter now records)"
  by (rule resolve_batch_resolution) (rule assms)

text \<open>
  C15: the compaction resolver keeps the same rules. Whatever permutation the unstable sort picks among
  those in order, the in-place resolver (sort, index scan over contiguous groups, one-byte mask,
  retain) returns the same winners and append-only records, in the order of the sort, that is by OID,
  version, creation and update time.
\<close>

theorem resolve_sorted_batch_correct:
  assumes "mset (sorter records) = mset records" and "sorted (map sort_order (sorter records))"
  shows "resolution now records (resolve_sorted_batch sorter now records) \<and>
    sorted (map sort_order (resolve_sorted_batch sorter now records))"
  using resolve_sorted_batch_resolution [of sorter records, OF assms] retain_sorted [OF assms(2)]
  by (simp add: resolve_sorted_batch_def Let_def)

text \<open>
  Query path and compaction agree. For the same batch the two resolvers return records with the
  same OIDs, versions and creation times, with the same multiplicities, and literally the same
  append-only records (as multisets).
\<close>

theorem resolvers_agree:
  assumes "\<And>gs. mset (iter gs) = mset gs"
    and "mset (sorter records) = mset records" and "sorted (map sort_order (sorter records))"
  shows "mset (map signature (resolve_batch iter now records)) =
      mset (map signature (resolve_sorted_batch sorter now records)) \<and>
    mset (filter (\<lambda>q. is_append_only_oid (oid q)) (resolve_batch iter now records)) =
      mset (filter (\<lambda>q. is_append_only_oid (oid q)) (resolve_sorted_batch sorter now records))"
proof -
  have res: "resolution now records (resolve_batch iter now records)"
    "resolution now records (resolve_sorted_batch sorter now records)"
    using assms by (blast intro: resolve_batch_resolution resolve_sorted_batch_resolution)+
  with resolution_unique [OF res] show ?thesis
    by (simp add: resolution_def)
qed

text \<open>A batch for the witnesses: a gap at version 4, a tie at version 2, an expired OID, a log line.\<close>

definition sample_record :: "string \<Rightarrow> u64 \<Rightarrow> int \<Rightarrow> int option \<Rightarrow> unit precord" where
  "sample_record i v c vt = \<lparr>oid = i, record_version = v, created_at_ns = c, updated_at_ns = c,
     valid_to_ns = vt, payload = ()\<rparr>"

definition sample_batch :: "unit precord list" where
  "sample_batch = [sample_record ''a'' 2 8 None, sample_record ''a'' 0 5 None, sample_record ''b'' 1 5 (Some 3),
     sample_record [] 7 1 None, sample_record ''a'' 2 6 None, sample_record ''a'' 4 9 None]"

lemmas sample_eval = sample_batch_def sample_record_def resolve_batch_def partition_step_def
  push_group_def is_append_only_oid_def trim_def is_whitespace_def resolve_group_def is_expired_def
  version_key_def effective_version_def Let_def

theorem resolve_batch_correct_witness:
  "resolution 4 sample_batch (resolve_batch rev 4 sample_batch) \<and>
   resolve_batch rev 4 sample_batch = [sample_record ''a'' 2 6 None, sample_record [] 7 1 None]"
  using resolve_batch_correct [of rev 4 sample_batch] by (simp add: sample_eval)

theorem resolve_sorted_batch_correct_witness:
  "resolution 4 sample_batch (resolve_sorted_batch (sort_key sort_order) 4 sample_batch)"
  using resolve_sorted_batch_correct [of "sort_key sort_order" sample_batch 4] by simp

theorem resolvers_agree_witness:
  "mset (map signature (resolve_batch rev 4 sample_batch)) =
     mset (map signature (resolve_sorted_batch (sort_key sort_order) 4 sample_batch))"
  using resolvers_agree [of rev "sort_key sort_order" sample_batch 4] by simp

end
