(* ===== verification/Wal_Header.thy ===== *)
theory Wal_Header
  imports Prelude
begin

text \<open>
  The WAL segment header, version 2 (\<^verbatim>\<open>proximadb-wal-segment-header\<close>): its byte layout, the encoder,
  the version peek and the decoder with every check. A header field is a word of its width (the signed
  creation time in two's complement), the policy id its UTF-8 bytes; \<open>utf8_valid\<close> is the check of
  \<^verbatim>\<open>std::str::from_utf8\<close>. Each \<open>bail!\<close> is a constructor of \<open>wal_error\<close>.

  The lemmas: decoding an encoded header gives it back exactly when its length fits the \<open>u16\<close> fields;
  whatever decodes is, but for the reserved bytes, the encoding of the result; torn headers are refused.
\<close>

section \<open>Data\<close>

datatype embedding_scalar_type = Fp32 | Fp16 | Bf16 | Int8Scalar | UInt8Scalar

fun scalar_tag :: "embedding_scalar_type \<Rightarrow> u8" where
  "scalar_tag Fp32 = 0x01"
| "scalar_tag Fp16 = 0x02"
| "scalar_tag Bf16 = 0x03"
| "scalar_tag Int8Scalar = 0x04"
| "scalar_tag UInt8Scalar = 0x05"

definition PWAL_MAGIC :: bytes where
  "PWAL_MAGIC = [0x50, 0x57, 0x41, 0x4C]"

definition SEGMENT_HEADER_VERSION_V2 :: u16 where
  "SEGMENT_HEADER_VERSION_V2 = 2"

definition SEGMENT_HEADER_VERSION_V1 :: u16 where
  "SEGMENT_HEADER_VERSION_V1 = 1"

definition PWAL_PEEK_LEN :: nat where
  "PWAL_PEEK_LEN = 6"

definition V2_HEADER_FIXED_LEN :: nat where
  "V2_HEADER_FIXED_LEN = 4 + 2 + 2 + 4 + 16 + 8 + 1 + 8 + 2 + 8 + 8"

record v2_header =
  flags :: u32
  segment_id :: u128
  hdr_created_at_ns :: u64
  canonical_default_precision :: embedding_scalar_type
  precision_epoch :: u64
  policy_id :: bytes
  policy_version :: u64

datatype peeked_version = PeekV1 | PeekV2

datatype wal_error =
    PeekTooShort nat
  | MagicMismatch bytes
  | UnsupportedVersion u16
  | DecodeOnV1
  | HeaderTruncated nat
  | HeaderLenTooSmall nat
  | DeclaredTruncated nat nat
  | UnknownPrecision u8
  | HeaderLenMismatch nat nat
  | PolicyNotUtf8

section \<open>Little-endian fields and UTF-8\<close>

definition to_le :: "'a::len word \<Rightarrow> bytes" where
  "to_le w = le_bytes (LENGTH('a) div 8) (unat w)"

definition from_le :: "bytes \<Rightarrow> 'a::len word" where
  "from_le bs = of_nat (le_value bs)"

definition byte_slice :: "nat \<Rightarrow> nat \<Rightarrow> bytes \<Rightarrow> bytes" where
  "byte_slice off n data = take n (drop off data)"

definition u16_try_from :: "nat \<Rightarrow> u16 option" where
  "u16_try_from n = (if n < 65536 then Some (of_nat n) else None)"

definition u16_or_max :: "nat \<Rightarrow> u16" where
  "u16_or_max n = (case u16_try_from n of None \<Rightarrow> - 1 | Some w \<Rightarrow> w)"

definition byte_in :: "u8 \<Rightarrow> u8 \<Rightarrow> u8 \<Rightarrow> bool" where
  "byte_in lo hi b \<longleftrightarrow> lo \<le> b \<and> b \<le> hi"

abbreviation cont :: "u8 \<Rightarrow> bool" where
  "cont \<equiv> byte_in 0x80 0xBF"

fun utf8_valid :: "bytes \<Rightarrow> bool" where
  "utf8_valid [] = True"
| "utf8_valid (a # rest) =
     (if a < 0x80 then utf8_valid rest
      else case rest of
        [] \<Rightarrow> False
      | b # rest1 \<Rightarrow>
          if byte_in 0xC2 0xDF a then cont b \<and> utf8_valid rest1
          else case rest1 of
            [] \<Rightarrow> False
          | c # rest2 \<Rightarrow>
              if a = 0xE0 then byte_in 0xA0 0xBF b \<and> cont c \<and> utf8_valid rest2
              else if a = 0xED then byte_in 0x80 0x9F b \<and> cont c \<and> utf8_valid rest2
              else if byte_in 0xE1 0xEF a then cont b \<and> cont c \<and> utf8_valid rest2
              else case rest2 of
                [] \<Rightarrow> False
              | d # rest3 \<Rightarrow>
                  if a = 0xF0 then byte_in 0x90 0xBF b \<and> cont c \<and> cont d \<and> utf8_valid rest3
                  else if a = 0xF4 then byte_in 0x80 0x8F b \<and> cont c \<and> cont d \<and> utf8_valid rest3
                  else byte_in 0xF1 0xF3 a \<and> cont b \<and> cont c \<and> cont d \<and> utf8_valid rest3)"

section \<open>Operations\<close>

definition peek_segment_version :: "bytes \<Rightarrow> wal_error + peeked_version" where
  "peek_segment_version data =
     (if length data < PWAL_PEEK_LEN then Inl (PeekTooShort (length data))
      else if take 4 data \<noteq> PWAL_MAGIC then Inl (MagicMismatch (take 4 data))
      else let version = from_le (byte_slice 4 2 data)
           in if version = SEGMENT_HEADER_VERSION_V1 then Inr PeekV1
              else if version = SEGMENT_HEADER_VERSION_V2 then Inr PeekV2
              else Inl (UnsupportedVersion version))"

definition encode :: "v2_header \<Rightarrow> bytes" where
  "encode h =
     (let policy_id_bytes = policy_id h;
          total = V2_HEADER_FIXED_LEN + length policy_id_bytes;
          header_len = u16_or_max total
      in PWAL_MAGIC @ to_le SEGMENT_HEADER_VERSION_V2 @ to_le header_len @ to_le (flags h) @
         to_le (segment_id h) @ to_le (hdr_created_at_ns h) @ [scalar_tag (canonical_default_precision h)] @
         to_le (precision_epoch h) @ to_le (u16_or_max (length policy_id_bytes)) @ policy_id_bytes @
         to_le (policy_version h) @ replicate 8 0)"

definition decode_precision :: "u8 \<Rightarrow> wal_error + embedding_scalar_type" where
  "decode_precision b =
     (if b = 0x01 then Inr Fp32 else if b = 0x02 then Inr Fp16 else if b = 0x03 then Inr Bf16
      else if b = 0x04 then Inr Int8Scalar else if b = 0x05 then Inr UInt8Scalar
      else Inl (UnknownPrecision b))"

text \<open>The fields behind the length checks; the offsets are those the decoder counts up.\<close>

definition decode_fields :: "bytes \<Rightarrow> nat \<Rightarrow> wal_error + v2_header \<times> nat" where
  "decode_fields data header_len =
     (case decode_precision (data ! 36) of
        Inl e \<Rightarrow> Inl e
      | Inr precision \<Rightarrow>
          let policy_id_len = unat (from_le (byte_slice 45 2 data) :: u16)
          in if header_len \<noteq> V2_HEADER_FIXED_LEN + policy_id_len
             then Inl (HeaderLenMismatch header_len policy_id_len)
             else if \<not> utf8_valid (byte_slice 47 policy_id_len data) then Inl PolicyNotUtf8
             else Inr (\<lparr>flags = from_le (byte_slice 8 4 data), segment_id = from_le (byte_slice 12 16 data),
                        hdr_created_at_ns = from_le (byte_slice 28 8 data),
                        canonical_default_precision = precision,
                        precision_epoch = from_le (byte_slice 37 8 data),
                        policy_id = byte_slice 47 policy_id_len data,
                        policy_version = from_le (byte_slice (47 + policy_id_len) 8 data)\<rparr>, header_len))"

definition decode :: "bytes \<Rightarrow> wal_error + v2_header \<times> nat" where
  "decode data =
     (case peek_segment_version data of
        Inl e \<Rightarrow> Inl e
      | Inr PeekV1 \<Rightarrow> Inl DecodeOnV1
      | Inr PeekV2 \<Rightarrow>
          if length data < V2_HEADER_FIXED_LEN then Inl (HeaderTruncated (length data))
          else let header_len = unat (from_le (byte_slice 6 2 data) :: u16)
               in if header_len < V2_HEADER_FIXED_LEN then Inl (HeaderLenTooSmall header_len)
                  else if length data < header_len
                       then Inl (DeclaredTruncated header_len (length data))
                       else decode_fields data header_len)"

section \<open>Layout\<close>

lemma from_le_to_le [simp]:
  "LENGTH('a) mod 8 = 0 \<Longrightarrow> from_le (to_le w) = (w :: 'a::len word)"
  using le_value_unat [of "LENGTH('a) div 8" w] by (simp add: from_le_def to_le_def mod_0_imp_dvd)

lemma length_to_le [simp]: "length (to_le (w :: 'a::len word)) = LENGTH('a) div 8"
  by (simp add: to_le_def)

lemma fixed_len: "V2_HEADER_FIXED_LEN = 63"
  by (simp add: V2_HEADER_FIXED_LEN_def)

lemma unat_u16_or_max: "unat (u16_or_max n) = min n 65535"
  by (simp add: u16_or_max_def u16_try_from_def unsigned_of_nat take_bit_nat_eq_self unat_max_word)

lemma length_encode: "length (encode h) = 63 + length (policy_id h)"
  by (simp add: encode_def Let_def PWAL_MAGIC_def)

lemma slice_skip: "length pre = n \<Longrightarrow> byte_slice (n + off) k (pre @ xs) = byte_slice off k xs"
  by (simp add: byte_slice_def)

lemma decode_precision_tag [simp]: "decode_precision (scalar_tag p) = Inr p"
  by (cases p) (simp_all add: decode_precision_def)

text \<open>Every field of an encoding, read back at the offset the decoder uses.\<close>

lemma encode_fields:
  "take 4 (encode h @ xs) = PWAL_MAGIC" "byte_slice 4 2 (encode h @ xs) = to_le SEGMENT_HEADER_VERSION_V2"
  "byte_slice 6 2 (encode h @ xs) = to_le (u16_or_max (63 + length (policy_id h)))"
  "byte_slice 8 4 (encode h @ xs) = to_le (flags h)" "byte_slice 12 16 (encode h @ xs) = to_le (segment_id h)"
  "byte_slice 28 8 (encode h @ xs) = to_le (hdr_created_at_ns h)"
  "(encode h @ xs) ! 36 = scalar_tag (canonical_default_precision h)"
  "byte_slice 37 8 (encode h @ xs) = to_le (precision_epoch h)"
  "byte_slice 45 2 (encode h @ xs) = to_le (u16_or_max (length (policy_id h)))"
  "byte_slice 47 (length (policy_id h)) (encode h @ xs) = policy_id h"
  by (simp_all add: encode_def Let_def fixed_len byte_slice_def PWAL_MAGIC_def nth_append)

lemma encode_policy_version:
  "byte_slice (47 + length (policy_id h)) 8 (encode h @ xs) = to_le (policy_version h)"
proof -
  have "drop 47 (encode h @ xs) = policy_id h @ to_le (policy_version h) @ replicate 8 0 @ xs"
    by (simp add: encode_def Let_def PWAL_MAGIC_def)
  moreover have "byte_slice (47 + length (policy_id h)) 8 (encode h @ xs) =
      take 8 (drop (length (policy_id h)) (drop 47 (encode h @ xs)))"
    by (simp only: byte_slice_def drop_drop add.commute)
  ultimately show ?thesis
    by simp
qed

lemma peek_encode: "peek_segment_version (encode h @ xs) = Inr PeekV2"
  by (simp add: peek_segment_version_def encode_fields length_encode PWAL_PEEK_LEN_def
      SEGMENT_HEADER_VERSION_V1_def SEGMENT_HEADER_VERSION_V2_def Let_def del: take_append)

lemma decode_encode:
  "decode (encode h @ xs) =
     (if 65472 < length (policy_id h) then Inl (HeaderLenMismatch 65535 (min (length (policy_id h)) 65535))
      else if \<not> utf8_valid (policy_id h) then Inl PolicyNotUtf8
      else Inr (h, 63 + length (policy_id h)))"
proof -
  let ?n = "length (policy_id h)"
  have hl: "unat (from_le (byte_slice 6 2 (encode h @ xs)) :: u16) = min (63 + ?n) 65535"
    by (simp add: encode_fields unat_u16_or_max)
  have "decode (encode h @ xs) = decode_fields (encode h @ xs) (min (63 + ?n) 65535)"
    by (simp add: decode_def peek_encode hl length_encode fixed_len Let_def min_less_iff_disj)
  also have "\<dots> = (if 65472 < ?n then Inl (HeaderLenMismatch 65535 (min ?n 65535))
      else if \<not> utf8_valid (policy_id h) then Inl PolicyNotUtf8 else Inr (h, 63 + ?n))"
  proof (cases "65472 < ?n")
    case True
    then have "min (63 + ?n) 65535 = 65535" "65535 \<noteq> 63 + min ?n 65535"
      by auto
    with True show ?thesis
      by (simp add: decode_fields_def fixed_len Let_def encode_fields unat_u16_or_max)
  next
    case False
    then have "min (63 + ?n) 65535 = 63 + ?n" "min ?n 65535 = ?n"
      by auto
    with False show ?thesis
      by (simp add: decode_fields_def fixed_len Let_def encode_fields encode_policy_version unat_u16_or_max)
  qed
  finally show ?thesis .
qed

section \<open>Whatever decodes is an encoding\<close>

lemma to_le_from_le:
  "LENGTH('a) mod 8 = 0 \<Longrightarrow> length bs = LENGTH('a) div 8 \<Longrightarrow> to_le (from_le bs :: 'a::len word) = bs"
proof -
  assume "LENGTH('a) mod 8 = 0" and len: "length bs = LENGTH('a) div 8"
  then have "8 * length bs = LENGTH('a)"
    by auto
  then have "256 ^ length bs = (2 :: nat) ^ LENGTH('a)"
    using power_mult [of "2 :: nat" 8 "length bs"] by simp
  with le_value_bound [of bs] have "unat (of_nat (le_value bs) :: 'a word) = le_value bs"
    by (simp add: unsigned_of_nat take_bit_nat_eq_self)
  then show ?thesis
    using le_bytes_le_value [of bs] len by (simp add: to_le_def from_le_def)
qed

lemma take_slice: "take (m + k) xs = take m xs @ byte_slice m k xs"
  by (simp add: byte_slice_def take_add)

lemma u16_or_max_unat: "u16_or_max (unat w) = w"
  using unsigned_less [of w, where ?'a = nat]
  by (simp add: u16_or_max_def u16_try_from_def)

lemma length_slice: "off + n \<le> length xs \<Longrightarrow> length (byte_slice off n xs) = n"
  by (simp add: byte_slice_def)

lemma decode_precision_Inr: "decode_precision b = Inr p \<Longrightarrow> scalar_tag p = b"
  by (auto simp: decode_precision_def split: if_splits)

lemma decode_Inr:
  assumes "decode data = Inr (h, n)"
  shows "take 4 data = PWAL_MAGIC" "byte_slice 4 2 data = to_le SEGMENT_HEADER_VERSION_V2"
    "63 \<le> length data" "n \<le> length data" "n = unat (from_le (byte_slice 6 2 data) :: u16)"
    "decode_fields data n = Inr (h, n)"
proof -
  have peek: "peek_segment_version data = Inr PeekV2" and len: "63 \<le> length data" "n \<le> length data"
    and n: "n = unat (from_le (byte_slice 6 2 data) :: u16)" and f: "decode_fields data n = Inr (h, n)"
    using assms
    by (auto simp: decode_def fixed_len Let_def decode_fields_def split: sum.splits peeked_version.splits if_splits)
  show "take 4 data = PWAL_MAGIC" "63 \<le> length data" "n \<le> length data"
    "n = unat (from_le (byte_slice 6 2 data) :: u16)" "decode_fields data n = Inr (h, n)"
    using peek len n f by (simp_all add: peek_segment_version_def split: if_splits)
  have "from_le (byte_slice 4 2 data) = SEGMENT_HEADER_VERSION_V2"
    using peek by (auto simp: peek_segment_version_def Let_def split: if_splits)
  then have "to_le (from_le (byte_slice 4 2 data) :: u16) = to_le SEGMENT_HEADER_VERSION_V2"
    by simp
  then show "byte_slice 4 2 data = to_le SEGMENT_HEADER_VERSION_V2"
    using len(1) by (simp add: to_le_from_le length_slice)
qed

lemma decode_fields_Inr:
  assumes "decode_fields data n = Inr (h, n')"
  defines "m \<equiv> unat (from_le (byte_slice 45 2 data) :: u16)"
  shows "scalar_tag (canonical_default_precision h) = data ! 36" "n = 63 + m"
    "utf8_valid (byte_slice 47 m data)" "flags h = from_le (byte_slice 8 4 data)"
    "segment_id h = from_le (byte_slice 12 16 data)" "hdr_created_at_ns h = from_le (byte_slice 28 8 data)"
    "precision_epoch h = from_le (byte_slice 37 8 data)" "policy_id h = byte_slice 47 m data"
    "policy_version h = from_le (byte_slice (47 + m) 8 data)"
proof -
  obtain p where p: "decode_precision (data ! 36) = Inr p"
    using assms(1) by (cases "decode_precision (data ! 36)") (simp_all add: decode_fields_def)
  show "scalar_tag (canonical_default_precision h) = data ! 36" "n = 63 + m"
    "utf8_valid (byte_slice 47 m data)" "flags h = from_le (byte_slice 8 4 data)"
    "segment_id h = from_le (byte_slice 12 16 data)" "hdr_created_at_ns h = from_le (byte_slice 28 8 data)"
    "precision_epoch h = from_le (byte_slice 37 8 data)" "policy_id h = byte_slice 47 m data"
    "policy_version h = from_le (byte_slice (47 + m) 8 data)"
    using assms(1) decode_precision_Inr [OF p] unfolding decode_fields_def p m_def [symmetric] fixed_len
    by (auto simp: Let_def split: if_splits)
qed

lemma take_fields:
  "take (55 + m) data =
     take 4 data @ byte_slice 4 2 data @ byte_slice 6 2 data @ byte_slice 8 4 data @
     byte_slice 12 16 data @ byte_slice 28 8 data @ byte_slice 36 1 data @ byte_slice 37 8 data @
     byte_slice 45 2 data @ byte_slice 47 m data @ byte_slice (47 + m) 8 data"
  using take_slice [of 4 2 data] take_slice [of 6 2 data] take_slice [of 8 4 data]
    take_slice [of 12 16 data] take_slice [of 28 8 data] take_slice [of 36 1 data]
    take_slice [of 37 8 data] take_slice [of 45 2 data] take_slice [of 47 m data]
    take_slice [of "47 + m" 8 data]
  by (simp add: add.commute)

lemma decode_canonical:
  assumes "decode data = Inr (h, n)"
  shows "n = 63 + length (policy_id h)" "utf8_valid (policy_id h)"
    "take (55 + length (policy_id h)) data @ replicate 8 0 = encode h"
proof -
  define m where "m = unat (from_le (byte_slice 45 2 data) :: u16)"
  note D = decode_Inr [OF assms]
  note F = decode_fields_Inr [OF D(6), folded m_def]
  have len: "63 + m \<le> length data"
    using D(4) F(2) by simp
  have m: "length (policy_id h) = m"
    using len by (simp add: F(8) length_slice)
  show "n = 63 + length (policy_id h)" "utf8_valid (policy_id h)"
    using F(2,3,8) m by simp_all
  have words: "to_le (flags h) = byte_slice 8 4 data" "to_le (segment_id h) = byte_slice 12 16 data"
    "to_le (hdr_created_at_ns h) = byte_slice 28 8 data" "to_le (precision_epoch h) = byte_slice 37 8 data"
    "to_le (policy_version h) = byte_slice (47 + m) 8 data"
    unfolding F(4-7) F(9) using len by (simp_all add: to_le_from_le length_slice)
  have "to_le (u16_or_max m) = byte_slice 45 2 data"
    unfolding m_def u16_or_max_unat using D(3) by (simp add: to_le_from_le length_slice)
  moreover have "to_le (u16_or_max (63 + m)) = byte_slice 6 2 data"
    unfolding F(2) [symmetric] D(5) u16_or_max_unat using D(3) by (simp add: to_le_from_le length_slice)
  moreover have "byte_slice 36 1 data = [data ! 36]"
    using D(3) by (simp add: byte_slice_def take_Suc hd_drop_conv_nth)
  ultimately show "take (55 + length (policy_id h)) data @ replicate 8 0 = encode h"
    unfolding m take_fields using D(1,2) m
    by (simp add: encode_def Let_def fixed_len words F(1) flip: F(8))
qed

lemma byte_slice_take: "off + n \<le> k \<Longrightarrow> byte_slice off n (take k xs) = byte_slice off n xs"
  by (simp add: byte_slice_def drop_take min_def)

section \<open>Properties\<close>

text \<open>
  C16: round trip. A header whose policy id is a valid UTF-8 string of at most 65472 bytes decodes to
  itself from its encoding, whatever records follow, and the decoder reports the number of bytes to
  skip. A longer policy id saturates the two \<open>u16\<close> length fields: the encoder still returns a header,
  but no decoder accepts it.
\<close>

theorem header_roundtrip:
  assumes "utf8_valid (policy_id h)"
  shows "decode (encode h @ records) =
    (if length (policy_id h) \<le> 65472 then Inr (h, length (encode h))
     else Inl (HeaderLenMismatch 65535 (min (length (policy_id h)) 65535)))"
  using assms by (simp add: decode_encode length_encode not_le)

definition sample_header :: v2_header where
  "sample_header = \<lparr>flags = 0, segment_id = 0x0123456789ABCDEF0123456789ABCDEF,
     hdr_created_at_ns = 1, canonical_default_precision = Bf16, precision_epoch = 7,
     policy_id = [0x70, 0xC3, 0xA9], policy_version = 2\<rparr>"

theorem header_roundtrip_witness:
  "decode (encode sample_header @ [1, 2, 3]) = Inr (sample_header, 66)"
  using header_roundtrip [of sample_header "[1, 2, 3]"]
  by (simp add: sample_header_def length_encode byte_in_def)

text \<open>
  The decoder accepts nothing but encodings. Whatever bytes it accepts, the header it returns
  encodes to exactly the bytes it consumed, the reserved eight apart, and its policy id is valid
  UTF-8. So no two headers share a byte image and a corrupt field is never silently reinterpreted.
\<close>

theorem decode_only_encodings:
  assumes "decode data = Inr (h, n)"
  shows "n \<le> length data \<and> n = length (encode h) \<and> utf8_valid (policy_id h) \<and>
    encode h = take (n - 8) data @ replicate 8 0"
  using decode_canonical [OF assms] decode_Inr(4) [OF assms] by (simp add: length_encode)

theorem decode_only_encodings_witness:
  "let data = encode sample_header @ [5]
   in decode data = Inr (sample_header, 66) \<and> encode sample_header = take 58 data @ replicate 8 0"
proof -
  have "decode (encode sample_header @ [5]) = Inr (sample_header, 66)"
    by (simp add: decode_encode sample_header_def byte_in_def)
  from decode_only_encodings [OF this] this show ?thesis
    by (simp add: Let_def del: take_append)
qed

text \<open>
  A torn header is refused. No proper prefix of an encodable header decodes, so a segment whose
  creation was cut off by a crash is reported and never read with a shorter policy id.
\<close>

theorem torn_header_refused:
  assumes "length (policy_id h) \<le> 65472" and "k < length (encode h)"
  shows "\<exists>e. decode (take k (encode h)) = Inl e"
proof (rule ccontr)
  assume "\<nexists>e. decode (take k (encode h)) = Inl e"
  then obtain h' n where d: "decode (take k (encode h)) = Inr (h', n)"
    by (cases "decode (take k (encode h))") auto
  note D = decode_Inr [OF d]
  have k: "63 \<le> k"
    using D(3) by simp
  have "n = unat (from_le (byte_slice 6 2 (encode h @ [])) :: u16)"
    using D(5) k by (simp add: byte_slice_take)
  also have "\<dots> = 63 + length (policy_id h)"
    using assms(1) unfolding encode_fields by (simp add: unat_u16_or_max)
  finally show False
    using D(4) assms(2) by (simp add: length_encode)
qed

theorem torn_header_refused_witness: "\<exists>e. decode (take 64 (encode sample_header)) = Inl e"
  by (rule torn_header_refused) (simp_all add: sample_header_def length_encode)

end
