(* ===== verification/Write_Intent.thy ===== *)
theory Write_Intent
  imports Prelude
begin

text \<open>
  Write-lane routing (\<^verbatim>\<open>proximadb-write-intent\<close>): protocol adapters lower every write to a
  \<open>write_intent\<close>, and the router picks the lane that may commit it together with the guards its executor
  has to satisfy and the reasons why other lanes were turned down. The error of \<open>require_wal_lane\<close>
  carries the parts its message is formatted from.

  The lemmas characterise the lane by the intent, give the guards of each lane, and show that the
  rejections explain the decision.
\<close>

section \<open>Data\<close>

definition DEFAULT_BULK_ROW_THRESHOLD :: u64 where
  "DEFAULT_BULK_ROW_THRESHOLD = 500"

definition DEFAULT_BULK_BYTES_THRESHOLD :: u64 where
  "DEFAULT_BULK_BYTES_THRESHOLD = 2 * 1024 * 1024"

datatype write_operation_kind =
    Insert | Upsert | Update | Delete | Merge | Append | OverwriteTable | OverwritePartitions
  | ProjectionRefresh

fun requires_row_level_mvcc :: "write_operation_kind \<Rightarrow> bool" where
  "requires_row_level_mvcc Upsert = True"
| "requires_row_level_mvcc Update = True"
| "requires_row_level_mvcc Delete = True"
| "requires_row_level_mvcc Merge = True"
| "requires_row_level_mvcc _ = False"

fun is_append_like :: "write_operation_kind \<Rightarrow> bool" where
  "is_append_like Insert = True"
| "is_append_like Append = True"
| "is_append_like _ = False"

fun is_overwrite_like :: "write_operation_kind \<Rightarrow> bool" where
  "is_overwrite_like OverwriteTable = True"
| "is_overwrite_like OverwritePartitions = True"
| "is_overwrite_like _ = False"

datatype write_lane = WalCurrentState | BulkAppendCommit | OverwriteSnapshotCommit | ProjectionOnlyLane

datatype write_durability = WalRequired | DirectCommitAllowed | ProjectionOnly | ExternalAuthoritative

datatype write_isolation = ReadCommittedWrite | SnapshotWrite | SerializableWrite

datatype projection_freshness = NoFreshness | BestEffort | ReadYourWrites | Synchronous

datatype write_guard =
    CatalogSchemaValidation | TenantRlsCoercion | ConstraintValidation | CanonicalWalAppend
  | CurrentStateUpdate | RowLevelMvcc | BatchLocalConstraintCheck | AtomicSnapshotManifestCommit
  | IdempotencyKey | ProjectionFreshnessMetadata | ExternalAuthorityBoundary

record write_intent =
  target_table :: string
  operation_kind :: write_operation_kind
  durability :: write_durability
  wr_isolation :: write_isolation
  freshness :: projection_freshness
  tenant_id :: "string option"
  actor :: "string option"
  idempotency_key :: "string option"
  catalog_schema_version :: "u64 option"
  row_count_hint :: "u64 option"
  estimated_bytes :: "u64 option"
  requires_row_level_semantics :: bool
  batch_local_constraints_sufficient :: bool
  published_parent_has_deletes :: bool
  fencing_generation :: "u64 option"

record rejected_lane =
  rej_lane :: write_lane
  rej_reason :: string

record lane_decision =
  lane :: write_lane
  reason :: string
  required_guards :: "write_guard list"
  rejected_lanes :: "rejected_lane list"

record router_config =
  bulk_row_threshold :: u64
  bulk_bytes_threshold :: u64

section \<open>Intents\<close>

definition intent_new :: "string \<Rightarrow> write_operation_kind \<Rightarrow> write_intent" where
  "intent_new table kind = \<lparr>target_table = table, operation_kind = kind, durability = WalRequired,
     wr_isolation = ReadCommittedWrite, freshness = NoFreshness, tenant_id = None, actor = None,
     idempotency_key = None, catalog_schema_version = None, row_count_hint = None,
     estimated_bytes = None, requires_row_level_semantics = requires_row_level_mvcc kind,
     batch_local_constraints_sufficient = False, published_parent_has_deletes = False,
     fencing_generation = None\<rparr>"

definition with_durability where "with_durability d i = i\<lparr>durability := d\<rparr>"

definition with_isolation where "with_isolation v i = i\<lparr>wr_isolation := v\<rparr>"

definition with_projection_freshness where "with_projection_freshness v i = i\<lparr>freshness := v\<rparr>"

definition with_tenant_id where "with_tenant_id v i = i\<lparr>tenant_id := Some v\<rparr>"

definition with_actor where "with_actor v i = i\<lparr>actor := Some v\<rparr>"

definition with_idempotency_key where "with_idempotency_key v i = i\<lparr>idempotency_key := Some v\<rparr>"

definition with_catalog_schema_version where
  "with_catalog_schema_version v i = i\<lparr>catalog_schema_version := Some v\<rparr>"

definition with_row_count_hint where "with_row_count_hint v i = i\<lparr>row_count_hint := Some v\<rparr>"

definition with_estimated_bytes where "with_estimated_bytes v i = i\<lparr>estimated_bytes := Some v\<rparr>"

definition with_row_level_semantics where
  "with_row_level_semantics v i = i\<lparr>requires_row_level_semantics := v\<rparr>"

definition with_batch_local_constraints_sufficient where
  "with_batch_local_constraints_sufficient v i = i\<lparr>batch_local_constraints_sufficient := v\<rparr>"

definition with_published_parent_has_deletes where
  "with_published_parent_has_deletes v i = i\<lparr>published_parent_has_deletes := v\<rparr>"

definition with_fencing_generation where "with_fencing_generation v i = i\<lparr>fencing_generation := Some v\<rparr>"

definition reaches :: "u64 \<Rightarrow> u64 option \<Rightarrow> bool" where
  "reaches threshold hint = (case hint of None \<Rightarrow> False | Some n \<Rightarrow> threshold \<le> n)"

definition has_bulk_hint :: "write_intent \<Rightarrow> router_config \<Rightarrow> bool" where
  "has_bulk_hint i cfg \<longleftrightarrow>
     reaches (bulk_row_threshold cfg) (row_count_hint i) \<or>
     reaches (bulk_bytes_threshold cfg) (estimated_bytes i)"

section \<open>Decisions\<close>

definition rejected_new :: "write_lane \<Rightarrow> string \<Rightarrow> rejected_lane" where
  "rejected_new l r = \<lparr>rej_lane = l, rej_reason = r\<rparr>"

definition decision_new ::
  "write_lane \<Rightarrow> string \<Rightarrow> write_guard list \<Rightarrow> rejected_lane list \<Rightarrow> lane_decision" where
  "decision_new l r gs rs = \<lparr>lane = l, reason = r, required_guards = gs, rejected_lanes = rs\<rparr>"

datatype lane_error = LaneNotCommitted string write_lane string "string list"

definition require_wal_lane :: "lane_decision \<Rightarrow> string \<Rightarrow> lane_error + unit" where
  "require_wal_lane d ctx =
     (if lane d = WalCurrentState then Inr ()
      else Inl (LaneNotCommitted ctx (lane d) (reason d) (map rej_reason (rejected_lanes d))))"

definition router_config_default :: router_config where
  "router_config_default = \<lparr>bulk_row_threshold = DEFAULT_BULK_ROW_THRESHOLD,
     bulk_bytes_threshold = DEFAULT_BULK_BYTES_THRESHOLD\<rparr>"

section \<open>The router\<close>

definition external_guard :: "write_intent \<Rightarrow> write_guard list" where
  "external_guard i = (if durability i = ExternalAuthoritative then [ExternalAuthorityBoundary] else [])"

definition direct_allowed :: "write_intent \<Rightarrow> bool" where
  "direct_allowed i \<longleftrightarrow> durability i \<in> {DirectCommitAllowed, ExternalAuthoritative}"

definition default_wal_guards :: "write_intent \<Rightarrow> write_guard list" where
  "default_wal_guards i =
     [CatalogSchemaValidation, TenantRlsCoercion, ConstraintValidation, CanonicalWalAppend,
      CurrentStateUpdate] @
     (if requires_row_level_mvcc (operation_kind i) \<or> requires_row_level_semantics i
      then [RowLevelMvcc] else []) @
     (if freshness i \<in> {BestEffort, ReadYourWrites, Synchronous}
      then [ProjectionFreshnessMetadata] else []) @
     external_guard i"

definition route_wal_default ::
  "string \<Rightarrow> write_guard list \<Rightarrow> rejected_lane list \<Rightarrow> lane_decision" where
  "route_wal_default r gs rejected = decision_new WalCurrentState r gs rejected"

definition route_projection :: "write_intent \<Rightarrow> lane_decision" where
  "route_projection i = decision_new ProjectionOnlyLane
     ''projection refresh is rebuildable and not authoritative current state''
     ([ProjectionFreshnessMetadata] @ external_guard i)
     [rejected_new WalCurrentState ''projection refresh does not require canonical row mutation'',
      rejected_new BulkAppendCommit ''projection refresh cannot create authoritative append state'']"

definition route_row_level :: "write_intent \<Rightarrow> lane_decision" where
  "route_row_level i = route_wal_default
     ''row-level mutation requires WAL ordering, MVCC, and current-state update''
     (default_wal_guards i)
     [rejected_new BulkAppendCommit
        ''append direct commit cannot close prior versions or write tombstones'',
      rejected_new OverwriteSnapshotCommit
        ''snapshot overwrite is not valid for row-level mutation semantics'']"

definition route_overwrite :: "write_intent \<Rightarrow> lane_decision" where
  "route_overwrite i =
     (if direct_allowed i
      then decision_new OverwriteSnapshotCommit
        ''overwrite can commit through an atomic table or partition snapshot swap''
        ([CatalogSchemaValidation, TenantRlsCoercion, ConstraintValidation,
          AtomicSnapshotManifestCommit, IdempotencyKey] @ external_guard i)
        [rejected_new BulkAppendCommit
           ''overwrite replaces a snapshot instead of appending into one'']
      else route_wal_default
        ''overwrite lacks direct snapshot-commit authority, so it must be replayable from WAL''
        (default_wal_guards i)
        [rejected_new OverwriteSnapshotCommit
           ''direct snapshot commit requires explicit direct or external authority''])"

definition append_rejections :: "router_config \<Rightarrow> write_intent \<Rightarrow> rejected_lane list" where
  "append_rejections cfg i =
     (if \<not> direct_allowed i
      then [rejected_new BulkAppendCommit
        ''bulk append direct commit requires explicit direct or external authority''] else []) @
     (if \<not> batch_local_constraints_sufficient i
      then [rejected_new BulkAppendCommit
        ''bulk append requires constraints that can be validated batch-locally''] else []) @
     (if \<not> has_bulk_hint i cfg
      then [rejected_new BulkAppendCommit
        ''write is below configured bulk row and byte thresholds''] else []) @
     (if published_parent_has_deletes i
      then [rejected_new BulkAppendCommit
        ''published parent snapshot carries deletion vectors; the bulk lane cannot record the layout flip the visibility fence requires'']
      else [])"

definition can_bulk_append :: "router_config \<Rightarrow> write_intent \<Rightarrow> bool" where
  "can_bulk_append cfg i \<longleftrightarrow> direct_allowed i \<and> batch_local_constraints_sufficient i \<and>
     has_bulk_hint i cfg \<and> \<not> published_parent_has_deletes i"

definition route_append :: "router_config \<Rightarrow> write_intent \<Rightarrow> lane_decision" where
  "route_append cfg i =
     (if can_bulk_append cfg i
      then decision_new BulkAppendCommit
        ''append-like write has bulk hints and direct commit authority''
        ([CatalogSchemaValidation, TenantRlsCoercion, BatchLocalConstraintCheck,
          AtomicSnapshotManifestCommit, IdempotencyKey] @ external_guard i)
        [rejected_new OverwriteSnapshotCommit
           ''append preserves the active snapshot instead of replacing it'']
      else route_wal_default
        ''append-like write does not satisfy all bulk direct-commit guards''
        (default_wal_guards i) (append_rejections cfg i))"

definition route :: "router_config \<Rightarrow> write_intent \<Rightarrow> lane_decision" where
  "route cfg i =
     (let kind = operation_kind i
      in if kind = ProjectionRefresh then route_projection i
         else if requires_row_level_mvcc kind \<or> requires_row_level_semantics i then route_row_level i
         else if is_overwrite_like kind then route_overwrite i
         else if is_append_like kind then route_append cfg i
         else route_wal_default ''operation does not satisfy a specialized fast-lane rule''
                (default_wal_guards i) [])"

section \<open>Properties\<close>

lemmas route_defs = route_def route_projection_def route_row_level_def route_overwrite_def
  route_append_def route_wal_default_def decision_new_def Let_def

definition row_level :: "write_intent \<Rightarrow> bool" where
  "row_level i \<longleftrightarrow> requires_row_level_mvcc (operation_kind i) \<or> requires_row_level_semantics i"

lemma kind_cases:
  "k = ProjectionRefresh \<or> requires_row_level_mvcc k \<or> is_overwrite_like k \<or> is_append_like k"
  by (cases k) simp_all

text \<open>
  C40: which lane, in terms of the fields of the intent alone. The projection lane is taken exactly by
  projection refreshes. The bulk lane is taken exactly by an insert or append that does not ask for
  row-level semantics, whose durability allows a direct or external commit, whose constraints can be
  checked within the batch, whose published parent has no deletes, and which reaches the row threshold or
  the byte threshold. The snapshot lane is taken exactly by an overwrite of a table or of partitions that
  does not ask for row-level semantics and whose durability allows a direct or external commit. Every
  other write, so every upsert, update, delete and merge, goes through the WAL, and those are the writes
  that \<open>require_wal_lane\<close> lets through.
\<close>

theorem route_lane_iff:
  "(lane (route cfg i) = ProjectionOnlyLane \<longleftrightarrow> operation_kind i = ProjectionRefresh) \<and>
   (lane (route cfg i) = BulkAppendCommit \<longleftrightarrow>
      (operation_kind i = Insert \<or> operation_kind i = Append) \<and> \<not> requires_row_level_semantics i \<and>
      (durability i = DirectCommitAllowed \<or> durability i = ExternalAuthoritative) \<and>
      batch_local_constraints_sufficient i \<and> \<not> published_parent_has_deletes i \<and>
      ((\<exists>n. row_count_hint i = Some n \<and> bulk_row_threshold cfg \<le> n) \<or>
       (\<exists>n. estimated_bytes i = Some n \<and> bulk_bytes_threshold cfg \<le> n))) \<and>
   (lane (route cfg i) = OverwriteSnapshotCommit \<longleftrightarrow>
      (operation_kind i = OverwriteTable \<or> operation_kind i = OverwritePartitions) \<and>
      \<not> requires_row_level_semantics i \<and>
      (durability i = DirectCommitAllowed \<or> durability i = ExternalAuthoritative)) \<and>
   (lane (route cfg i) = WalCurrentState \<longleftrightarrow> require_wal_lane (route cfg i) ctx = Inr ()) \<and>
   (lane (route cfg i) = WalCurrentState \<longleftrightarrow> operation_kind i \<noteq> ProjectionRefresh \<and>
      (operation_kind i \<in> {Upsert, Update, Delete, Merge} \<or> requires_row_level_semantics i \<or>
       durability i = WalRequired \<or> durability i = ProjectionOnly \<or>
       (operation_kind i = Insert \<or> operation_kind i = Append) \<and>
       (\<not> batch_local_constraints_sufficient i \<or> published_parent_has_deletes i \<or>
        (\<nexists>n. row_count_hint i = Some n \<and> bulk_row_threshold cfg \<le> n) \<and>
        (\<nexists>n. estimated_bytes i = Some n \<and> bulk_bytes_threshold cfg \<le> n))))"
  by (cases "operation_kind i"; cases "durability i")
    (auto simp: route_defs require_wal_lane_def can_bulk_append_def direct_allowed_def has_bulk_hint_def
      reaches_def split: option.split)

text \<open>An append of 600 rows with batch-local constraints, with and without deletes in the published parent.\<close>

theorem route_lane_iff_witness:
  "let i = (intent_new ''t'' Append)\<lparr>durability := DirectCommitAllowed, row_count_hint := Some 600,
              batch_local_constraints_sufficient := True\<rparr>
   in lane (route router_config_default i) = BulkAppendCommit \<and>
      lane (route router_config_default (with_published_parent_has_deletes True i)) = WalCurrentState \<and>
      lane (route router_config_default (intent_new ''t'' Upsert)) = WalCurrentState"
  using route_lane_iff [of router_config_default "(intent_new ''t'' Append)\<lparr>durability := DirectCommitAllowed,
      row_count_hint := Some 600, batch_local_constraints_sufficient := True\<rparr>" "[]"]
    route_lane_iff [of router_config_default "with_published_parent_has_deletes True
      ((intent_new ''t'' Append)\<lparr>durability := DirectCommitAllowed,
      row_count_hint := Some 600, batch_local_constraints_sufficient := True\<rparr>)" "[]"]
    route_lane_iff [of router_config_default "intent_new ''t'' Upsert" "[]"]
  by (simp add: intent_new_def router_config_default_def DEFAULT_BULK_ROW_THRESHOLD_def
      with_published_parent_has_deletes_def)

text \<open>
  Which guards. Whatever lane is chosen, its guards are distinct, and they are: for the WAL lane
  schema, tenant and constraint checks, the WAL append and the current-state update, MVCC exactly for
  row-level writes and freshness metadata exactly when the write asks for freshness; for the two
  direct-commit lanes the schema and tenant checks, the atomic manifest commit and the idempotency
  key; and in every lane the external-authority boundary exactly when an external table is
  authoritative.
\<close>

theorem route_guards:
  "distinct (required_guards (route cfg i)) \<and>
   (ExternalAuthorityBoundary \<in> set (required_guards (route cfg i)) \<longleftrightarrow>
      durability i = ExternalAuthoritative) \<and>
   set (required_guards (route cfg i)) - {ExternalAuthorityBoundary} =
     (case lane (route cfg i) of
        WalCurrentState \<Rightarrow>
          {CatalogSchemaValidation, TenantRlsCoercion, ConstraintValidation, CanonicalWalAppend,
           CurrentStateUpdate} \<union> (if row_level i then {RowLevelMvcc} else {}) \<union>
          (if freshness i \<noteq> NoFreshness then {ProjectionFreshnessMetadata} else {})
      | BulkAppendCommit \<Rightarrow>
          {CatalogSchemaValidation, TenantRlsCoercion, BatchLocalConstraintCheck,
           AtomicSnapshotManifestCommit, IdempotencyKey}
      | OverwriteSnapshotCommit \<Rightarrow>
          {CatalogSchemaValidation, TenantRlsCoercion, ConstraintValidation,
           AtomicSnapshotManifestCommit, IdempotencyKey}
      | ProjectionOnlyLane \<Rightarrow> {ProjectionFreshnessMetadata})"
proof -
  have f: "freshness i = BestEffort \<or> freshness i = ReadYourWrites \<or> freshness i = Synchronous \<longleftrightarrow>
      freshness i \<noteq> NoFreshness"
    by (cases "freshness i") simp_all
  show ?thesis
    by (cases "operation_kind i"; cases "durability i")
      (auto simp: route_defs default_wal_guards_def external_guard_def direct_allowed_def row_level_def f)
qed

text \<open>
  The rejections explain the decision. The chosen lane is never among the rejected ones, and an
  append-like write without row-level semantics is turned away from the bulk lane with one reason
  for each of the four conditions it fails, hence with none exactly when it takes the bulk lane.
\<close>

theorem route_rejections:
  "lane (route cfg i) \<notin> rej_lane ` set (rejected_lanes (route cfg i)) \<and>
   length (filter (\<lambda>r. rej_lane r = BulkAppendCommit) (rejected_lanes (route cfg i))) =
     (if is_append_like (operation_kind i) \<and> \<not> row_level i
      then length (filter id [\<not> direct_allowed i, \<not> batch_local_constraints_sufficient i,
                              \<not> has_bulk_hint i cfg, published_parent_has_deletes i])
      else if is_overwrite_like (operation_kind i) \<and> \<not> row_level i \<and> \<not> direct_allowed i then 0 else 1)"
  by (cases "operation_kind i")
    (auto simp: route_defs append_rejections_def rejected_new_def row_level_def can_bulk_append_def)

end
