(* ===== verification/Tx_Operations.thy ===== *)
theory Tx_Operations
  imports Prelude
begin

text \<open>
  The vocabulary of multi-model transactions (\<^verbatim>\<open>proximadb-storage-transaction\<close>: \<^verbatim>\<open>operations.rs\<close>,
  \<^verbatim>\<open>isolation.rs\<close>; \<^verbatim>\<open>proximadb-storage-common\<close>: \<^verbatim>\<open>transaction_isolation.rs\<close>): the operations on the four
  stores, isolation levels, conflict resolution, lock modes and locks. A JSON value is of the type
  parameter \<open>'j\<close>, an \<open>f32\<close> its 32 bits, an \<open>Instant\<close> a number of nanoseconds.
\<close>

section \<open>Operations\<close>

type_synonym 'j props = "string \<rightharpoonup> 'j"

datatype 'j vector_operation =
    VecInsert string "string list" "u32 list list" "'j props list"
  | VecUpdate string "string list" "u32 list list option" "'j props list option"
  | VecDelete string "string list"
  | VecUpsert string "string list" "u32 list list" "'j props list"

fun vec_collection :: "'j vector_operation \<Rightarrow> string" where
  "vec_collection (VecInsert c ids vs ms) = c"
| "vec_collection (VecUpdate c ids vs ms) = c"
| "vec_collection (VecDelete c ids) = c"
| "vec_collection (VecUpsert c ids vs ms) = c"

fun affected_ids :: "'j vector_operation \<Rightarrow> string list" where
  "affected_ids (VecInsert c ids vs ms) = ids"
| "affected_ids (VecUpdate c ids vs ms) = ids"
| "affected_ids (VecDelete c ids) = ids"
| "affected_ids (VecUpsert c ids vs ms) = ids"

definition vec_is_write :: "'j vector_operation \<Rightarrow> bool" where
  "vec_is_write op = True"

datatype 'j document_operation =
    DocInsert string "'j list"
  | DocUpdate string 'j 'j bool
  | DocDelete string 'j
  | DocReplace string string 'j

fun doc_collection :: "'j document_operation \<Rightarrow> string" where
  "doc_collection (DocInsert c docs) = c"
| "doc_collection (DocUpdate c f u up) = c"
| "doc_collection (DocDelete c f) = c"
| "doc_collection (DocReplace c i d) = c"

definition doc_is_write :: "'j document_operation \<Rightarrow> bool" where
  "doc_is_write op = True"

datatype 'j graph_operation =
    CreateNode string string string "'j props"
  | UpdateNode string string "'j props"
  | DeleteNode string string
  | CreateEdge string string string string "'j props"
  | UpdateEdge string string string string "'j props"
  | DeleteEdge string string string "string option"

fun graph_name :: "'j graph_operation \<Rightarrow> string" where
  "graph_name (CreateNode g i l p) = g"
| "graph_name (UpdateNode g i p) = g"
| "graph_name (DeleteNode g i) = g"
| "graph_name (CreateEdge g s t e p) = g"
| "graph_name (UpdateEdge g s t e p) = g"
| "graph_name (DeleteEdge g s t e) = g"

fun affected_node_ids :: "'j graph_operation \<Rightarrow> string list" where
  "affected_node_ids (CreateNode g i l p) = [i]"
| "affected_node_ids (UpdateNode g i p) = [i]"
| "affected_node_ids (DeleteNode g i) = [i]"
| "affected_node_ids (CreateEdge g s t e p) = [s, t]"
| "affected_node_ids (UpdateEdge g s t e p) = [s, t]"
| "affected_node_ids (DeleteEdge g s t e) = [s, t]"

definition graph_is_write :: "'j graph_operation \<Rightarrow> bool" where
  "graph_is_write op = True"

datatype 'j observability_operation =
    IngestLogs string "'j list"
  | IngestMetrics string "'j list"
  | IngestTraces string "'j list"
  | DeleteLogs string 'j

fun obs_namespace :: "'j observability_operation \<Rightarrow> string" where
  "obs_namespace (IngestLogs n xs) = n"
| "obs_namespace (IngestMetrics n xs) = n"
| "obs_namespace (IngestTraces n xs) = n"
| "obs_namespace (DeleteLogs n f) = n"

definition obs_is_write :: "'j observability_operation \<Rightarrow> bool" where
  "obs_is_write op = True"

datatype 'j multi_model_operation =
    VectorOp "'j vector_operation"
  | DocumentOp "'j document_operation"
  | GraphOp "'j graph_operation"
  | ObservabilityOp "'j observability_operation"

fun model_type :: "'j multi_model_operation \<Rightarrow> string" where
  "model_type (VectorOp op) = ''vector''"
| "model_type (DocumentOp op) = ''document''"
| "model_type (GraphOp op) = ''graph''"
| "model_type (ObservabilityOp op) = ''observability''"

fun op_target :: "'j multi_model_operation \<Rightarrow> string" where
  "op_target (VectorOp op) = vec_collection op"
| "op_target (DocumentOp op) = doc_collection op"
| "op_target (GraphOp op) = graph_name op"
| "op_target (ObservabilityOp op) = obs_namespace op"

fun is_write :: "'j multi_model_operation \<Rightarrow> bool" where
  "is_write (VectorOp op) = vec_is_write op"
| "is_write (DocumentOp op) = doc_is_write op"
| "is_write (GraphOp op) = graph_is_write op"
| "is_write (ObservabilityOp op) = obs_is_write op"

record 'j operation_rollback =
  rb_operation :: "'j multi_model_operation"
  rb_compensation :: "'j multi_model_operation option"
  rb_snapshot_data :: "bytes option"

lemma is_write_True [simp]: "is_write op"
  by (cases op) (simp_all add: vec_is_write_def doc_is_write_def graph_is_write_def obs_is_write_def)

section \<open>Isolation and locks\<close>

datatype isolation_level = ReadUncommitted | ReadCommitted | RepeatableRead | Snapshot | Serializable

fun strictness :: "isolation_level \<Rightarrow> u8" where
  "strictness ReadUncommitted = 0"
| "strictness ReadCommitted = 1"
| "strictness RepeatableRead = 2"
| "strictness Snapshot = 3"
| "strictness Serializable = 4"

fun isolation_name :: "isolation_level \<Rightarrow> string" where
  "isolation_name ReadUncommitted = ''READ UNCOMMITTED''"
| "isolation_name ReadCommitted = ''READ COMMITTED''"
| "isolation_name RepeatableRead = ''REPEATABLE READ''"
| "isolation_name Snapshot = ''SNAPSHOT''"
| "isolation_name Serializable = ''SERIALIZABLE''"

definition allows_dirty_reads :: "isolation_level \<Rightarrow> bool" where
  "allows_dirty_reads i \<longleftrightarrow> strictness i < 1"

definition prevents_dirty_reads :: "isolation_level \<Rightarrow> bool" where
  "prevents_dirty_reads i \<longleftrightarrow> 1 \<le> strictness i"

definition prevents_non_repeatable_reads :: "isolation_level \<Rightarrow> bool" where
  "prevents_non_repeatable_reads i \<longleftrightarrow> 2 \<le> strictness i"

definition prevents_phantom_reads :: "isolation_level \<Rightarrow> bool" where
  "prevents_phantom_reads i \<longleftrightarrow> 4 \<le> strictness i"

datatype conflict_resolution =
  FirstWriterWins | LastWriterWins | AbortOnConflict | MergeIfPossible | WaitAndRetry

datatype lock_mode = Shared | Exclusive | UpdateLock | IntentShared | IntentExclusive

fun is_compatible :: "lock_mode \<Rightarrow> lock_mode \<Rightarrow> bool" where
  "is_compatible Shared Shared = True"
| "is_compatible Shared IntentShared = True"
| "is_compatible IntentShared Shared = True"
| "is_compatible IntentShared IntentShared = True"
| "is_compatible IntentExclusive IntentShared = True"
| "is_compatible IntentShared IntentExclusive = True"
| "is_compatible IntentExclusive IntentExclusive = True"
| "is_compatible UpdateLock Shared = True"
| "is_compatible Shared UpdateLock = True"
| "is_compatible _ _ = False"

record lock =
  lk_tx :: string
  lk_resource :: string
  lk_mode :: lock_mode
  acquired_at :: nat

lemma is_compatible_sym: "is_compatible a b = is_compatible b a"
  by (cases a; cases b) simp_all

lemma exclusive_incompatible [simp]: "\<not> is_compatible a Exclusive" "\<not> is_compatible Exclusive a"
  by (cases a; simp)+

end
