(* ===== verification/Tx_Context.thy ===== *)
theory Tx_Context
  imports Tx_Operations
begin

text \<open>
  The state of one transaction (\<^verbatim>\<open>context.rs\<close>): its read and write sets, locks, savepoints, children and
  participants. The mutable part sits behind one \<open>RwLock\<close> whose guard every method holds throughout, so a
  method is a function on the record. A \<open>HashSet\<close> is a distinct list, an iterated \<open>HashMap\<close> an
  association list; the clock is an argument.

  The lemmas: the conflict test is the overlap of the entry sets; a rollback to a savepoint brings the
  write set back when every operation names one id, and multiplies operations that name several.
\<close>

section \<open>Data\<close>

datatype tx_state =
  Active | Preparing | Prepared | Committing | Committed | RollingBack | Aborted | TimedOut

definition is_active :: "tx_state \<Rightarrow> bool" where
  "is_active s \<longleftrightarrow> s = Active"

definition is_ended :: "tx_state \<Rightarrow> bool" where
  "is_ended s \<longleftrightarrow> s \<in> {Committed, Aborted, TimedOut}"

definition can_rollback :: "tx_state \<Rightarrow> bool" where
  "can_rollback s \<longleftrightarrow> s \<in> {Active, Preparing, Prepared, RollingBack}"

datatype operation_type = OpRead | OpWrite | OpSchema

record 'j tx_operation =
  sequence :: u64
  op_type :: operation_type
  operation :: "'j multi_model_operation"
  op_timestamp :: nat
  affected_resources :: "string list"
  rollback :: "'j operation_rollback option"

definition tx_operation_new :: "nat \<Rightarrow> u64 \<Rightarrow> 'j multi_model_operation \<Rightarrow> 'j tx_operation" where
  "tx_operation_new now seq op =
     \<lparr>sequence = seq, op_type = (if is_write op then OpWrite else OpRead), operation = op,
      op_timestamp = now, affected_resources = [op_target op], rollback = None\<rparr>"

definition with_rollback :: "'j operation_rollback \<Rightarrow> 'j tx_operation \<Rightarrow> 'j tx_operation" where
  "with_rollback rb op = op\<lparr>rollback := Some rb\<rparr>"

type_synonym entries = "(string \<times> string list) list"

definition entry_ids :: "entries \<Rightarrow> string \<Rightarrow> string list" where
  "entry_ids es container = (case map_of es container of None \<Rightarrow> [] | Some ids \<Rightarrow> ids)"

definition entry_add :: "string \<Rightarrow> string \<Rightarrow> entries \<Rightarrow> entries" where
  "entry_add container i es = AList.update container (List.insert i (entry_ids es container)) es"

record read_set =
  rs_entries :: entries
  versions :: "string \<rightharpoonup> u64"

definition read_set_add :: "string \<Rightarrow> string \<Rightarrow> u64 \<Rightarrow> read_set \<Rightarrow> read_set" where
  "read_set_add container i version rs =
     rs\<lparr>rs_entries := entry_add container i (rs_entries rs),
        versions := (versions rs)(container @ '':'' @ i \<mapsto> version)\<rparr>"

definition read_set_conflicts :: "read_set \<Rightarrow> string \<Rightarrow> string \<Rightarrow> u64 \<Rightarrow> bool" where
  "read_set_conflicts rs container i new_version =
     (case versions rs (container @ '':'' @ i) of
        Some observed_version \<Rightarrow> observed_version < new_version
      | None \<Rightarrow> False)"

record 'j write_set =
  ws_entries :: entries
  operations :: "'j tx_operation list"

definition write_set_default :: "'j write_set" where
  "write_set_default = \<lparr>ws_entries = [], operations = []\<rparr>"

definition write_set_add :: "string \<Rightarrow> string \<Rightarrow> 'j tx_operation \<Rightarrow> 'j write_set \<Rightarrow> 'j write_set" where
  "write_set_add container i op ws =
     ws\<lparr>ws_entries := entry_add container i (ws_entries ws), operations := operations ws @ [op]\<rparr>"

definition write_set_conflicts :: "'j write_set \<Rightarrow> string \<Rightarrow> string \<Rightarrow> bool" where
  "write_set_conflicts ws container i \<longleftrightarrow>
     (case map_of (ws_entries ws) container of None \<Rightarrow> False | Some ids \<Rightarrow> i \<in> set ids)"

definition take_operations :: "'j write_set \<Rightarrow> 'j tx_operation list \<times> 'j write_set" where
  "take_operations ws = (operations ws, ws\<lparr>operations := []\<rparr>)"

record 'j tx_ctx =
  ctx_id :: string
  isolation :: isolation_level
  started_at :: nat
  timeout :: nat
  parent :: "string option"
  state :: tx_state
  read_set :: read_set
  write_set :: "'j write_set"
  locks :: "lock list"
  savepoints :: "string \<rightharpoonup> u64"
  sequence_counter :: u64
  children :: "string list"
  stores :: "string list"

record ctx_stats =
  st_id :: string
  st_state :: tx_state
  st_isolation :: isolation_level
  st_duration :: nat
  read_count :: nat
  write_count :: nat
  lock_count :: nat
  participant_count :: nat

section \<open>Methods\<close>

definition ctx_new :: "nat \<Rightarrow> string \<Rightarrow> isolation_level \<Rightarrow> nat \<Rightarrow> 'j tx_ctx" where
  "ctx_new now i lvl tmo = \<lparr>ctx_id = i, isolation = lvl, started_at = now, timeout = tmo,
     parent = None, state = Active, read_set = \<lparr>rs_entries = [], versions = Map.empty\<rparr>,
     write_set = write_set_default, locks = [], savepoints = Map.empty, sequence_counter = 0,
     children = [], stores = []\<rparr>"

definition ctx_new_nested :: "nat \<Rightarrow> string \<Rightarrow> string \<Rightarrow> isolation_level \<Rightarrow> nat \<Rightarrow> 'j tx_ctx" where
  "ctx_new_nested now i par lvl tmo = (ctx_new now i lvl tmo)\<lparr>parent := Some par\<rparr>"

definition set_state :: "tx_state \<Rightarrow> 'j tx_ctx \<Rightarrow> 'j tx_ctx" where
  "set_state s c = c\<lparr>state := s\<rparr>"

definition is_timed_out :: "nat \<Rightarrow> 'j tx_ctx \<Rightarrow> bool" where
  "is_timed_out now c \<longleftrightarrow> timeout c < now - started_at c"

definition remaining_time :: "nat \<Rightarrow> 'j tx_ctx \<Rightarrow> nat option" where
  "remaining_time now c =
     (let elapsed = now - started_at c
      in if timeout c \<le> elapsed then None else Some (timeout c - elapsed))"

definition add_read :: "string \<Rightarrow> string \<Rightarrow> u64 \<Rightarrow> 'j tx_ctx \<Rightarrow> 'j tx_ctx" where
  "add_read container i version c = c\<lparr>read_set := read_set_add container i version (read_set c)\<rparr>"

fun extract_ids :: "'j multi_model_operation \<Rightarrow> string list" where
  "extract_ids (VectorOp op) = affected_ids op"
| "extract_ids (DocumentOp op) = [''*'']"
| "extract_ids (GraphOp op) = affected_node_ids op"
| "extract_ids (ObservabilityOp op) = [''*'']"

definition write_all :: "'j tx_operation \<Rightarrow> 'j write_set \<Rightarrow> 'j write_set" where
  "write_all op ws =
     fold (\<lambda>i. write_set_add (op_target (operation op)) i op) (extract_ids (operation op)) ws"

definition add_write :: "nat \<Rightarrow> 'j multi_model_operation \<Rightarrow> 'j tx_ctx \<Rightarrow> u64 \<times> 'j tx_ctx" where
  "add_write now op c =
     (let seq = sequence_counter c + 1;
          tx_op = tx_operation_new now seq op
      in (seq, c\<lparr>sequence_counter := seq, write_set := write_all tx_op (write_set c),
                 stores := List.insert (model_type op) (stores c)\<rparr>))"

definition savepoint :: "string \<Rightarrow> 'j tx_ctx \<Rightarrow> 'j tx_ctx" where
  "savepoint name c = c\<lparr>savepoints := (savepoints c)(name \<mapsto> sequence_counter c)\<rparr>"

definition rollback_to_savepoint :: "string \<Rightarrow> 'j tx_ctx \<Rightarrow> ('j tx_operation list \<times> 'j tx_ctx) option" where
  "rollback_to_savepoint name c =
     (case savepoints c name of
        None \<Rightarrow> None
      | Some seq \<Rightarrow>
          let (ops, _) = take_operations (write_set c);
              (keep, rollback) = partition (\<lambda>op. sequence op \<le> seq) ops
          in Some (rollback, c\<lparr>write_set := fold write_all keep write_set_default\<rparr>))"

definition ctx_acquire_lock :: "nat \<Rightarrow> string \<Rightarrow> lock_mode \<Rightarrow> 'j tx_ctx \<Rightarrow> lock \<times> 'j tx_ctx" where
  "ctx_acquire_lock now resource mode c =
     (let lock = \<lparr>lk_tx = ctx_id c, lk_resource = resource, lk_mode = mode, acquired_at = now\<rparr>
      in (lock, c\<lparr>locks := locks c @ [lock]\<rparr>))"

definition release_locks :: "'j tx_ctx \<Rightarrow> lock list \<times> 'j tx_ctx" where
  "release_locks c = (locks c, c\<lparr>locks := []\<rparr>)"

definition entries_overlap :: "entries \<Rightarrow> entries \<Rightarrow> bool" where
  "entries_overlap ours theirs \<longleftrightarrow>
     list_ex (\<lambda>(container, our_ids).
       case map_of theirs container of
         None \<Rightarrow> False
       | Some their_ids \<Rightarrow> list_ex (\<lambda>i. i \<in> set their_ids) our_ids) ours"

definition conflicts_with :: "'j tx_ctx \<Rightarrow> 'j tx_ctx \<Rightarrow> bool" where
  "conflicts_with c other \<longleftrightarrow>
     (if entries_overlap (ws_entries (write_set c)) (ws_entries (write_set other)) then True
      else if prevents_non_repeatable_reads (isolation c)
      then entries_overlap (rs_entries (read_set c)) (ws_entries (write_set other))
      else False)"

definition add_child :: "string \<Rightarrow> 'j tx_ctx \<Rightarrow> 'j tx_ctx" where
  "add_child i c = c\<lparr>children := children c @ [i]\<rparr>"

definition ctx_stats_of :: "nat \<Rightarrow> 'j tx_ctx \<Rightarrow> ctx_stats" where
  "ctx_stats_of now c = \<lparr>st_id = ctx_id c, st_state = state c, st_isolation = isolation c,
     st_duration = now - started_at c,
     read_count = sum_list (map (\<lambda>(k, ids). length ids) (rs_entries (read_set c))),
     write_count = length (operations (write_set c)), lock_count = length (locks c),
     participant_count = length (stores c)\<rparr>"

section \<open>Write sets\<close>

lemma write_set_add_operations [simp]: "operations (write_set_add k i op ws) = operations ws @ [op]"
  by (simp add: write_set_add_def)

lemma fold_write_set_add:
  "operations (fold (\<lambda>i. write_set_add k i op) ids ws) = operations ws @ replicate (length ids) op"
  by (induction ids arbitrary: ws) (simp_all add: replicate_append_same [symmetric])

lemma write_all_operations [simp]:
  "operations (write_all op ws) = operations ws @ replicate (length (extract_ids (operation op))) op"
  by (simp add: write_all_def fold_write_set_add)

lemma fold_write_all_operations:
  "operations (fold write_all ops ws) =
     operations ws @ concat (map (\<lambda>op. replicate (length (extract_ids (operation op))) op) ops)"
  by (induction ops arbitrary: ws) simp_all

lemma set_fold_write_all: "set (operations (fold write_all ops ws)) \<subseteq> set (operations ws) \<union> set ops"
  by (auto simp: fold_write_all_operations)

lemma entry_ids_Nil [simp]: "entry_ids [] k = []"
  by (simp add: entry_ids_def)

lemma entry_ids_add:
  "set (entry_ids (entry_add k i es) k') = (if k = k' then insert i (set (entry_ids es k)) else set (entry_ids es k'))"
  by (auto simp: entry_add_def entry_ids_def update_conv')

text \<open>The entries of a write set are the ids its operations name.\<close>

definition named :: "'j tx_operation list \<Rightarrow> string \<Rightarrow> string set" where
  "named ops k = (\<Union>op \<in> set ops. if op_target (operation op) = k then set (extract_ids (operation op)) else {})"

lemma entries_write_all:
  "set (entry_ids (ws_entries (write_all op ws)) k) =
     set (entry_ids (ws_entries ws) k) \<union>
     (if op_target (operation op) = k then set (extract_ids (operation op)) else {})"
proof -
  have "set (entry_ids (ws_entries (fold (\<lambda>i. write_set_add t i op) ids ws)) k) =
      set (entry_ids (ws_entries ws) k) \<union> (if t = k then set ids else {})" for t ids
    by (induction ids arbitrary: ws) (auto simp: write_set_add_def entry_ids_add)
  then show ?thesis
    by (simp add: write_all_def)
qed

lemma entries_fold_write_all:
  "set (entry_ids (ws_entries (fold write_all ops ws)) k) = set (entry_ids (ws_entries ws) k) \<union> named ops k"
  by (induction ops arbitrary: ws) (auto simp: entries_write_all named_def)

lemma distinct_entry_add [simp]: "distinct (map fst es) \<Longrightarrow> distinct (map fst (entry_add k i es))"
  by (simp add: entry_add_def distinct_update)

lemma distinct_write_all [simp]:
  "distinct (map fst (ws_entries ws)) \<Longrightarrow> distinct (map fst (ws_entries (write_all op ws)))"
proof -
  have "distinct (map fst (ws_entries ws)) \<Longrightarrow>
      distinct (map fst (ws_entries (fold (\<lambda>i. write_set_add t i op) ids ws)))" for t ids
    by (induction ids arbitrary: ws) (simp_all add: write_set_add_def)
  then show "distinct (map fst (ws_entries ws)) \<Longrightarrow> ?thesis"
    by (simp add: write_all_def)
qed

lemma distinct_fold_write_all [simp]:
  "distinct (map fst (ws_entries ws)) \<Longrightarrow> distinct (map fst (ws_entries (fold write_all ops ws)))"
  by (induction ops arbitrary: ws) simp_all

text \<open>The consistency of a context: maps have one entry per key, and the write set names what its
  operations name.\<close>

definition ctx_wf :: "'j tx_ctx \<Rightarrow> bool" where
  "ctx_wf c \<longleftrightarrow> distinct (map fst (ws_entries (write_set c))) \<and> distinct (map fst (rs_entries (read_set c))) \<and>
     (\<forall>k. set (entry_ids (ws_entries (write_set c)) k) = named (operations (write_set c)) k)"

lemma named_Nil [simp]: "named [] k = {}"
  by (simp add: named_def)

lemma named_append [simp]: "named (xs @ ys) k = named xs k \<union> named ys k"
  by (auto simp: named_def)

lemma named_replicate [simp]:
  "named (replicate (length (extract_ids (operation op))) op) k =
     (if op_target (operation op) = k then set (extract_ids (operation op)) else {})"
  by (cases "extract_ids (operation op) = []") (simp_all add: named_def)

lemma named_Cons: "named (op # ops) k =
    (if op_target (operation op) = k then set (extract_ids (operation op)) else {}) \<union> named ops k"
  by (simp add: named_def)

lemma named_replicates [simp]:
  "named (concat (map (\<lambda>op. replicate (length (extract_ids (operation op))) op) ops)) k = named ops k"
  by (induction ops) (simp_all add: named_Cons)

lemma write_all_wf:
  "ctx_wf c \<Longrightarrow> ctx_wf (c\<lparr>write_set := write_all op (write_set c)\<rparr>)"
  by (simp add: ctx_wf_def entries_write_all)

lemma ctx_new_wf: "ctx_wf (ctx_new now i lvl tmo)"
  by (simp add: ctx_wf_def ctx_new_def write_set_default_def entry_ids_def named_def)

lemma ctx_wf_frame:
  "write_set c' = write_set c \<Longrightarrow> read_set c' = read_set c \<Longrightarrow> ctx_wf c' = ctx_wf c"
  by (simp add: ctx_wf_def)

lemma add_write_wf: "ctx_wf c \<Longrightarrow> ctx_wf (snd (add_write now op c))"
  using ctx_wf_frame [of "snd (add_write now op c)"
      "c\<lparr>write_set := write_all (tx_operation_new now (sequence_counter c + 1) op) (write_set c)\<rparr>"]
    write_all_wf [of c]
  by (simp add: add_write_def Let_def)

lemma add_read_wf: "ctx_wf c \<Longrightarrow> ctx_wf (add_read k i v c)"
  by (simp add: ctx_wf_def add_read_def read_set_add_def)

lemma rollback_to_savepoint_eq:
  "rollback_to_savepoint name c = Some (rolled, c') \<longleftrightarrow>
   (\<exists>seq. savepoints c name = Some seq \<and>
      rolled = filter (\<lambda>op. \<not> sequence op \<le> seq) (operations (write_set c)) \<and>
      c' = c\<lparr>write_set := fold write_all (filter (\<lambda>op. sequence op \<le> seq) (operations (write_set c))) write_set_default\<rparr>)"
  by (auto simp: rollback_to_savepoint_def take_operations_def Let_def o_def split: option.splits)

lemma rollback_wf:
  assumes "ctx_wf c" "rollback_to_savepoint name c = Some (rolled, c')"
  shows "ctx_wf c'"
  using assms
  by (auto simp: rollback_to_savepoint_eq ctx_wf_def entries_fold_write_all write_set_default_def
      fold_write_all_operations named_replicates)

section \<open>Conflicts\<close>

lemma prevents_non_repeatable_reads_iff:
  "prevents_non_repeatable_reads l \<longleftrightarrow> l \<in> {RepeatableRead, Snapshot, Serializable}"
  by (cases l) (simp_all add: prevents_non_repeatable_reads_def word_le_nat_alt)

lemma entries_overlap_iff:
  assumes "distinct (map fst xs)"
  shows "entries_overlap xs ys \<longleftrightarrow> (\<exists>k. set (entry_ids xs k) \<inter> set (entry_ids ys k) \<noteq> {})"
proof
  assume "entries_overlap xs ys"
  then obtain k ids ids' where "(k, ids) \<in> set xs" "map_of ys k = Some ids'" "\<exists>i \<in> set ids. i \<in> set ids'"
    by (auto simp: entries_overlap_def list_ex_iff split: option.splits)
  then show "\<exists>k. set (entry_ids xs k) \<inter> set (entry_ids ys k) \<noteq> {}"
    using assms by (intro exI [of _ k]) (auto simp: entry_ids_def)
next
  assume "\<exists>k. set (entry_ids xs k) \<inter> set (entry_ids ys k) \<noteq> {}"
  then obtain k i where i: "i \<in> set (entry_ids xs k)" "i \<in> set (entry_ids ys k)"
    by blast
  then obtain ids ids' where "map_of xs k = Some ids" "map_of ys k = Some ids'" "i \<in> set ids" "i \<in> set ids'"
    by (cases "map_of xs k"; cases "map_of ys k") (simp_all add: entry_ids_def)
  then show "entries_overlap xs ys"
    by (auto simp: entries_overlap_def list_ex_iff dest: map_of_SomeD intro!: bexI [of _ "(k, ids)"])
qed

text \<open>
  The conflict test. Two transactions conflict exactly when they have written an id of the same
  container, or, from \<open>RepeatableRead\<close> on, when the first has read an id that the second has written;
  containers are compared by name, across the four stores.
\<close>

theorem conflicts_with_iff:
  assumes "ctx_wf c" and "ctx_wf other"
  shows "conflicts_with c other \<longleftrightarrow>
    (\<exists>k. named (operations (write_set c)) k \<inter> named (operations (write_set other)) k \<noteq> {}) \<or>
    isolation c \<in> {RepeatableRead, Snapshot, Serializable} \<and>
    (\<exists>k. set (entry_ids (rs_entries (read_set c)) k) \<inter> named (operations (write_set other)) k \<noteq> {})"
  using assms
  by (auto simp: conflicts_with_def ctx_wf_def entries_overlap_iff prevents_non_repeatable_reads_iff)

text \<open>Two contexts for the witnesses: one reads and writes vectors, the other writes one of them.\<close>

definition sample_vec :: "string \<Rightarrow> string list \<Rightarrow> unit multi_model_operation" where
  "sample_vec coll ids = VectorOp (VecDelete coll ids)"

definition sample_ctx :: "string \<Rightarrow> string list \<Rightarrow> unit tx_ctx" where
  "sample_ctx i ids = snd (add_write 0 (sample_vec ''v'' ids) (ctx_new 0 i Serializable 30))"

lemma sample_ctx_wf: "ctx_wf (sample_ctx i ids)"
  by (simp add: sample_ctx_def add_write_wf ctx_new_wf)

theorem conflicts_with_iff_witness:
  "conflicts_with (sample_ctx ''t1'' [''a'', ''b'']) (sample_ctx ''t2'' [''b'']) \<and>
   \<not> conflicts_with (sample_ctx ''t1'' [''a'']) (sample_ctx ''t2'' [''b''])"
  using conflicts_with_iff [OF sample_ctx_wf sample_ctx_wf, of "''t1''" "[''a'', ''b'']" "''t2''" "[''b'']"]
    conflicts_with_iff [OF sample_ctx_wf sample_ctx_wf, of "''t1''" "[''a'']" "''t2''" "[''b'']"]
  by (auto simp: sample_ctx_def sample_vec_def add_write_def ctx_new_def Let_def named_def
      tx_operation_new_def write_set_default_def entry_ids_def)

text \<open>
  Filter-based writes escape the read check. A document or observability write is recorded under
  the id \<open>*\<close>, so a transaction that has read documents by their ids never conflicts through its reads
  with one that has only written documents or observability data, not even at \<open>Serializable\<close> and not
  even when the writes hit what it read.
\<close>

theorem filter_writes_miss_reads:
  assumes "ctx_wf c" and "ctx_wf other" and "operations (write_set c) = []"
    and "\<forall>t \<in> set (operations (write_set other)). model_type (operation t) \<in> {''document'', ''observability''}"
    and "\<forall>k. ''*'' \<notin> set (entry_ids (rs_entries (read_set c)) k)"
  shows "\<not> conflicts_with c other"
proof -
  have "named (operations (write_set other)) k \<subseteq> {''*''}" for k
    using assms(4) by (fastforce simp: named_def elim: model_type.elims split: if_splits)
  then have "set (entry_ids (rs_entries (read_set c)) k) \<inter> set (entry_ids (ws_entries (write_set other)) k) = {}" for k
    using assms(2,5) by (fastforce simp: ctx_wf_def)
  moreover have "set (entry_ids (ws_entries (write_set c)) k) = {}" for k
    using assms(1,3) by (simp add: ctx_wf_def)
  ultimately show ?thesis
    using assms(1) by (simp add: conflicts_with_def ctx_wf_def entries_overlap_iff)
qed

theorem filter_writes_miss_reads_witness:
  "let reader = add_read ''users'' ''alice'' 1 (ctx_new 0 ''t1'' Serializable 30);
       writer = snd (add_write 0 (DocumentOp (DocReplace ''users'' ''alice'' ())) (ctx_new 0 ''t2'' Serializable 30))
   in \<not> conflicts_with reader writer"
proof -
  let ?r = "add_read ''users'' ''alice'' 1 (ctx_new 0 ''t1'' Serializable 30) :: unit tx_ctx"
  let ?w = "snd (add_write 0 (DocumentOp (DocReplace ''users'' ''alice'' ())) (ctx_new 0 ''t2'' Serializable 30))"
  have wf: "ctx_wf ?r" "ctx_wf ?w"
    by (simp_all add: add_read_wf add_write_wf ctx_new_wf)
  show ?thesis
    using filter_writes_miss_reads [OF wf]
    by (simp add: Let_def add_read_def add_write_def ctx_new_def read_set_add_def entry_add_def
        entry_ids_def write_set_default_def tx_operation_new_def)
qed

section \<open>Savepoints\<close>

definition ctx_writes :: "(nat \<times> 'j multi_model_operation) list \<Rightarrow> 'j tx_ctx \<Rightarrow> 'j tx_ctx" where
  "ctx_writes = fold (\<lambda>(now, op) c. snd (add_write now op c))"

fun numbered :: "u64 \<Rightarrow> (nat \<times> 'j multi_model_operation) list \<Rightarrow> 'j tx_operation list" where
  "numbered n [] = []"
| "numbered n ((now, op) # xs) = tx_operation_new now (n + 1) op # numbered (n + 1) xs"

definition ids_of :: "'j tx_operation \<Rightarrow> nat" where
  "ids_of t = length (extract_ids (operation t))"

lemma operations_copies:
  "operations (fold write_all ops ws) = operations ws @ concat (map (\<lambda>t. replicate (ids_of t) t) ops)"
  by (simp add: fold_write_all_operations ids_of_def)

lemma ctx_writes_fields:
  "write_set (ctx_writes xs c) = fold write_all (numbered (sequence_counter c) xs) (write_set c)"
  "sequence_counter (ctx_writes xs c) = sequence_counter c + of_nat (length xs)"
  "savepoints (ctx_writes xs c) = savepoints c"
  by (induction xs arbitrary: c) (auto simp: ctx_writes_def add_write_def Let_def)

lemma numbered_sequence:
  "unat n + length xs < 2 ^ 64 \<Longrightarrow> t \<in> set (numbered n xs) \<Longrightarrow>
   unat n < unat (sequence t) \<and> unat (sequence t) \<le> unat n + length xs"
proof (induction n xs rule: numbered.induct)
  case (2 n now op xs)
  then have "unat (n + 1) = Suc (unat n)"
    using unat_add_no_wrap [of n 1] by simp
  with 2 show ?case
    by (auto simp: tx_operation_new_def)
qed simp

lemma filter_copies:
  "filter P (concat (map (\<lambda>t. replicate (f t) t) ts)) = concat (map (\<lambda>t. replicate (f t) t) (filter P ts))"
  by (induction ts) simp_all

lemma copies_of_copies:
  "concat (map (\<lambda>t. replicate (f t) t) (concat (map (\<lambda>t. replicate (f t) t) ts))) =
     concat (map (\<lambda>t. replicate (f t * f t) t) ts)"
proof (induction ts)
  case (Cons t ts)
  have "concat (map (\<lambda>t. replicate (f t) t) (replicate n t)) = replicate (n * f t) t" for n
    by (induction n) (simp_all add: replicate_add)
  with Cons show ?case by simp
qed simp

lemma savepoint_rollback:
  fixes before after :: "(nat \<times> 'j multi_model_operation) list"
  assumes "length before + length after < 2 ^ 64" and c0_def: "c0 = ctx_writes before (ctx_new now i lvl tmo)"
  shows "\<exists>c'. rollback_to_savepoint name (ctx_writes after (savepoint name c0)) =
      Some (concat (map (\<lambda>t. replicate (ids_of t) t) (numbered (of_nat (length before)) after)), c') \<and>
    write_set c' = fold write_all (concat (map (\<lambda>t. replicate (ids_of t) t) (numbered 0 before))) write_set_default"
proof -
  let ?n = "of_nat (length before) :: u64"
  let ?A = "numbered 0 before" and ?B = "numbered ?n after"
  have n: "unat ?n = length before"
    using assms(1) by (simp add: unsigned_of_nat take_bit_nat_eq_self)
  have le: "\<forall>t \<in> set ?A. sequence t \<le> ?n"
    using numbered_sequence [of 0 before] assms(1) n by (fastforce simp: word_le_nat_alt)
  have gt: "\<forall>t \<in> set ?B. \<not> sequence t \<le> ?n"
    using numbered_sequence [of ?n after] assms(1) n by (fastforce simp: word_le_nat_alt)
  let ?c = "ctx_writes after (savepoint name c0)"
  have ops: "operations (write_set ?c) =
      concat (map (\<lambda>t. replicate (ids_of t) t) ?A) @ concat (map (\<lambda>t. replicate (ids_of t) t) ?B)"
    and sp: "savepoints ?c name = Some ?n"
    by (simp_all add: c0_def ctx_writes_fields savepoint_def ctx_new_def write_set_default_def
        fold_write_all_operations ids_of_def)
  have keep: "filter (\<lambda>t. sequence t \<le> ?n) ?A = ?A" "filter (\<lambda>t. sequence t \<le> ?n) ?B = []"
    "filter (\<lambda>t. \<not> sequence t \<le> ?n) ?A = []" "filter (\<lambda>t. \<not> sequence t \<le> ?n) ?B = ?B"
    using le gt by (simp_all add: filter_id_conv filter_empty_conv)
  show ?thesis
    using sp by (simp add: rollback_to_savepoint_eq ops filter_copies keep)
qed

text \<open>
  C38: savepoints. Start a transaction, write, take a savepoint, write more, roll back to it. When every
  operation before the savepoint names exactly one id, the write set is again what it was at the
  savepoint, entries and operations, and the rollback hands back the later operations, once per id.
\<close>

theorem savepoint_restores:
  assumes "length before + length after < 2 ^ 64"
    and "\<forall>(t, op) \<in> set before. length (extract_ids op) = 1"
  shows "\<exists>c'. rollback_to_savepoint name (ctx_writes after (savepoint name (ctx_writes before (ctx_new now i lvl tmo)))) =
      Some (concat (map (\<lambda>t. replicate (ids_of t) t) (numbered (of_nat (length before)) after)), c') \<and>
    write_set c' = write_set (ctx_writes before (ctx_new now i lvl tmo))"
proof -
  have "\<forall>t \<in> set (numbered n before). ids_of t = 1" for n
    using assms(2) by (induction n before rule: numbered.induct) (auto simp: ids_of_def tx_operation_new_def)
  then have "map (\<lambda>t. replicate (ids_of t) t) (numbered 0 before) = map (\<lambda>t. [t]) (numbered 0 before)"
    by simp
  then have "concat (map (\<lambda>t. replicate (ids_of t) t) (numbered 0 before)) = numbered 0 before"
    by (simp only: concat_map_singleton map_ident)
  then show ?thesis
    using savepoint_rollback [OF assms(1) refl] by (simp add: ctx_writes_fields ctx_new_def)
qed

theorem savepoint_restores_witness:
  "let c = ctx_writes [(0, sample_vec ''v'' [''a''])] (ctx_new 0 ''t1'' ReadCommitted 30)
   in \<exists>c' rolled. rollback_to_savepoint ''s'' (ctx_writes [(1, sample_vec ''v'' [''b''])] (savepoint ''s'' c)) =
        Some (rolled, c') \<and> write_set c' = write_set c"
  using savepoint_restores [of "[(0, sample_vec ''v'' [''a''])]" "[(1, sample_vec ''v'' [''b''])]" "''s''"]
  by (simp add: sample_vec_def Let_def) blast

text \<open>
  C39: savepoints multiply multi-id operations. An operation that names \<open>k\<close> ids sits in the write set
  \<open>k\<close> times, and the rollback adds each of these copies once per id again: after rolling back to a
  savepoint taken behind it, the write set holds it \<open>k * k\<close> times.
\<close>

theorem savepoint_multiplies:
  assumes "length before + length after < 2 ^ 64"
  shows "\<exists>c' rolled. rollback_to_savepoint name (ctx_writes after (savepoint name (ctx_writes before (ctx_new now i lvl tmo)))) =
      Some (rolled, c') \<and>
    operations (write_set (ctx_writes before (ctx_new now i lvl tmo))) =
      concat (map (\<lambda>t. replicate (ids_of t) t) (numbered 0 before)) \<and>
    operations (write_set c') = concat (map (\<lambda>t. replicate (ids_of t * ids_of t) t) (numbered 0 before))"
proof -
  let ?before = "ctx_writes before (ctx_new now i lvl tmo)"
  obtain c' rolled where
    rb: "rollback_to_savepoint name (ctx_writes after (savepoint name ?before)) = Some (rolled, c')"
    and ws: "write_set c' = fold write_all (concat (map (\<lambda>t. replicate (ids_of t) t) (numbered 0 before))) write_set_default"
    using savepoint_rollback [OF assms refl] by blast
  have "operations (write_set c') = concat (map (\<lambda>t. replicate (ids_of t * ids_of t) t) (numbered 0 before))"
    unfolding ws by (simp add: operations_copies copies_of_copies write_set_default_def)
  moreover have "operations (write_set ?before) = concat (map (\<lambda>t. replicate (ids_of t) t) (numbered 0 before))"
    by (simp add: ctx_writes_fields operations_copies ctx_new_def write_set_default_def)
  ultimately show ?thesis
    using rb by blast
qed

theorem savepoint_multiplies_witness:
  "let c = ctx_writes [(0, sample_vec ''v'' [''a'', ''b'', ''c''])] (ctx_new 0 ''t1'' ReadCommitted 30)
   in \<exists>c' rolled. rollback_to_savepoint ''s'' (savepoint ''s'' c) = Some (rolled, c') \<and>
      length (operations (write_set c)) = 3 \<and> length (operations (write_set c')) = 9"
proof -
  have short: "length [(0 :: nat, sample_vec ''v'' [''a'', ''b'', ''c''])] + length ([] :: (nat \<times> unit multi_model_operation) list) < 2 ^ 64"
    by simp
  obtain c' rolled where c': "rollback_to_savepoint ''s'' (ctx_writes [] (savepoint ''s''
       (ctx_writes [(0, sample_vec ''v'' [''a'', ''b'', ''c''])] (ctx_new 0 ''t1'' ReadCommitted 30)))) = Some (rolled, c')"
    "operations (write_set (ctx_writes [(0, sample_vec ''v'' [''a'', ''b'', ''c''])] (ctx_new 0 ''t1'' ReadCommitted 30))) =
      concat (map (\<lambda>t. replicate (ids_of t) t) (numbered 0 [(0, sample_vec ''v'' [''a'', ''b'', ''c''])]))"
    "operations (write_set c') =
      concat (map (\<lambda>t. replicate (ids_of t * ids_of t) t) (numbered 0 [(0, sample_vec ''v'' [''a'', ''b'', ''c''])]))"
    using savepoint_multiplies [OF short, of "''s''" 0 "''t1''" ReadCommitted 30] by blast
  then show ?thesis
    by (auto simp: Let_def ctx_writes_def ids_of_def tx_operation_new_def sample_vec_def)
qed

end
