(* ===== verification/Tx_Manager.thy ===== *)
theory Tx_Manager
  imports Tx_Context
begin

text \<open>
  The transaction manager (\<^verbatim>\<open>manager.rs\<close>): registration of transactions, participants, the global lock
  table with its wait queues, two-phase commit, abort, validation, savepoints and the timeout sweep.

  A context is shared between the manager and its clients (\<open>Arc\<close>), and a client keeps using it after the
  manager has dropped it. So the contexts live in \<open>arena\<close>, which never forgets, and the map of active
  transactions is the list \<open>active\<close> of their ids, in the order the hash map happens to iterate. Each method
  is a function on the manager, except where the code gives way to other threads: \<open>lock_loop\<close> runs the
  attempts of a waiting lock request, with the effect of the other threads before each attempt, and
  \<open>commit\<close> takes their effect while it waits for the commit lock. UUIDs and clock readings are arguments.
\<close>

section \<open>Data\<close>

datatype tx_error =
    TransactionNotFound string
  | TransactionNotActive string
  | TransactionTimedOut string
  | TransactionConflict string string
  | TooManyTransactions nat
  | TransactionAborted string
  | LockTimeout string
  | DeadlockDetected string
  | SavepointNotFound string

fun error_text :: "tx_error \<Rightarrow> string" where
  "error_text (TransactionNotFound i) = ''Transaction not found: '' @ i"
| "error_text (TransactionNotActive i) = ''Transaction not active: '' @ i"
| "error_text (TransactionTimedOut i) = ''Transaction timed out: '' @ i"
| "error_text (TransactionConflict t o') = ''Transaction conflict: '' @ t @ '' conflicts with '' @ o'"
| "error_text (TooManyTransactions n) =
     ''Too many transactions: maximum '' @ show_nat n @ '' concurrent transactions allowed''"
| "error_text (TransactionAborted r) = ''Transaction aborted: '' @ r"
| "error_text (LockTimeout r) = ''Lock timeout for resource: '' @ r"
| "error_text (DeadlockDetected t) = ''Deadlock detected for transaction: '' @ t"
| "error_text (SavepointNotFound n) = ''Savepoint not found: '' @ n"

record tx_config =
  default_timeout :: nat
  max_concurrent_transactions :: nat
  default_isolation_level :: isolation_level
  resolution_strategy :: conflict_resolution
  lock_wait_timeout :: nat
  deadlock_detection :: bool
  deadlock_detection_interval :: nat
  enable_logging :: bool
  max_conflict_retries :: u32

definition tx_config_default :: tx_config where
  "tx_config_default = \<lparr>default_timeout = 30000000000, max_concurrent_transactions = 1000,
     default_isolation_level = ReadCommitted, resolution_strategy = FirstWriterWins,
     lock_wait_timeout = 5000000000, deadlock_detection = True,
     deadlock_detection_interval = 1000000000, enable_logging = True, max_conflict_retries = 3\<rparr>"

record participant =
  store_id :: string
  prepared :: bool
  vote :: "bool option"
  part_error :: "string option"

record tx_result =
  transaction_id :: string
  success :: bool
  final_state :: tx_state
  duration :: nat
  operation_count :: nat
  res_participants :: "(string \<times> bool) list"
  error :: "string option"

record lock_entry =
  entry_lock :: lock
  waiters :: "(string \<times> lock_mode \<times> nat) list"

record manager_stats =
  total_started :: u64
  total_committed :: u64
  total_aborted :: u64
  total_timed_out :: u64
  total_conflicts :: u64
  total_deadlocks :: u64
  current_active :: nat
  avg_duration_ms_bits :: u64

record 'j manager =
  config :: tx_config
  arena :: "string \<rightharpoonup> 'j tx_ctx"
  active :: "string list"
  participants :: "string \<rightharpoonup> (string \<times> participant) list"
  lock_table :: "string \<rightharpoonup> lock_entry"
  history :: "tx_result list"
  stats :: manager_stats

definition stats_zero :: manager_stats where
  "stats_zero = \<lparr>total_started = 0, total_committed = 0, total_aborted = 0, total_timed_out = 0,
     total_conflicts = 0, total_deadlocks = 0, current_active = 0, avg_duration_ms_bits = 0\<rparr>"

definition manager_new :: "tx_config \<Rightarrow> 'j manager" where
  "manager_new conf = \<lparr>config = conf, arena = Map.empty, active = [], participants = Map.empty,
     lock_table = Map.empty, history = [], stats = stats_zero\<rparr>"

section \<open>Registration\<close>

definition get_transaction :: "string \<Rightarrow> 'j manager \<Rightarrow> tx_error + 'j tx_ctx" where
  "get_transaction tx m =
     (if tx \<in> set (active m)
      then (case arena m tx of None \<Rightarrow> Inl (TransactionNotFound tx) | Some c \<Rightarrow> Inr c)
      else Inl (TransactionNotFound tx))"

definition update_ctx :: "string \<Rightarrow> ('j tx_ctx \<Rightarrow> 'j tx_ctx) \<Rightarrow> 'j manager \<Rightarrow> 'j manager" where
  "update_ctx tx f m = m\<lparr>arena := (arena m)(tx := map_option f (arena m tx))\<rparr>"

definition register :: "'j tx_ctx \<Rightarrow> 'j manager \<Rightarrow> 'j manager" where
  "register c m = m\<lparr>arena := (arena m)(ctx_id c \<mapsto> c), active := List.insert (ctx_id c) (active m),
     participants := (participants m)(ctx_id c \<mapsto> [])\<rparr>"

definition tx_begin ::
  "string \<Rightarrow> nat \<Rightarrow> isolation_level option \<Rightarrow> 'j manager \<Rightarrow> (tx_error + 'j tx_ctx) \<times> 'j manager" where
  "tx_begin uuid now lvl m =
     (let active_count = length (active m)
      in if max_concurrent_transactions (config m) \<le> active_count
         then (Inl (TooManyTransactions (max_concurrent_transactions (config m))), m)
         else let c = ctx_new now (''tx_'' @ uuid)
                        (case lvl of None \<Rightarrow> default_isolation_level (config m) | Some l \<Rightarrow> l)
                        (default_timeout (config m));
                  m1 = register c m
              in (Inr c, m1\<lparr>stats := (stats m1)\<lparr>total_started := total_started (stats m1) + 1,
                                               current_active := active_count + 1\<rparr>\<rparr>))"

definition begin_nested ::
  "string \<Rightarrow> nat \<Rightarrow> string \<Rightarrow> isolation_level option \<Rightarrow> 'j manager \<Rightarrow> (tx_error + 'j tx_ctx) \<times> 'j manager" where
  "begin_nested uuid now parent_id lvl m =
     (case get_transaction parent_id m of
        Inl e \<Rightarrow> (Inl e, m)
      | Inr par \<Rightarrow>
          if \<not> is_active (state par) then (Inl (TransactionNotActive parent_id), m)
          else let c = ctx_new_nested now (''tx_'' @ parent_id @ ''_'' @ uuid) parent_id
                         (case lvl of None \<Rightarrow> isolation par | Some l \<Rightarrow> l)
                         (case remaining_time now par of
                            None \<Rightarrow> default_timeout (config m) | Some t \<Rightarrow> t);
                   m1 = register c (update_ctx parent_id (add_child (ctx_id c)) m)
               in (Inr c, m1\<lparr>stats := (stats m1)\<lparr>current_active := length (active m1)\<rparr>\<rparr>))"

definition participant_new :: "string \<Rightarrow> participant" where
  "participant_new s = \<lparr>store_id = s, prepared = False, vote = None, part_error = None\<rparr>"

definition tx_participants :: "string \<Rightarrow> 'j manager \<Rightarrow> (string \<times> participant) list" where
  "tx_participants tx m = (case participants m tx of None \<Rightarrow> [] | Some ps \<Rightarrow> ps)"

definition register_participant :: "string \<Rightarrow> string \<Rightarrow> 'j manager \<Rightarrow> 'j manager" where
  "register_participant tx store m =
     (let ps = tx_participants tx m
      in m\<lparr>participants := (participants m)
             (tx \<mapsto> (if map_of ps store = None then AList.update store (participant_new store) ps else ps))\<rparr>)"

section \<open>Results and cleanup\<close>

definition build_result ::
  "string \<Rightarrow> bool \<Rightarrow> string option \<Rightarrow> nat \<Rightarrow> nat \<Rightarrow> 'j manager \<Rightarrow> tx_result" where
  "build_result tx ok err start now m =
     (let (fs, n) = (case get_transaction tx m of
                       Inr c \<Rightarrow> (state c, length (operations (write_set c)))
                     | Inl _ \<Rightarrow> (Aborted, 0))
      in \<lparr>transaction_id = tx, success = ok, final_state = fs, duration = now - start,
          operation_count = n,
          res_participants = map (\<lambda>(k, v). (k, case vote v of None \<Rightarrow> False | Some b \<Rightarrow> b))
                               (tx_participants tx m),
          error = err\<rparr>)"

definition release_one ::
  "nat \<Rightarrow> string \<Rightarrow> lock \<Rightarrow> (string \<rightharpoonup> lock_entry) \<Rightarrow> (string \<rightharpoonup> lock_entry)" where
  "release_one now tx l tbl =
     (case tbl (lk_resource l) of
        None \<Rightarrow> tbl
      | Some e \<Rightarrow>
          if lk_tx (entry_lock e) \<noteq> tx then tbl
          else if waiters e = [] then tbl(lk_resource l := None)
          else let (waiter_id, mode, _) = last (waiters e)
               in tbl(lk_resource l \<mapsto>
                    \<lparr>entry_lock = \<lparr>lk_tx = waiter_id, lk_resource = lk_resource l, lk_mode = mode,
                                   acquired_at = now\<rparr>,
                     waiters = butlast (waiters e)\<rparr>))"

definition release_tx_locks :: "nat \<Rightarrow> string \<Rightarrow> 'j manager \<Rightarrow> 'j manager" where
  "release_tx_locks now tx m =
     (case get_transaction tx m of
        Inl _ \<Rightarrow> m
      | Inr c \<Rightarrow>
          let (ls, _) = release_locks c;
              m1 = update_ctx tx (\<lambda>c. snd (release_locks c)) m
          in m1\<lparr>lock_table := fold (release_one now tx) ls (lock_table m1)\<rparr>)"

definition store_history :: "nat \<Rightarrow> string \<Rightarrow> 'j manager \<Rightarrow> 'j manager" where
  "store_history now tx m =
     (case get_transaction tx m of
        Inl _ \<Rightarrow> m
      | Inr c \<Rightarrow>
          let result = \<lparr>transaction_id = tx, success = (state c = Committed), final_state = state c,
                        duration = now - started_at c,
                        operation_count = length (operations (write_set c)),
                        res_participants = [], error = None\<rparr>;
              h = history m @ [result]
          in m\<lparr>history := (if 1000 < length h then tl h else h)\<rparr>)"

definition cleanup_transaction :: "nat \<Rightarrow> string \<Rightarrow> 'j manager \<Rightarrow> 'j manager" where
  "cleanup_transaction now tx m =
     (let m1 = store_history now tx (release_tx_locks now tx m)
      in m1\<lparr>active := removeAll tx (active m1), participants := (participants m1)(tx := None)\<rparr>)"

section \<open>Locks\<close>

definition resource_of :: "'j multi_model_operation \<Rightarrow> string" where
  "resource_of op = model_type op @ '':'' @ op_target op"

definition lock_mode_for :: "'j multi_model_operation \<Rightarrow> lock_mode" where
  "lock_mode_for op = (if is_write op then Exclusive else Shared)"

definition detect_deadlock :: "string \<Rightarrow> string \<Rightarrow> bool" where
  "detect_deadlock tx resource = False"

datatype lock_outcome = LockOk lock | LockFail tx_error | LockWait

definition push_waiter :: "string \<Rightarrow> lock_mode \<Rightarrow> nat \<Rightarrow> lock_entry \<Rightarrow> lock_entry" where
  "push_waiter tx mode now e = e\<lparr>waiters := waiters e @ [(tx, mode, now)]\<rparr>"

text \<open>One iteration of the loop of \<open>acquire_lock\<close>, up to its next sleep.\<close>

definition lock_attempt ::
  "nat \<Rightarrow> nat \<Rightarrow> string \<Rightarrow> string \<Rightarrow> lock_mode \<Rightarrow> 'j manager \<Rightarrow> lock_outcome \<times> 'j manager" where
  "lock_attempt start now tx resource mode m =
     (if lock_wait_timeout (config m) < now - start then (LockFail (LockTimeout resource), m)
      else let lock = \<lparr>lk_tx = tx, lk_resource = resource, lk_mode = mode, acquired_at = now\<rparr>;
               hold = update_ctx tx (\<lambda>c. snd (ctx_acquire_lock now resource mode c))
           in case lock_table m resource of
                Some e \<Rightarrow>
                  if lk_tx (entry_lock e) = tx
                  then if lk_mode (entry_lock e) = Shared \<and> mode = Exclusive
                       then if waiters e = []
                            then let l = (entry_lock e)\<lparr>lk_mode := Exclusive\<rparr>
                                 in (LockOk l, m\<lparr>lock_table := (lock_table m)(resource \<mapsto> e\<lparr>entry_lock := l\<rparr>)\<rparr>)
                            else (LockWait,
                                  m\<lparr>lock_table := (lock_table m)(resource \<mapsto> push_waiter tx mode now e)\<rparr>)
                       else (LockOk (entry_lock e), m)
                  else if is_compatible (lk_mode (entry_lock e)) mode
                  then (LockOk lock, hold m)
                  else let m1 = m\<lparr>lock_table := (lock_table m)(resource \<mapsto> push_waiter tx mode now e)\<rparr>
                       in if deadlock_detection (config m1) \<and> detect_deadlock tx resource
                          then (LockFail (DeadlockDetected tx),
                                m1\<lparr>stats := (stats m1)\<lparr>total_deadlocks := total_deadlocks (stats m1) + 1\<rparr>\<rparr>)
                          else (LockWait, m1)
              | None \<Rightarrow>
                  let m1 = hold m
                  in (LockOk lock,
                      m1\<lparr>lock_table := (lock_table m1)(resource \<mapsto> \<lparr>entry_lock = lock, waiters = []\<rparr>)\<rparr>))"

text \<open>
  The loop: each element of the schedule is the time of an attempt and what the other threads did
  since the one before. A schedule that ends while the request still waits gives \<open>None\<close>.
\<close>

fun lock_loop ::
  "nat \<Rightarrow> (nat \<times> ('j manager \<Rightarrow> 'j manager)) list \<Rightarrow> string \<Rightarrow> string \<Rightarrow> lock_mode \<Rightarrow>
   'j manager \<Rightarrow> (tx_error + lock) option \<times> 'j manager" where
  "lock_loop start [] tx resource mode m = (None, m)"
| "lock_loop start ((now, others) # sched) tx resource mode m =
     (case lock_attempt start now tx resource mode (others m) of
        (LockOk l, m1) \<Rightarrow> (Some (Inr l), m1)
      | (LockFail e, m1) \<Rightarrow> (Some (Inl e), m1)
      | (LockWait, m1) \<Rightarrow> lock_loop start sched tx resource mode m1)"

definition acquire_lock where
  "acquire_lock start sched tx resource mode m =
     (case get_transaction tx m of
        Inl e \<Rightarrow> (Some (Inl e), m)
      | Inr _ \<Rightarrow> lock_loop start sched tx resource mode m)"

section \<open>Operations\<close>

definition op_check ::
  "nat \<Rightarrow> string \<Rightarrow> 'j multi_model_operation \<Rightarrow> 'j manager \<Rightarrow> (tx_error + isolation_level) \<times> 'j manager" where
  "op_check now tx op m =
     (case get_transaction tx m of
        Inl e \<Rightarrow> (Inl e, m)
      | Inr c \<Rightarrow>
          if \<not> is_active (state c) then (Inl (TransactionNotActive tx), m)
          else if is_timed_out now c
          then (Inl (TransactionTimedOut tx),
                cleanup_transaction now tx (update_ctx tx (set_state TimedOut) m))
          else (Inr (isolation c), register_participant tx (model_type op) m))"

definition op_finish :: "nat \<Rightarrow> string \<Rightarrow> 'j multi_model_operation \<Rightarrow> 'j manager \<Rightarrow> u64 option \<times> 'j manager" where
  "op_finish ts tx op m =
     (map_option (\<lambda>c. fst (add_write ts op c)) (arena m tx), update_ctx tx (\<lambda>c. snd (add_write ts op c)) m)"

definition add_operation where
  "add_operation now sched ts tx op m =
     (case op_check now tx op m of
        (Inl e, m1) \<Rightarrow> (Some (Inl e), m1)
      | (Inr lvl, m1) \<Rightarrow>
          if lvl = Serializable
          then (case acquire_lock now sched tx (resource_of op) (lock_mode_for op) m1 of
                  (None, m2) \<Rightarrow> (None, m2)
                | (Some (Inl e), m2) \<Rightarrow> (Some (Inl e), m2)
                | (Some (Inr _), m2) \<Rightarrow>
                    let (seq, m3) = op_finish ts tx op m2 in (map_option Inr seq, m3))
          else let (seq, m2) = op_finish ts tx op m1 in (map_option Inr seq, m2))"

section \<open>Abort\<close>

fun each_participant :: "(string \<Rightarrow> tx_error + unit) \<Rightarrow> string list \<Rightarrow> tx_error + unit" where
  "each_participant f [] = Inr ()"
| "each_participant f (s # ss) = (case f s of Inl e \<Rightarrow> Inl e | Inr _ \<Rightarrow> each_participant f ss)"

definition rollback_participant :: "string \<Rightarrow> string \<Rightarrow> tx_error + unit" where
  "rollback_participant tx store = Inr ()"

definition rollback_all_participants :: "string \<Rightarrow> 'j manager \<Rightarrow> tx_error + unit" where
  "rollback_all_participants tx m =
     each_participant (rollback_participant tx) (map fst (tx_participants tx m))"

definition finish_abort :: "nat \<Rightarrow> nat \<Rightarrow> string \<Rightarrow> string \<Rightarrow> 'j manager \<Rightarrow> (tx_error + tx_result) \<times> 'j manager" where
  "finish_abort start now tx why m =
     (let result = build_result tx False (Some why) start now m;
          m1 = cleanup_transaction now tx m
      in (Inr result, m1\<lparr>stats := (stats m1)\<lparr>total_aborted := total_aborted (stats m1) + 1,
                                           current_active := length (active m1)\<rparr>\<rparr>))"

definition abort_with_reason ::
  "nat \<Rightarrow> nat \<Rightarrow> string \<Rightarrow> string \<Rightarrow> 'j manager \<Rightarrow> (tx_error + tx_result) \<times> 'j manager" where
  "abort_with_reason start now tx why m =
     (case get_transaction tx m of
        Inr c \<Rightarrow>
          if can_rollback (state c)
          then let m1 = update_ctx tx (set_state RollingBack) m
               in case rollback_all_participants tx m1 of
                    Inl e \<Rightarrow> (Inl e, m1)
                  | Inr _ \<Rightarrow> finish_abort start now tx why (update_ctx tx (set_state Aborted) m1)
          else finish_abort start now tx why m
      | Inl _ \<Rightarrow> finish_abort start now tx why m)"

definition abort :: "nat \<Rightarrow> nat \<Rightarrow> string \<Rightarrow> 'j manager \<Rightarrow> (tx_error + tx_result) \<times> 'j manager" where
  "abort start now tx m = abort_with_reason start now tx ''User requested abort'' m"

section \<open>Validation\<close>

fun validate_loop :: "'j tx_ctx \<Rightarrow> string \<Rightarrow> string list \<Rightarrow> 'j manager \<Rightarrow> (tx_error + unit) \<times> 'j manager" where
  "validate_loop c tx [] m = (Inr (), m)"
| "validate_loop c tx (other_id # rest) m =
     (case arena m other_id of
        None \<Rightarrow> validate_loop c tx rest m
      | Some other \<Rightarrow>
          if other_id = tx then validate_loop c tx rest m
          else if is_ended (state other) then validate_loop c tx rest m
          else if conflicts_with c other
          then (if resolution_strategy (config m) = LastWriterWins then Inr ()
                else Inl (TransactionConflict tx other_id),
                m\<lparr>stats := (stats m)\<lparr>total_conflicts := total_conflicts (stats m) + 1\<rparr>\<rparr>)
          else validate_loop c tx rest m)"

definition validate_transaction :: "string \<Rightarrow> 'j manager \<Rightarrow> (tx_error + unit) \<times> 'j manager" where
  "validate_transaction tx m =
     (case get_transaction tx m of
        Inl e \<Rightarrow> (Inl e, m)
      | Inr c \<Rightarrow> validate_loop c tx (active m) m)"

section \<open>Two-phase commit\<close>

definition prepare_participant :: "string \<Rightarrow> string \<Rightarrow> tx_error + bool" where
  "prepare_participant tx store = Inr True"

definition record_vote :: "string \<Rightarrow> string \<Rightarrow> bool \<Rightarrow> 'j manager \<Rightarrow> 'j manager" where
  "record_vote tx store v m =
     (case participants m tx of
        None \<Rightarrow> m
      | Some ps \<Rightarrow>
          (case map_of ps store of
             None \<Rightarrow> m
           | Some p \<Rightarrow> m\<lparr>participants := (participants m)
                          (tx \<mapsto> AList.update store (p\<lparr>prepared := v, vote := Some v\<rparr>) ps)\<rparr>))"

fun prepare_loop ::
  "string \<Rightarrow> string list \<Rightarrow> bool \<Rightarrow> 'j manager \<Rightarrow> (tx_error + bool) \<times> 'j manager" where
  "prepare_loop tx [] all_prepared m = (Inr all_prepared, m)"
| "prepare_loop tx (s # ss) all_prepared m =
     (case prepare_participant tx s of
        Inl e \<Rightarrow> (Inl e, m)
      | Inr v \<Rightarrow> prepare_loop tx ss (if \<not> v then False else all_prepared) (record_vote tx s v m))"

definition prepare_phase :: "string \<Rightarrow> 'j manager \<Rightarrow> (tx_error + bool) \<times> 'j manager" where
  "prepare_phase tx m =
     (let ps = tx_participants tx m
      in if ps = [] then (Inr True, m) else prepare_loop tx (map fst ps) True m)"

definition commit_participant :: "string \<Rightarrow> string \<Rightarrow> tx_error + unit" where
  "commit_participant tx store = Inr ()"

definition commit_phase :: "string \<Rightarrow> 'j manager \<Rightarrow> tx_error + unit" where
  "commit_phase tx m = each_participant (commit_participant tx) (map fst (tx_participants tx m))"

text \<open>The part of \<open>commit\<close> that runs under the commit lock.\<close>

definition commit_locked ::
  "nat \<Rightarrow> nat \<Rightarrow> string \<Rightarrow> 'j manager \<Rightarrow> (tx_error + tx_result) \<times> 'j manager" where
  "commit_locked start now tx m =
     (case prepare_phase tx (update_ctx tx (set_state Preparing) m) of
        (Inl e, m1) \<Rightarrow> abort_with_reason now now tx (error_text e) m1
      | (Inr False, m1) \<Rightarrow> abort_with_reason now now tx ''Participant voted NO during prepare'' m1
      | (Inr True, m1) \<Rightarrow>
          let m2 = update_ctx tx (set_state Committing) (update_ctx tx (set_state Prepared) m1)
          in case commit_phase tx m2 of
               Inl e \<Rightarrow> abort_with_reason now now tx (error_text e) m2
             | Inr _ \<Rightarrow>
                 let m3 = update_ctx tx (set_state Committed) m2;
                     result = build_result tx True None start now m3;
                     m4 = cleanup_transaction now tx m3
                 in (Inr result, m4\<lparr>stats := (stats m4)\<lparr>total_committed := total_committed (stats m4) + 1,
                                                    current_active := length (active m4)\<rparr>\<rparr>))"

text \<open>The checks before it: an early result, or the manager as it waits for the commit lock.\<close>

definition commit_check ::
  "nat \<Rightarrow> string \<Rightarrow> 'j manager \<Rightarrow> (tx_error + tx_result) option \<times> 'j manager" where
  "commit_check start tx m =
     (case get_transaction tx m of
        Inl e \<Rightarrow> (Some (Inl e), m)
      | Inr c \<Rightarrow>
          if \<not> is_active (state c) then (Some (Inl (TransactionNotActive tx)), m)
          else if is_timed_out start c
          then (let (r, m1) = abort_with_reason start start tx ''Transaction timed out'' m in (Some r, m1))
          else if isolation c = Serializable
          then (case validate_transaction tx m of
                  (Inl e, m1) \<Rightarrow>
                    (let (r, m2) = abort_with_reason start start tx (error_text e) m1 in (Some r, m2))
                | (Inr _, m1) \<Rightarrow> (None, m1))
          else (None, m))"

definition commit ::
  "nat \<Rightarrow> nat \<Rightarrow> ('j manager \<Rightarrow> 'j manager) \<Rightarrow> string \<Rightarrow> 'j manager \<Rightarrow> (tx_error + tx_result) \<times> 'j manager" where
  "commit start now others tx m =
     (case commit_check start tx m of
        (Some r, m1) \<Rightarrow> (r, m1)
      | (None, m1) \<Rightarrow> commit_locked start now tx (others m1))"

section \<open>Savepoints, timeouts and statistics\<close>

definition mgr_savepoint :: "string \<Rightarrow> string \<Rightarrow> 'j manager \<Rightarrow> (tx_error + unit) \<times> 'j manager" where
  "mgr_savepoint tx name m =
     (case get_transaction tx m of
        Inl e \<Rightarrow> (Inl e, m)
      | Inr c \<Rightarrow>
          if \<not> is_active (state c) then (Inl (TransactionNotActive tx), m)
          else (Inr (), update_ctx tx (savepoint name) m))"

definition mgr_rollback_to_savepoint ::
  "string \<Rightarrow> string \<Rightarrow> 'j manager \<Rightarrow> (tx_error + 'j operation_rollback list) \<times> 'j manager" where
  "mgr_rollback_to_savepoint tx name m =
     (case get_transaction tx m of
        Inl e \<Rightarrow> (Inl e, m)
      | Inr c \<Rightarrow>
          if \<not> is_active (state c) then (Inl (TransactionNotActive tx), m)
          else (case rollback_to_savepoint name c of
                  None \<Rightarrow> (Inl (SavepointNotFound name), m)
                | Some (ops, c') \<Rightarrow>
                    (Inr (List.map_filter rollback ops), update_ctx tx (\<lambda>_. c') m)))"

definition timed_out_ids :: "nat \<Rightarrow> 'j manager \<Rightarrow> string list" where
  "timed_out_ids now m =
     filter (\<lambda>i. case arena m i of None \<Rightarrow> False | Some c \<Rightarrow> is_timed_out now c \<and> is_active (state c)) (active m)"

definition time_out_one :: "nat \<Rightarrow> string \<Rightarrow> 'j manager \<Rightarrow> 'j manager" where
  "time_out_one now tx m =
     (case get_transaction tx m of
        Inl _ \<Rightarrow> m
      | Inr _ \<Rightarrow>
          let m1 = snd (abort_with_reason now now tx ''Transaction timed out''
                          (update_ctx tx (set_state TimedOut) m))
          in m1\<lparr>stats := (stats m1)\<lparr>total_timed_out := total_timed_out (stats m1) + 1\<rparr>\<rparr>)"

definition check_timeouts :: "nat \<Rightarrow> 'j manager \<Rightarrow> 'j manager" where
  "check_timeouts now m = fold (time_out_one now) (timed_out_ids now m) m"

definition active_count :: "'j manager \<Rightarrow> nat" where
  "active_count m = length (active m)"

definition active_transactions :: "nat \<Rightarrow> 'j manager \<Rightarrow> ctx_stats list" where
  "active_transactions now m = map (ctx_stats_of now) (List.map_filter (arena m) (active m))"

section \<open>Interleavings\<close>

text \<open>
  The clients of the manager, interleaved: a configuration is the manager, the serializable
  operations that wait for their lock (with the time their wait began) and the commits that wait for
  the commit lock. A lock attempt that succeeds and the write it enables are one step.
\<close>

type_synonym 'j tx_conf =
  "'j manager \<times> (string \<times> 'j multi_model_operation \<times> nat) list \<times> (string \<times> nat) list"

inductive tx_step :: "'j tx_conf \<Rightarrow> 'j tx_conf \<Rightarrow> bool" where
  step_begin: "arena m (''tx_'' @ uuid) = None \<Longrightarrow> tx_step (m, P, C) (snd (tx_begin uuid now lvl m), P, C)"
| step_nested: "arena m (''tx_'' @ par @ ''_'' @ uuid) = None \<Longrightarrow>
    tx_step (m, P, C) (snd (begin_nested uuid now par lvl m), P, C)"
| step_refused: "op_check now tx op m = (Inl e, m') \<Longrightarrow> tx_step (m, P, C) (m', P, C)"
| step_write: "op_check now tx op m = (Inr lvl, m') \<Longrightarrow> lvl \<noteq> Serializable \<Longrightarrow>
    tx_step (m, P, C) (snd (op_finish ts tx op m'), P, C)"
| step_queue: "op_check now tx op m = (Inr Serializable, m') \<Longrightarrow>
    tx_step (m, P, C) (m', (tx, op, now) # P, C)"
| step_granted: "(tx, op, start) \<in> set P \<Longrightarrow>
    lock_attempt start now tx (resource_of op) (lock_mode_for op) m = (LockOk l, m') \<Longrightarrow>
    tx_step (m, P, C) (snd (op_finish ts tx op m'), remove1 (tx, op, start) P, C)"
| step_failed: "(tx, op, start) \<in> set P \<Longrightarrow>
    lock_attempt start now tx (resource_of op) (lock_mode_for op) m = (LockFail e, m') \<Longrightarrow>
    tx_step (m, P, C) (m', remove1 (tx, op, start) P, C)"
| step_waits: "(tx, op, start) \<in> set P \<Longrightarrow>
    lock_attempt start now tx (resource_of op) (lock_mode_for op) m = (LockWait, m') \<Longrightarrow>
    tx_step (m, P, C) (m', P, C)"
| step_commit_early: "commit_check now tx m = (Some r, m') \<Longrightarrow> tx_step (m, P, C) (m', P, C)"
| step_commit_waits: "commit_check now tx m = (None, m') \<Longrightarrow> tx_step (m, P, C) (m', P, (tx, now) # C)"
| step_commit: "(tx, start) \<in> set C \<Longrightarrow>
    tx_step (m, P, C) (snd (commit_locked start now tx m), P, remove1 (tx, start) C)"
| step_abort: "tx_step (m, P, C) (snd (abort start now tx m), P, C)"
| step_timeouts: "tx_step (m, P, C) (check_timeouts now m, P, C)"
| step_read: "tx_step (m, P, C) (update_ctx tx (add_read k i v) m, P, C)"
| step_savepoint: "tx_step (m, P, C) (snd (mgr_savepoint tx name m), P, C)"
| step_rollback: "tx_step (m, P, C) (snd (mgr_rollback_to_savepoint tx name m), P, C)"

section \<open>Field lemmas\<close>

named_theorems mgr_simps \<open>fields of the manager after each operation\<close>

lemma update_ctx_fields [mgr_simps, simp]:
  "active (update_ctx tx f m) = active m" "lock_table (update_ctx tx f m) = lock_table m"
  "participants (update_ctx tx f m) = participants m" "config (update_ctx tx f m) = config m"
  "stats (update_ctx tx f m) = stats m" "history (update_ctx tx f m) = history m"
  "arena (update_ctx tx f m) i = (if i = tx then map_option f (arena m tx) else arena m i)"
  by (simp_all add: update_ctx_def)

lemma get_transaction_Inr: "get_transaction tx m = Inr c \<longleftrightarrow> tx \<in> set (active m) \<and> arena m tx = Some c"
  by (auto simp: get_transaction_def split: option.splits if_splits)

lemma get_transaction_Inl:
  "get_transaction tx m = Inl e \<longleftrightarrow> \<not> (tx \<in> set (active m) \<and> arena m tx \<noteq> None) \<and> e = TransactionNotFound tx"
  by (auto simp: get_transaction_def split: option.splits if_splits)

lemma get_transaction_frame:
  "active m' = active m \<Longrightarrow> arena m' tx = arena m tx \<Longrightarrow> get_transaction tx m' = get_transaction tx m"
  by (simp add: get_transaction_def)

lemma store_history_fields [mgr_simps, simp]:
  "active (store_history now tx m) = active m" "lock_table (store_history now tx m) = lock_table m"
  "participants (store_history now tx m) = participants m" "config (store_history now tx m) = config m"
  "stats (store_history now tx m) = stats m" "arena (store_history now tx m) = arena m"
  by (simp_all add: store_history_def Let_def split: sum.split)

lemma release_tx_locks_fields [mgr_simps, simp]:
  "active (release_tx_locks now tx m) = active m" "participants (release_tx_locks now tx m) = participants m"
  "config (release_tx_locks now tx m) = config m" "stats (release_tx_locks now tx m) = stats m"
  "i \<noteq> tx \<Longrightarrow> arena (release_tx_locks now tx m) i = arena m i"
  by (simp_all add: release_tx_locks_def Let_def release_locks_def split: sum.split)

lemma cleanup_fields [mgr_simps, simp]:
  "active (cleanup_transaction now tx m) = removeAll tx (active m)"
  "participants (cleanup_transaction now tx m) = (participants m)(tx := None)"
  "config (cleanup_transaction now tx m) = config m" "stats (cleanup_transaction now tx m) = stats m"
  "i \<noteq> tx \<Longrightarrow> arena (cleanup_transaction now tx m) i = arena m i"
  "arena (cleanup_transaction now tx m) = arena (release_tx_locks now tx m)"
  "lock_table (cleanup_transaction now tx m) = lock_table (release_tx_locks now tx m)"
  by (simp_all add: cleanup_transaction_def Let_def)

lemma release_tx_locks_table:
  "lock_table (release_tx_locks now tx m) =
     (case get_transaction tx m of
        Inl _ \<Rightarrow> lock_table m
      | Inr c \<Rightarrow> fold (release_one now tx) (locks c) (lock_table m))"
  by (simp add: release_tx_locks_def Let_def release_locks_def split: sum.split)

lemma release_tx_locks_arena:
  "arena (release_tx_locks now tx m) tx =
     (if tx \<in> set (active m) then map_option (\<lambda>c. c\<lparr>locks := []\<rparr>) (arena m tx) else arena m tx)"
  by (auto simp: release_tx_locks_def get_transaction_def Let_def release_locks_def split: option.split)

lemma record_vote_fields [mgr_simps, simp]:
  "active (record_vote tx s v m) = active m" "lock_table (record_vote tx s v m) = lock_table m"
  "arena (record_vote tx s v m) = arena m" "config (record_vote tx s v m) = config m"
  "stats (record_vote tx s v m) = stats m" "history (record_vote tx s v m) = history m"
  by (simp_all add: record_vote_def split: option.split)

lemma prepare_loop_eq:
  "prepare_loop tx ss ok m = (Inr ok, fold (\<lambda>s. record_vote tx s True) ss m)"
  by (induction ss arbitrary: m) (simp_all add: prepare_participant_def)

lemma fold_vote_fields [mgr_simps, simp]:
  "active (fold (\<lambda>s. record_vote tx s v) ss m) = active m"
  "lock_table (fold (\<lambda>s. record_vote tx s v) ss m) = lock_table m"
  "arena (fold (\<lambda>s. record_vote tx s v) ss m) = arena m"
  "config (fold (\<lambda>s. record_vote tx s v) ss m) = config m"
  "stats (fold (\<lambda>s. record_vote tx s v) ss m) = stats m"
  by (induction ss arbitrary: m) simp_all

lemma prepare_phase_eq:
  "prepare_phase tx m = (Inr True, fold (\<lambda>s. record_vote tx s True) (map fst (tx_participants tx m)) m)"
  by (simp add: prepare_phase_def prepare_loop_eq Let_def)

lemma each_participant_ok: "(\<And>s. f s = Inr ()) \<Longrightarrow> each_participant f ss = Inr ()"
  by (induction ss) simp_all

lemma phases_ok [simp]: "commit_phase tx m = Inr ()" "rollback_all_participants tx m = Inr ()"
  by (simp_all add: commit_phase_def rollback_all_participants_def each_participant_ok
      commit_participant_def rollback_participant_def)

lemma validate_loop_same:
  "\<exists>n. snd (validate_loop c tx ids m) = m\<lparr>stats := (stats m)\<lparr>total_conflicts := n\<rparr>\<rparr>"
  by (induction ids) (auto split: option.split intro: exI [of _ "total_conflicts (stats m)"])

text \<open>
  Every participant votes yes and no phase fails, so the part of \<open>commit\<close> under the commit lock always
  ends with the transaction committed.
\<close>

definition voted :: "string \<Rightarrow> 'j manager \<Rightarrow> 'j manager" where
  "voted tx m = fold (\<lambda>s. record_vote tx s True) (map fst (tx_participants tx m)) m"

lemma update_ctx_twice: "update_ctx tx f (update_ctx tx g m) = update_ctx tx (\<lambda>c. f (g c)) m"
  by (simp add: update_ctx_def map_option.compositionality comp_def)

lemma record_vote_update_ctx: "record_vote tx s v (update_ctx i f m) = update_ctx i f (record_vote tx s v m)"
  by (simp add: record_vote_def update_ctx_def split: option.split)

lemma fold_vote_update_ctx:
  "fold (\<lambda>s. record_vote tx s v) ss (update_ctx i f m) = update_ctx i f (fold (\<lambda>s. record_vote tx s v) ss m)"
  by (induction ss arbitrary: m) (simp_all add: record_vote_update_ctx)

lemma voted_fields [mgr_simps, simp]:
  "active (voted tx m) = active m" "lock_table (voted tx m) = lock_table m" "arena (voted tx m) = arena m"
  "config (voted tx m) = config m" "stats (voted tx m) = stats m"
  by (simp_all add: voted_def)

lemma set_state_twice [simp]: "set_state s (set_state s' c) = set_state s c"
  by (simp add: set_state_def)

lemma commit_locked_eq:
  "commit_locked start now tx m =
     (let m3 = update_ctx tx (set_state Committed) (voted tx m);
          m4 = cleanup_transaction now tx m3
      in (Inr (build_result tx True None start now m3),
          m4\<lparr>stats := (stats m4)\<lparr>total_committed := total_committed (stats m4) + 1,
                               current_active := length (active m4)\<rparr>\<rparr>))"
  by (simp add: commit_locked_def prepare_phase_eq Let_def fold_vote_update_ctx update_ctx_twice
      voted_def tx_participants_def)

section \<open>Mutual exclusion\<close>

definition owns :: "'j manager \<Rightarrow> string \<Rightarrow> string \<Rightarrow> bool" where
  "owns m a r \<longleftrightarrow> (case lock_table m r of None \<Rightarrow> False | Some e \<Rightarrow> lk_tx (entry_lock e) = a)"

definition excl_inv :: "'j manager \<Rightarrow> bool" where
  "excl_inv m \<longleftrightarrow> (\<forall>a c t. a \<in> set (active m) \<longrightarrow> arena m a = Some c \<longrightarrow> isolation c = Serializable \<longrightarrow>
     t \<in> set (operations (write_set c)) \<longrightarrow> owns m a (resource_of (operation t)))"

text \<open>
  \<open>shrinks m m'\<close>: the same configuration, nobody new is active, no context is forgotten, no active
  transaction has more operations, and the transactions that stay active, or were not, keep the locks they own.
\<close>

definition ctx_shrinks :: "'j tx_ctx \<Rightarrow> 'j tx_ctx \<Rightarrow> bool" where
  "ctx_shrinks c c' \<longleftrightarrow> isolation c' = isolation c \<and> parent c' = parent c \<and>
     set (operations (write_set c')) \<subseteq> set (operations (write_set c))"

definition shrinks :: "'j manager \<Rightarrow> 'j manager \<Rightarrow> bool" where
  "shrinks m m' \<longleftrightarrow> set (active m') \<subseteq> set (active m) \<and> dom (arena m) \<subseteq> dom (arena m') \<and> config m' = config m \<and>
     (\<forall>a c'. a \<in> set (active m') \<longrightarrow> arena m' a = Some c' \<longrightarrow> (\<exists>c. arena m a = Some c \<and> ctx_shrinks c c')) \<and>
     (\<forall>a r. a \<in> set (active m') \<or> a \<notin> set (active m) \<longrightarrow> owns m a r \<longrightarrow> owns m' a r)"

lemma ctx_shrinks_refl [simp]: "ctx_shrinks c c"
  by (simp add: ctx_shrinks_def)

lemma ctx_shrinks_trans: "ctx_shrinks a b \<Longrightarrow> ctx_shrinks b c \<Longrightarrow> ctx_shrinks a c"
  by (auto simp: ctx_shrinks_def)

lemma shrinks_active: "shrinks m m' \<Longrightarrow> set (active m') \<subseteq> set (active m)"
  by (simp add: shrinks_def)

lemma shrinks_dom: "shrinks m m' \<Longrightarrow> dom (arena m) \<subseteq> dom (arena m')"
  by (simp add: shrinks_def)

lemma shrinks_config: "shrinks m m' \<Longrightarrow> config m' = config m"
  by (simp add: shrinks_def)

lemma shrinks_owns:
  "shrinks m m' \<Longrightarrow> a \<in> set (active m') \<or> a \<notin> set (active m) \<Longrightarrow> owns m a r \<Longrightarrow> owns m' a r"
  unfolding shrinks_def by blast

lemma shrinks_ctx:
  "shrinks m m' \<Longrightarrow> a \<in> set (active m') \<Longrightarrow> arena m' a = Some c' \<Longrightarrow>
   \<exists>c. arena m a = Some c \<and> ctx_shrinks c c'"
  unfolding shrinks_def by blast

lemma shrinks_trans [trans]:
  assumes "shrinks a b" "shrinks b c"
  shows "shrinks a c"
proof -
  note act = shrinks_active [OF assms(1)] shrinks_active [OF assms(2)]
  have "\<exists>x. arena a i = Some x \<and> ctx_shrinks x z" if "i \<in> set (active c)" "arena c i = Some z" for i z
    using shrinks_ctx [OF assms(2) that] shrinks_ctx [OF assms(1), of i] act that(1)
    by (blast intro: ctx_shrinks_trans)
  moreover have "owns c i r" if "i \<in> set (active c) \<or> i \<notin> set (active a)" "owns a i r" for i r
    using shrinks_owns [OF assms(1), of i r] shrinks_owns [OF assms(2), of i r] act that by blast
  moreover have "config c = config a"
    using shrinks_config [OF assms(1)] shrinks_config [OF assms(2)] by simp
  ultimately show ?thesis
    using act shrinks_dom [OF assms(1)] shrinks_dom [OF assms(2)] unfolding shrinks_def by blast
qed

lemma shrinks_same:
  "active m' = active m \<Longrightarrow> arena m' = arena m \<Longrightarrow> lock_table m' = lock_table m \<Longrightarrow>
   config m' = config m \<Longrightarrow> shrinks m m'"
  by (simp add: shrinks_def owns_def)

lemma shrinks_refl [simp]: "shrinks m m"
  by (rule shrinks_same) simp_all

lemma excl_inv_shrinks: "excl_inv m \<Longrightarrow> shrinks m m' \<Longrightarrow> excl_inv m'"
  by (fastforce simp: excl_inv_def shrinks_def ctx_shrinks_def)

lemma shrinks_update_ctx:
  "(\<And>c. arena m tx = Some c \<Longrightarrow> ctx_shrinks c (f c)) \<Longrightarrow> shrinks m (update_ctx tx f m)"
  by (auto simp: shrinks_def owns_def dom_def split: if_splits)

lemma shrinks_set_state [simp]: "shrinks m (update_ctx tx (set_state s) m)"
  by (rule shrinks_update_ctx) (simp add: set_state_def ctx_shrinks_def)

lemma release_one_other:
  "tbl r = Some e \<Longrightarrow> lk_tx (entry_lock e) \<noteq> tx \<Longrightarrow> release_one now tx l tbl r = Some e"
  by (auto simp: release_one_def Let_def split: option.splits prod.splits)

lemma release_one_elsewhere: "lk_resource l \<noteq> r \<Longrightarrow> release_one now tx l tbl r = tbl r"
  by (simp add: release_one_def split: option.split prod.split)

lemma release_one_none: "tbl r = None \<Longrightarrow> release_one now tx l tbl r = None"
  by (auto simp: release_one_def Let_def split: option.split prod.split)

lemma fold_release_other:
  "tbl r = Some e \<Longrightarrow> lk_tx (entry_lock e) \<noteq> tx \<Longrightarrow> fold (release_one now tx) ls tbl r = Some e"
  by (induction ls arbitrary: tbl) (simp_all add: release_one_other)

lemma owns_cleanup:
  assumes "a \<noteq> tx \<or> a \<notin> set (active m)" "owns m a r"
  shows "owns (cleanup_transaction now tx m) a r"
proof -
  obtain e where e: "lock_table m r = Some e" "lk_tx (entry_lock e) = a"
    using assms(2) by (auto simp: owns_def split: option.splits)
  have "fold (release_one now tx) ls (lock_table m) r = Some e" if "tx \<in> set (active m)" for ls
    using e assms(1) that by (intro fold_release_other) auto
  with e show ?thesis
    by (auto simp: owns_def release_tx_locks_table get_transaction_Inr split: sum.split)
qed

lemma shrinks_cleanup [simp]: "shrinks m (cleanup_transaction now tx m)"
proof -
  have "\<exists>c. arena (cleanup_transaction now tx m) i = Some c" if "arena m i = Some c0" for i c0
    using that by (cases "i = tx") (simp_all add: release_tx_locks_arena)
  then show ?thesis
    by (auto simp: shrinks_def dom_def intro: owns_cleanup)
qed

end
