(* ===== verification/Tx_Locking.thy ===== *)
theory Tx_Locking
  imports Tx_Manager
begin

text \<open>
  What the lock table guarantees, and what it does not. Over all interleavings of the manager's clients
  (\<open>tx_step\<close>), two serializable transactions never both have operations on one resource. A lock request
  returns once its timeout has passed. A lock that is handed to a waiter, however, is not recorded by
  its new owner and is never released.
\<close>

section \<open>Every step keeps mutual exclusion\<close>

lemma shrinks_finish_abort: "shrinks m (snd (finish_abort start now tx why m))"
proof -
  have "shrinks (cleanup_transaction now tx m) (snd (finish_abort start now tx why m))"
    by (rule shrinks_same) (simp_all add: finish_abort_def Let_def)
  with shrinks_cleanup show ?thesis by (rule shrinks_trans)
qed

lemma shrinks_abort_with_reason: "shrinks m (snd (abort_with_reason start now tx why m))"
proof (cases "get_transaction tx m")
  case (Inl e)
  then show ?thesis
    by (simp add: abort_with_reason_def shrinks_finish_abort)
next
  case (Inr c)
  let ?m1 = "update_ctx tx (set_state RollingBack) m"
  let ?m2 = "update_ctx tx (set_state Aborted) ?m1"
  have "shrinks m ?m1" "shrinks ?m1 ?m2"
    by simp_all
  then have "shrinks m (snd (finish_abort start now tx why ?m2))"
    using shrinks_finish_abort shrinks_trans by blast
  with Inr show ?thesis
    by (simp add: abort_with_reason_def shrinks_finish_abort Let_def)
qed

lemma shrinks_time_out_one: "shrinks m (time_out_one now tx m)"
proof (cases "get_transaction tx m")
  case (Inr c)
  let ?m1 = "update_ctx tx (set_state TimedOut) m"
  let ?m2 = "snd (abort_with_reason now now tx ''Transaction timed out'' ?m1)"
  have "shrinks m ?m1" "shrinks ?m1 ?m2" "shrinks ?m2 (time_out_one now tx m)"
    using Inr by (simp_all add: shrinks_abort_with_reason time_out_one_def shrinks_same Let_def)
  then show ?thesis
    by (blast intro: shrinks_trans)
qed (simp add: time_out_one_def)

lemma shrinks_check_timeouts: "shrinks m (check_timeouts now m)"
proof -
  have "shrinks m (fold (time_out_one now) ids m)" for ids
    by (induction ids arbitrary: m) (auto intro: shrinks_trans shrinks_time_out_one)
  then show ?thesis
    by (simp add: check_timeouts_def)
qed

lemma shrinks_commit_locked: "shrinks m (snd (commit_locked start now tx m))"
proof -
  let ?m3 = "update_ctx tx (set_state Committed) (voted tx m)"
  have "shrinks m (voted tx m)" "shrinks (voted tx m) ?m3" "shrinks ?m3 (cleanup_transaction now tx ?m3)"
    by (simp_all add: shrinks_same)
  moreover have "shrinks (cleanup_transaction now tx ?m3) (snd (commit_locked start now tx m))"
    by (rule shrinks_same) (simp_all add: commit_locked_eq Let_def)
  ultimately show ?thesis
    by (blast intro: shrinks_trans)
qed

lemma shrinks_validate: "shrinks m (snd (validate_transaction tx m))"
proof (cases "get_transaction tx m")
  case (Inr c)
  obtain n where "snd (validate_loop c tx (active m) m) = m\<lparr>stats := (stats m)\<lparr>total_conflicts := n\<rparr>\<rparr>"
    using validate_loop_same by blast
  with Inr show ?thesis
    by (simp add: validate_transaction_def shrinks_same)
qed (simp add: validate_transaction_def)

lemma shrinks_commit_check: "shrinks m (snd (commit_check start tx m))"
proof (cases "get_transaction tx m")
  case (Inr c)
  obtain r m1 where v: "validate_transaction tx m = (r, m1)"
    by (cases "validate_transaction tx m")
  have "shrinks m m1"
    using shrinks_validate [of m tx] v by simp
  then have "shrinks m (snd (abort_with_reason start start tx why m1))" for why
    using shrinks_abort_with_reason shrinks_trans by blast
  with Inr v \<open>shrinks m m1\<close> show ?thesis
    by (cases r) (simp_all add: commit_check_def shrinks_abort_with_reason split_beta)
qed (simp add: commit_check_def)

lemma shrinks_op_check: "shrinks m (snd (op_check now tx op m))"
proof (cases "get_transaction tx m")
  case (Inr c)
  have "shrinks m (cleanup_transaction now tx (update_ctx tx (set_state TimedOut) m))"
    by (rule shrinks_trans [OF shrinks_set_state shrinks_cleanup])
  moreover have "shrinks m (register_participant tx (model_type op) m)"
    by (rule shrinks_same) (simp_all add: register_participant_def Let_def)
  ultimately show ?thesis
    using Inr by (simp add: op_check_def)
qed (simp add: op_check_def)

lemma shrinks_savepoint: "shrinks m (snd (mgr_savepoint tx name m))"
proof -
  have "shrinks m (update_ctx tx (savepoint name) m)"
    by (rule shrinks_update_ctx) (simp add: savepoint_def ctx_shrinks_def)
  then show ?thesis
    by (simp add: mgr_savepoint_def split: sum.split)
qed

lemma shrinks_rollback: "shrinks m (snd (mgr_rollback_to_savepoint tx name m))"
proof (cases "get_transaction tx m")
  case (Inr c)
  have "shrinks m (update_ctx tx (\<lambda>_. c') m)" if rb: "rollback_to_savepoint name c = Some (ops, c')" for ops c'
  proof (rule shrinks_update_ctx)
    fix c0 assume "arena m tx = Some c0"
    with Inr have "c0 = c"
      by (simp add: get_transaction_Inr)
    with rb set_fold_write_all [where ws = write_set_default] show "ctx_shrinks c0 c'"
      by (fastforce simp: rollback_to_savepoint_eq ctx_shrinks_def write_set_default_def)
  qed
  with Inr show ?thesis
    by (auto simp: mgr_rollback_to_savepoint_def split: option.split)
qed (simp add: mgr_rollback_to_savepoint_def)

lemma shrinks_hold: "shrinks m (update_ctx tx (\<lambda>c. snd (ctx_acquire_lock now r mode c)) m)"
  by (rule shrinks_update_ctx) (simp add: ctx_acquire_lock_def ctx_shrinks_def Let_def)

lemma shrinks_table:
  assumes "\<And>a. owns m a r \<Longrightarrow> lk_tx (entry_lock e) = a"
  shows "shrinks m (m\<lparr>lock_table := (lock_table m)(r \<mapsto> e)\<rparr>)"
  using assms by (auto simp: shrinks_def owns_def)

lemma push_waiter_lock [simp]: "entry_lock (push_waiter tx mode now e) = entry_lock e"
  by (simp add: push_waiter_def)

text \<open>An exclusive attempt: refused, put in the queue, granted again to the owner, or granted afresh.\<close>

lemma lock_attempt_cases:
  obtains (timeout) "lock_attempt start now tx r Exclusive m = (LockFail (LockTimeout r), m)"
  | (wait) e where "lock_table m r = Some e"
      "lock_attempt start now tx r Exclusive m =
         (LockWait, m\<lparr>lock_table := (lock_table m)(r \<mapsto> push_waiter tx Exclusive now e)\<rparr>)"
  | (own) e e' where "lock_table m r = Some e" "lk_tx (entry_lock e) = tx" "lk_tx (entry_lock e') = tx"
      "lock_attempt start now tx r Exclusive m =
         (LockOk (entry_lock e'), m\<lparr>lock_table := (lock_table m)(r \<mapsto> e')\<rparr>)"
  | (fresh) l where "lock_table m r = None" "lk_tx l = tx"
      "lock_attempt start now tx r Exclusive m =
         (LockOk l, (update_ctx tx (\<lambda>c. snd (ctx_acquire_lock now r Exclusive c)) m)
            \<lparr>lock_table := (lock_table m)(r \<mapsto> \<lparr>entry_lock = l, waiters = []\<rparr>)\<rparr>)"
proof (cases "lock_wait_timeout (config m) < now - start")
  case True
  then show ?thesis
    by (intro timeout) (simp add: lock_attempt_def)
next
  case live: False
  show ?thesis
  proof (cases "lock_table m r")
    case None
    then show ?thesis
      using live by (intro fresh) (simp_all add: lock_attempt_def Let_def)
  next
    case (Some e)
    consider "lk_tx (entry_lock e) \<noteq> tx"
      | "lk_tx (entry_lock e) = tx" "lk_mode (entry_lock e) = Shared" "waiters e \<noteq> []"
      | "lk_tx (entry_lock e) = tx" "lk_mode (entry_lock e) = Shared" "waiters e = []"
      | "lk_tx (entry_lock e) = tx" "lk_mode (entry_lock e) \<noteq> Shared"
      by blast
    then show ?thesis
    proof cases
      case 1
      with Some live show ?thesis
        by (intro wait [OF Some]) (simp add: lock_attempt_def detect_deadlock_def Let_def)
    next
      case 2
      with Some live show ?thesis
        by (intro wait [OF Some]) (simp add: lock_attempt_def Let_def)
    next
      case 3
      with Some live show ?thesis
        by (intro own [OF Some, of "e\<lparr>entry_lock := (entry_lock e)\<lparr>lk_mode := Exclusive\<rparr>\<rparr>"])
          (simp_all add: lock_attempt_def Let_def)
    next
      case 4
      with Some live show ?thesis
        by (intro own [OF Some, of e]) (simp_all add: lock_attempt_def Let_def fun_upd_idem)
    qed
  qed
qed

lemma shrinks_lock_attempt: "shrinks m (snd (lock_attempt start now tx r Exclusive m))"
proof (cases rule: lock_attempt_cases [of start now tx r m])
  case timeout
  then show ?thesis by simp
next
  case (wait e)
  then show ?thesis by (auto simp: owns_def intro!: shrinks_table)
next
  case (own e e')
  then show ?thesis by (auto simp: owns_def intro!: shrinks_table)
next
  case (fresh l)
  let ?m1 = "update_ctx tx (\<lambda>c. snd (ctx_acquire_lock now r Exclusive c)) m"
  have "shrinks ?m1 (?m1\<lparr>lock_table := (lock_table ?m1)(r \<mapsto> \<lparr>entry_lock = l, waiters = []\<rparr>)\<rparr>)"
    using fresh(1) by (intro shrinks_table) (simp add: owns_def)
  with shrinks_hold have "shrinks m (?m1\<lparr>lock_table := (lock_table ?m1)(r \<mapsto> \<lparr>entry_lock = l, waiters = []\<rparr>)\<rparr>)"
    by (rule shrinks_trans)
  then show ?thesis
    using fresh(3) by simp
qed

lemma lock_attempt_owns:
  assumes "lock_attempt start now tx r Exclusive m = (LockOk l, m')"
  shows "owns m' tx r"
  using assms by (cases rule: lock_attempt_cases [of start now tx r m]) (auto simp: owns_def)

lemma excl_inv_op_finish:
  assumes "excl_inv m" and "\<And>c. arena m tx = Some c \<Longrightarrow> isolation c = Serializable \<Longrightarrow> owns m tx (resource_of op)"
  shows "excl_inv (snd (op_finish ts tx op m))"
  using assms
  by (auto simp: excl_inv_def op_finish_def owns_def add_write_def Let_def tx_operation_new_def split: if_splits)

lemma excl_inv_register:
  "excl_inv m \<Longrightarrow> operations (write_set c) = [] \<Longrightarrow> excl_inv (register c m)"
  by (auto simp: excl_inv_def register_def owns_def)

lemma excl_inv_stats [simp]: "excl_inv (m\<lparr>stats := st\<rparr>) = excl_inv m"
  by (simp add: excl_inv_def owns_def)

lemma excl_inv_begin: "excl_inv m \<Longrightarrow> excl_inv (snd (tx_begin uuid now lvl m))"
proof -
  assume "excl_inv m"
  then have reg: "excl_inv (register (ctx_new now i l t) m)" for i l t
    by (rule excl_inv_register) (simp add: ctx_new_def write_set_default_def)
  show ?thesis
    by (simp add: tx_begin_def Let_def \<open>excl_inv m\<close> reg)
qed

lemma excl_inv_nested: "excl_inv m \<Longrightarrow> excl_inv (snd (begin_nested uuid now par lvl m))"
proof -
  assume inv: "excl_inv m"
  have "shrinks m (update_ctx par (add_child i) m)" for i
    by (rule shrinks_update_ctx) (simp add: add_child_def ctx_shrinks_def)
  then have "excl_inv (update_ctx par (add_child i) m)" for i
    using inv excl_inv_shrinks by blast
  then have "excl_inv (register (ctx_new_nested now i par l t) (update_ctx par (add_child j) m))" for i l t j
    by (intro excl_inv_register) (simp_all add: ctx_new_nested_def ctx_new_def write_set_default_def)
  with inv show ?thesis
    by (simp add: begin_nested_def Let_def split: sum.split)
qed

lemma op_check_Inr:
  assumes "op_check now tx op m = (Inr lvl, m')"
  shows "\<exists>c. arena m tx = Some c \<and> isolation c = lvl" "arena m' = arena m"
  using assms
  by (auto simp: op_check_def get_transaction_Inr register_participant_def Let_def
      split: sum.splits if_splits)

lemma lock_mode_for_Exclusive [simp]: "lock_mode_for op = Exclusive"
  by (simp add: lock_mode_for_def)

lemma shrinks_add_read: "shrinks m (update_ctx tx (add_read k i v) m)"
  by (rule shrinks_update_ctx) (simp add: add_read_def ctx_shrinks_def)

text \<open>
  A step of any client begins a transaction, begins a nested one, adds an operation (whose lock a
  serializable transaction owns by then), or only shrinks the manager.
\<close>

lemma step_kinds:
  assumes "tx_step x y"
  obtains (fresh) uuid now lvl where "fst y = snd (tx_begin uuid now lvl (fst x))"
  | (nested) uuid now par lvl where "fst y = snd (begin_nested uuid now par lvl (fst x))"
  | (finish) ts tx op m1 where "shrinks (fst x) m1" "fst y = snd (op_finish ts tx op m1)"
      "\<And>c. arena m1 tx = Some c \<Longrightarrow> isolation c = Serializable \<Longrightarrow> owns m1 tx (resource_of op)"
  | (quiet) "shrinks (fst x) (fst y)"
  using assms
proof cases
  case (step_begin m uuid P C now lvl)
  then show ?thesis by (intro fresh) simp
next
  case (step_nested m par uuid P C now lvl)
  then show ?thesis by (intro nested) simp
next
  case (step_refused now tx op m e m' P C)
  then show ?thesis using shrinks_op_check [of m now tx op] by (intro quiet) simp
next
  case (step_write now tx op m lvl m' P C ts)
  then show ?thesis
    using shrinks_op_check [of m now tx op] op_check_Inr [OF step_write(3)] by (intro finish) auto
next
  case (step_queue now tx op m m' P C)
  then show ?thesis using shrinks_op_check [of m now tx op] by (intro quiet) simp
next
  case (step_granted tx op start P now m l m' C ts)
  then show ?thesis
    using shrinks_lock_attempt [of m start now tx "resource_of op"] lock_attempt_owns by (intro finish) auto
next
  case (step_failed tx op start P now m e m' C)
  then show ?thesis using shrinks_lock_attempt [of m start now tx "resource_of op"] by (intro quiet) simp
next
  case (step_waits tx op start P now m m' C)
  then show ?thesis using shrinks_lock_attempt [of m start now tx "resource_of op"] by (intro quiet) simp
next
  case (step_commit_early now tx m r m' P C)
  then show ?thesis using shrinks_commit_check [of m now tx] by (intro quiet) simp
next
  case (step_commit_waits now tx m m' P C)
  then show ?thesis using shrinks_commit_check [of m now tx] by (intro quiet) simp
qed (auto intro: quiet simp: abort_def shrinks_commit_locked shrinks_abort_with_reason
    shrinks_check_timeouts shrinks_add_read shrinks_savepoint shrinks_rollback)

lemma excl_inv_step:
  assumes "tx_step x y" "excl_inv (fst x)"
  shows "excl_inv (fst y)"
  using assms(1)
proof (cases rule: step_kinds)
  case (finish ts tx op m1)
  then show ?thesis
    using assms(2) excl_inv_shrinks excl_inv_op_finish by metis
qed (use assms(2) in \<open>auto intro: excl_inv_begin excl_inv_nested excl_inv_shrinks\<close>)

lemma excl_inv_run: "tx_step\<^sup>*\<^sup>* x y \<Longrightarrow> excl_inv (fst x) \<Longrightarrow> excl_inv (fst y)"
  by (induction rule: rtranclp_induct) (auto intro: excl_inv_step)

text \<open>
  C10: mutual exclusion. Run any number of clients against a new manager, in any interleaving of begins,
  reads, operations waiting for locks, commits waiting for the commit lock, aborts, timeouts and
  savepoint rollbacks. If an active serializable transaction has an operation in its write set, it
  owns the lock of that operation's resource, and every active serializable transaction with an
  operation on the same resource is this one.
\<close>

theorem serializable_exclusion:
  assumes "tx_step\<^sup>*\<^sup>* (manager_new conf, [], []) (m, P, C)"
    and "a \<in> set (active m)" and "arena m a = Some c" and "isolation c = Serializable"
    and "t \<in> set (operations (write_set c))"
  shows "owns m a (resource_of (operation t)) \<and>
    (\<forall>b c' t'. b \<in> set (active m) \<and> arena m b = Some c' \<and> isolation c' = Serializable \<and>
       t' \<in> set (operations (write_set c')) \<and> resource_of (operation t') = resource_of (operation t) \<longrightarrow> b = a)"
proof -
  have "excl_inv m"
    using excl_inv_run [OF assms(1)] by (simp add: excl_inv_def manager_new_def)
  then have own: "owns m b (resource_of (operation t'))"
    if "b \<in> set (active m)" "arena m b = Some c'" "isolation c' = Serializable"
      "t' \<in> set (operations (write_set c'))" for b c' t'
    using that unfolding excl_inv_def by blast
  have "b = a" if "owns m b r" "owns m a r" for b r
    using that by (auto simp: owns_def split: option.splits)
  with own [OF assms(2-5)] own show ?thesis
    by metis
qed

text \<open>Two serializable transactions for the witnesses; the first has written the collection \<open>v\<close>.\<close>

definition sample_two :: "unit manager" where
  "sample_two = snd (tx_begin ''2'' 0 (Some Serializable)
     (snd (tx_begin ''1'' 0 (Some Serializable) (manager_new tx_config_default))))"

definition sample_locked :: "unit manager" where
  "sample_locked = snd (lock_attempt 0 0 ''tx_1'' ''vector:v'' Exclusive
     (snd (op_check 0 ''tx_1'' (sample_vec ''v'' [''a'']) sample_two)))"

definition sample_written :: "unit manager" where
  "sample_written = snd (op_finish 0 ''tx_1'' (sample_vec ''v'' [''a'']) sample_locked)"

lemmas mgr_eval = tx_begin_def manager_new_def tx_config_default_def register_def ctx_new_def
  op_check_def get_transaction_def register_participant_def tx_participants_def participant_new_def
  lock_attempt_def ctx_acquire_lock_def op_finish_def add_write_def update_ctx_def is_active_def
  is_timed_out_def sample_vec_def write_set_default_def tx_operation_new_def write_all_def
  write_set_add_def entry_add_def entry_ids_def Let_def

lemma sample_two_fields:
  "active sample_two = [''tx_2'', ''tx_1'']" "lock_table sample_two = Map.empty"
  "arena sample_two = [''tx_1'' \<mapsto> ctx_new 0 ''tx_1'' Serializable 30000000000,
                       ''tx_2'' \<mapsto> ctx_new 0 ''tx_2'' Serializable 30000000000]"
  "config sample_two = tx_config_default"
  by (simp_all add: sample_two_def mgr_eval)

lemma sample_locked_fields:
  "active sample_locked = [''tx_2'', ''tx_1'']"
  "lock_table sample_locked = [''vector:v'' \<mapsto> \<lparr>entry_lock = \<lparr>lk_tx = ''tx_1'', lk_resource = ''vector:v'',
     lk_mode = Exclusive, acquired_at = 0\<rparr>, waiters = []\<rparr>]"
  "map_option isolation (arena sample_locked ''tx_1'') = Some Serializable"
  "map_option (\<lambda>c. operations (write_set c)) (arena sample_locked ''tx_1'') = Some []"
  "map_option (\<lambda>c. map lk_resource (locks c)) (arena sample_locked ''tx_1'') = Some [''vector:v'']"
  "op_check 0 ''tx_1'' (sample_vec ''v'' [''a'']) sample_two =
     (Inr Serializable, snd (op_check 0 ''tx_1'' (sample_vec ''v'' [''a'']) sample_two))"
  "\<exists>l. lock_attempt 0 0 ''tx_1'' ''vector:v'' Exclusive
     (snd (op_check 0 ''tx_1'' (sample_vec ''v'' [''a'']) sample_two)) = (LockOk l, sample_locked)"
  by (simp_all add: sample_locked_def sample_two_def mgr_eval)

lemma sample_run:
  "tx_step\<^sup>*\<^sup>* (manager_new tx_config_default, [], []) (sample_written, [], [])"
proof -
  let ?op = "sample_vec ''v'' [''a'']"
  let ?m1 = "snd (tx_begin ''1'' 0 (Some Serializable) (manager_new tx_config_default)) :: unit manager"
  let ?m2 = "snd (op_check 0 ''tx_1'' ?op sample_two)"
  have "tx_step (manager_new tx_config_default, [], []) (?m1, [], [])"
    by (rule step_begin) (simp add: manager_new_def)
  moreover have "tx_step (?m1, [], []) (sample_two, [], [])"
    unfolding sample_two_def by (rule step_begin) (simp add: mgr_eval)
  moreover have "tx_step (sample_two, [], []) (?m2, [(''tx_1'', ?op, 0)], [])"
    by (rule step_queue) (rule sample_locked_fields(6))
  moreover have "tx_step (?m2, [(''tx_1'', ?op, 0)], []) (sample_written, [], [])"
  proof -
    obtain l where l: "lock_attempt 0 0 ''tx_1'' ''vector:v'' Exclusive ?m2 = (LockOk l, sample_locked)"
      using sample_locked_fields(7) by blast
    have "resource_of ?op = ''vector:v''"
      by (simp add: resource_of_def sample_vec_def)
    with l show ?thesis
      using step_granted [of "''tx_1''" ?op 0 "[(''tx_1'', ?op, 0)]" 0 ?m2 l sample_locked "[]" 0]
      by (simp add: sample_written_def)
  qed
  ultimately show ?thesis
    by (meson converse_rtranclp_into_rtranclp rtranclp.rtrancl_refl)
qed

theorem serializable_exclusion_witness:
  "owns sample_written ''tx_1'' ''vector:v'' \<and>
   (\<exists>c. arena sample_written ''tx_1'' = Some c \<and> length (operations (write_set c)) = 1)"
proof -
  have "\<exists>c t. arena sample_written ''tx_1'' = Some c \<and> isolation c = Serializable \<and>
      operations (write_set c) = [t] \<and> resource_of (operation t) = ''vector:v''"
    using sample_locked_fields(3,4)
    by (auto simp: sample_written_def op_finish_def update_ctx_def add_write_def Let_def
        sample_vec_def tx_operation_new_def resource_of_def write_all_def write_set_add_def)
  then obtain c t where c: "arena sample_written ''tx_1'' = Some c" "isolation c = Serializable"
    "operations (write_set c) = [t]" "resource_of (operation t) = ''vector:v''"
    by blast
  have "''tx_1'' \<in> set (active sample_written)"
    using sample_locked_fields(1) by (simp add: sample_written_def op_finish_def)
  with c show ?thesis
    using serializable_exclusion [OF sample_run, of "''tx_1''" c t] by simp
qed

lemma lock_attempt_config: "config (snd (lock_attempt start now tx r mode m)) = config m"
  by (simp add: lock_attempt_def Let_def split: option.split)

lemma lock_attempt_other: "i \<noteq> tx \<Longrightarrow> arena (snd (lock_attempt start now tx r mode m)) i = arena m i"
  by (simp add: lock_attempt_def Let_def split: option.split)

lemma op_check_fields:
  "op_check now tx op m = (Inr lvl, m') \<Longrightarrow> config m' = config m \<and> arena m' = arena m"
  by (auto simp: op_check_def register_participant_def Let_def split: sum.splits if_splits)

lemma sample_written_fields:
  "config sample_written = tx_config_default" "i \<noteq> ''tx_1'' \<Longrightarrow> arena sample_written i = arena sample_two i"
  "active sample_written = [''tx_2'', ''tx_1'']" "lock_table sample_written = lock_table sample_locked"
  using op_check_fields [OF sample_locked_fields(6)] sample_locked_fields(1) sample_two_fields(4)
  by (simp_all add: sample_written_def op_finish_def sample_locked_def lock_attempt_config lock_attempt_other)

end
