(* ===== verification/Tx_Waiting.thy ===== *)
theory Tx_Waiting
  imports Tx_Locking
begin

text \<open>
  What a lock request of the transaction manager gets. The loop of \<open>acquire_lock\<close> returns: with the lock,
  or with a timeout at the latest when \<open>lock_wait_timeout\<close> has passed. A lock that is handed to a waiter
  by the cleanup of its owner, however, is not recorded in the waiter's context, so the waiter's own
  cleanup does not release it, and no other transaction ever gets it again.
\<close>

section \<open>Lock requests return\<close>

lemma lock_attempt_LockOk:
  "lock_attempt start now tx r mode m = (LockOk l, m') \<Longrightarrow> lk_tx l = tx"
  by (auto simp: lock_attempt_def detect_deadlock_def Let_def split: option.splits if_splits)

lemma lock_attempt_LockFail:
  "lock_attempt start now tx r mode m = (LockFail e, m') \<Longrightarrow> e = LockTimeout r"
  by (auto simp: lock_attempt_def detect_deadlock_def Let_def split: option.splits if_splits)

lemma lock_attempt_late:
  "lock_wait_timeout (config m) < now - start \<Longrightarrow>
   lock_attempt start now tx r mode m = (LockFail (LockTimeout r), m)"
  by (simp add: lock_attempt_def)

definition lock_answer :: "string \<Rightarrow> string \<Rightarrow> tx_error + lock \<Rightarrow> bool" where
  "lock_answer tx r a = (case a of Inl e \<Rightarrow> e = LockTimeout r | Inr l \<Rightarrow> lk_tx l = tx)"

lemma lock_loop_returns:
  assumes "\<forall>(t, f) \<in> set sched. \<forall>m. config (f m) = config m"
    and "\<exists>(t, f) \<in> set sched. lock_wait_timeout (config m) < t - start"
  shows "\<exists>a. fst (lock_loop start sched tx r mode m) = Some a \<and> lock_answer tx r a"
  using assms
proof (induction sched arbitrary: m)
  case (Cons x sched)
  obtain t f where x: "x = (t, f)"
    by (cases x)
  obtain res m1 where at: "lock_attempt start t tx r mode (f m) = (res, m1)"
    by (cases "lock_attempt start t tx r mode (f m)")
  have conf: "config (f m) = config m" "config m1 = config m"
    using Cons.prems(1) lock_attempt_config [of start t tx r mode "f m"] at by (auto simp: x)
  show ?case
  proof (cases res)
    case (LockOk l)
    then show ?thesis
      using at lock_attempt_LockOk [of start t tx r mode "f m" l m1] by (simp add: x lock_answer_def)
  next
    case (LockFail e)
    then show ?thesis
      using at lock_attempt_LockFail [of start t tx r mode "f m" e m1] by (simp add: x lock_answer_def)
  next
    case LockWait
    then have "\<not> lock_wait_timeout (config m) < t - start"
      using at lock_attempt_late [of "f m" t start tx r mode] conf by auto
    then have "\<exists>(t, f) \<in> set sched. lock_wait_timeout (config m1) < t - start"
      using Cons.prems(2) conf by (auto simp: x)
    then show ?thesis
      using Cons.IH [of m1] Cons.prems(1) at LockWait by (auto simp: x)
  qed
qed simp

text \<open>
  C17: a lock request returns. The loop sleeps ten milliseconds between two attempts, so the attempt
  number \<open>k\<close> is made no earlier than \<open>k\<close> times that after the start. Whatever the other threads do
  meanwhile, after \<open>lock_wait_timeout / 10ms + 2\<close> attempts the request has returned: with a lock in its
  own name, or with the timeout of this resource, or, when the transaction is unknown, with that
  error. A deadlock is never reported.
\<close>

theorem acquire_lock_returns:
  assumes "\<forall>(t, f) \<in> set sched. \<forall>m. config (f m) = config m"
    and "\<forall>k < length sched. start + k * 10000000 \<le> fst (sched ! k)"
    and "lock_wait_timeout (config m) div 10000000 + 2 \<le> length sched"
  shows "\<exists>a. fst (acquire_lock start sched tx r mode m) = Some a \<and>
    (case a of Inr l \<Rightarrow> lk_tx l = tx | Inl e \<Rightarrow> e = LockTimeout r \<or> get_transaction tx m = Inl e)"
proof (cases "get_transaction tx m")
  case (Inl e)
  then show ?thesis
    by (simp add: acquire_lock_def)
next
  case (Inr c)
  let ?k = "lock_wait_timeout (config m) div 10000000 + 1"
  have k: "?k < length sched"
    using assms(3) by simp
  have "start + ?k * 10000000 \<le> fst (sched ! ?k)"
    using assms(2) k by blast
  moreover have "lock_wait_timeout (config m) < ?k * 10000000"
    using dividend_less_div_times [of 10000000 "lock_wait_timeout (config m)"] by simp
  ultimately have "lock_wait_timeout (config m) < fst (sched ! ?k) - start"
    by simp
  then have "\<exists>(t, f) \<in> set sched. lock_wait_timeout (config m) < t - start"
    using nth_mem [OF k] by (force simp: case_prod_beta)
  from lock_loop_returns [OF assms(1) this, of tx r mode] Inr show ?thesis
    by (auto simp: acquire_lock_def lock_answer_def split: sum.splits)
qed

text \<open>The default timeout is five seconds: a request that keeps meeting a foreign exclusive lock.\<close>

theorem acquire_lock_returns_witness:
  "\<exists>a. fst (acquire_lock 0 (map (\<lambda>k. (k * 10000000, id)) [0..<502]) ''tx_2'' ''vector:v'' Exclusive sample_written) =
     Some a \<and> (case a of Inr l \<Rightarrow> lk_tx l = ''tx_2''
       | Inl e \<Rightarrow> e = LockTimeout ''vector:v'' \<or> get_transaction ''tx_2'' sample_written = Inl e)"
proof -
  show ?thesis
    using acquire_lock_returns [of "map (\<lambda>k. (k * 10000000, id)) [0..<502]" 0 sample_written "''tx_2''" "''vector:v''" Exclusive]
    by (auto simp: sample_written_fields tx_config_default_def)
qed

section \<open>A lock that is handed over leaks\<close>

text \<open>The lock of \<open>r\<close> is owned by \<open>w\<close>, which has ended and has no request under way.\<close>

definition stuck :: "string \<Rightarrow> string \<Rightarrow> 'j tx_conf \<Rightarrow> bool" where
  "stuck w r x \<longleftrightarrow> (case x of (m, P, C) \<Rightarrow>
     owns m w r \<and> w \<notin> set (active m) \<and> arena m w \<noteq> None \<and> w \<notin> fst ` set P)"

lemma stuck_pending: "stuck w r (m, P, C) \<Longrightarrow> set P' \<subseteq> set P \<Longrightarrow> w \<notin> fst ` set P'"
  by (auto simp: stuck_def)

lemma stuck_shrinks:
  assumes "stuck w r (m, P, C)" "shrinks m m'" "w \<notin> fst ` set P'"
  shows "stuck w r (m', P', C')"
  using assms shrinks_active [OF assms(2)] shrinks_owns [OF assms(2), of w r] shrinks_dom [OF assms(2)]
  by (auto simp: stuck_def dom_def)

lemma stuck_quiet: "stuck w r (m, P, C) \<Longrightarrow> shrinks m m' \<Longrightarrow> stuck w r (m', P, C')"
  using stuck_shrinks stuck_pending subset_refl by blast

lemma stuck_op_finish:
  "stuck w r (m, P, C) \<Longrightarrow> stuck w r (snd (op_finish ts tx op m), P, C)"
  by (auto simp: stuck_def op_finish_def owns_def)

lemma stuck_register:
  "stuck w r (m, P, C) \<Longrightarrow> arena m (ctx_id c) = None \<Longrightarrow> stuck w r ((register c m)\<lparr>stats := s\<rparr>, P, C)"
  by (auto simp: stuck_def register_def owns_def)

lemma stuck_begin:
  "stuck w r (m, P, C) \<Longrightarrow> arena m (''tx_'' @ uuid) = None \<Longrightarrow>
   stuck w r (snd (tx_begin uuid now lvl m), P, C)"
  by (auto simp: tx_begin_def Let_def ctx_new_def intro!: stuck_register)

lemma stuck_nested:
  assumes "stuck w r (m, P, C)" "arena m (''tx_'' @ par @ ''_'' @ uuid) = None"
  shows "stuck w r (snd (begin_nested uuid now par lvl m), P, C)"
proof -
  have "stuck w r (update_ctx par f m, P, C)" for f
    using assms(1) by (auto simp: stuck_def owns_def)
  with assms show ?thesis
    by (auto simp: begin_nested_def Let_def ctx_new_nested_def ctx_new_def intro!: stuck_register
        split: sum.split)
qed

lemma stuck_commit_check:
  assumes "commit_check now tx m = (q, m')" "stuck w r (m, P, C)"
  shows "stuck w r (m', P, C')"
proof (rule stuck_shrinks [OF assms(2)])
  show "shrinks m m'"
    using shrinks_commit_check [of m now tx] assms(1) by simp
qed (rule stuck_pending [OF assms(2) subset_refl])

lemma stuck_lock_attempt:
  assumes "lock_attempt start now tx (resource_of op) (lock_mode_for op) m = (q, m')"
    and "stuck w r (m, P, C)" "set P' \<subseteq> set P"
  shows "stuck w r (m', P', C)"
proof (rule stuck_shrinks [OF assms(2)])
  show "shrinks m m'"
    using shrinks_lock_attempt [of m start now tx "resource_of op"] assms(1) by simp
qed (rule stuck_pending [OF assms(2,3)])

lemma op_check_active: "op_check now tx op m = (Inr lvl, m') \<Longrightarrow> tx \<in> set (active m)"
  by (auto simp: op_check_def get_transaction_Inr split: sum.splits if_splits)

lemma stuck_op_check:
  assumes "op_check now tx op m = (q, m')" "stuck w r (m, P, C)" "w \<notin> fst ` set P'"
  shows "stuck w r (m', P', C)"
  using assms shrinks_op_check [of m now tx op] by (auto intro: stuck_shrinks)

lemma stuck_step: "tx_step x y \<Longrightarrow> stuck w r x \<Longrightarrow> stuck w r y"
proof (induction rule: tx_step.induct)
  case (step_queue now tx op m m' P C)
  then have "w \<noteq> tx"
    by (auto simp: stuck_def dest: op_check_active)
  with stuck_pending [OF step_queue(2) subset_refl] show ?case
    by (intro stuck_op_check [OF step_queue]) simp
next
  case (step_write now tx op m lvl m' ts P C)
  from stuck_op_check [OF step_write(1,3) stuck_pending [OF step_write(3) subset_refl]] show ?case
    by (rule stuck_op_finish)
next
  case (step_refused now tx op m e m' P C)
  then show ?case
    by (intro stuck_op_check [OF step_refused(1,2)] stuck_pending [OF step_refused(2) subset_refl])
next
  case (step_granted tx op start P now m l m' ts C)
  from stuck_lock_attempt [OF step_granted(2,3) set_remove1_subset] show ?case
    by (rule stuck_op_finish)
next
  case (step_failed tx op start P now m e m' C)
  from stuck_lock_attempt [OF step_failed(2,3) set_remove1_subset] show ?case .
next
  case (step_waits tx op start P now m m' C)
  from stuck_lock_attempt [OF step_waits(2,3) subset_refl] show ?case .
next
  case (step_read m P C tx k i v)
  then show ?case
    by (auto simp: stuck_def owns_def)
next
  case (step_abort m P C start now tx)
  then show ?case
    unfolding abort_def by (rule stuck_quiet) (rule shrinks_abort_with_reason)
qed (simp_all add: stuck_begin stuck_nested stuck_commit_check stuck_quiet [OF _ shrinks_commit_locked]
    stuck_quiet [OF _ shrinks_check_timeouts] stuck_quiet [OF _ shrinks_savepoint]
    stuck_quiet [OF _ shrinks_rollback])

lemma stuck_run: "tx_step\<^sup>*\<^sup>* x y \<Longrightarrow> stuck w r x \<Longrightarrow> stuck w r y"
  by (induction rule: rtranclp_induct) (auto intro: stuck_step)

lemma stuck_refuses:
  assumes "stuck w r (m, P, C)" "x \<noteq> w"
  shows "fst (lock_attempt start now x r Exclusive m) \<noteq> LockOk l"
  using assms by (cases rule: lock_attempt_cases [of start now x r m]) (auto simp: stuck_def owns_def)

lemma fold_release_hands_over:
  assumes "tbl r = Some e" "lk_tx (entry_lock e) = a" "waiters e = ws @ [(w, mode, t)]" "w \<noteq> a"
    and "r \<in> lk_resource ` set ls"
  shows "\<exists>e'. fold (release_one now a) ls tbl r = Some e' \<and> lk_tx (entry_lock e') = w \<and>
    lk_mode (entry_lock e') = mode"
  using assms
proof (induction ls arbitrary: tbl)
  case (Cons l ls)
  show ?case
  proof (cases "lk_resource l = r")
    case True
    let ?e = "\<lparr>entry_lock = \<lparr>lk_tx = w, lk_resource = r, lk_mode = mode, acquired_at = now\<rparr>, waiters = ws\<rparr>"
    have "release_one now a l tbl r = Some ?e"
      using Cons.prems True by (simp add: release_one_def)
    then have "fold (release_one now a) ls (release_one now a l tbl) r = Some ?e"
      using Cons.prems(4) by (intro fold_release_other) simp_all
    then show ?thesis
      by simp
  next
    case False
    with Cons show ?thesis
      by (simp add: release_one_elsewhere)
  qed
qed simp

lemma fold_release_miss:
  "r \<notin> lk_resource ` set ls \<Longrightarrow> fold (release_one now a) ls tbl r = tbl r"
  by (induction ls arbitrary: tbl) (auto simp: release_one_elsewhere)

text \<open>
  C28: a lock that is handed over is lost. The owner \<open>a\<close> of an exclusive lock ends while \<open>w\<close> waits at
  the end of the queue: the cleanup makes \<open>w\<close> the owner in the lock table, but the context of \<open>w\<close> does
  not learn of it. The next attempt of \<open>w\<close> succeeds, \<open>w\<close> writes and commits, and its cleanup releases
  the locks its context knows, this one not among them. From then on, over every interleaving of all
  clients, no other transaction is granted the lock.
\<close>

theorem handed_over_lock_leaks:
  assumes "lock_table m r = Some e" "lk_tx (entry_lock e) = a" "waiters e = ws @ [(w, Exclusive, t)]" "w \<noteq> a"
    and "a \<in> set (active m)" "arena m a = Some ca" "r \<in> lk_resource ` set (locks ca)"
    and "w \<in> set (active m)" "arena m w = Some cw" "r \<notin> lk_resource ` set (locks cw)"
    and "now - start \<le> lock_wait_timeout (config m)" "w \<notin> fst ` set P"
  shows "let m1 = cleanup_transaction now0 a m;
             (outcome, m2) = lock_attempt start now w r Exclusive m1;
             m3 = snd (commit_locked start2 now2 w (snd (op_finish ts w op m2)))
         in (\<exists>l. outcome = LockOk l) \<and> w \<notin> set (active m3) \<and>
            (\<forall>m' P' C' x start' now' l. tx_step\<^sup>*\<^sup>* (m3, P, C) (m', P', C') \<and> x \<noteq> w \<longrightarrow>
               fst (lock_attempt start' now' x r Exclusive m') \<noteq> LockOk l)"
proof -
  let ?m1 = "cleanup_transaction now0 a m"
  have ga: "get_transaction a m = Inr ca"
    using assms by (simp add: get_transaction_Inr)
  obtain e' where e': "lock_table ?m1 r = Some e'" "lk_tx (entry_lock e') = w" "lk_mode (entry_lock e') = Exclusive"
    using fold_release_hands_over [of "lock_table m" r e a ws w Exclusive t "locks ca" now0] assms ga
    by (auto simp: release_tx_locks_table)
  then have at: "lock_attempt start now w r Exclusive ?m1 = (LockOk (entry_lock e'), ?m1)"
    using assms(11) by (simp add: lock_attempt_def)
  let ?m2 = "snd (op_finish ts w op ?m1)"
  let ?m3 = "snd (commit_locked start2 now2 w ?m2)"
  obtain c where c: "arena ?m2 w = Some c" "locks c = locks cw"
    using assms(4,9) by (simp add: op_finish_def add_write_def Let_def)
  let ?mc = "update_ctx w (set_state Committed) (voted w ?m2)"
  have w: "w \<in> set (active ?m2)"
    using assms(4,8) by (simp add: op_finish_def)
  then have "get_transaction w ?mc = Inr (set_state Committed c)"
    using c by (simp add: get_transaction_Inr)
  then have "lock_table ?m3 r = lock_table ?m2 r"
    using fold_release_miss [of r "locks cw" now2 w] assms(10) c(2)
    by (simp add: commit_locked_eq Let_def release_tx_locks_table set_state_def)
  then have "owns ?m3 w r"
    using e' by (simp add: owns_def op_finish_def)
  moreover have "arena ?m3 w \<noteq> None" "w \<notin> set (active ?m3)"
    using c by (simp_all add: commit_locked_eq Let_def release_tx_locks_arena)
  ultimately have "stuck w r (?m3, P, C)"
    using assms(12) by (simp add: stuck_def)
  then have "fst (lock_attempt start' now' x r Exclusive m') \<noteq> LockOk l"
    if "tx_step\<^sup>*\<^sup>* (?m3, P, C) (m', P', C')" "x \<noteq> w" for m' P' C' x start' now' l
    using stuck_refuses stuck_run that by blast
  with at \<open>w \<notin> set (active ?m3)\<close> show ?thesis
    by (auto simp: Let_def)
qed

definition sample_waiting :: "unit manager" where
  "sample_waiting = snd (lock_attempt 0 0 ''tx_2'' ''vector:v'' Exclusive sample_written)"

lemma sample_waiting_eq:
  "lock_attempt 0 0 ''tx_2'' ''vector:v'' Exclusive sample_written =
     (LockWait, sample_written\<lparr>lock_table := [''vector:v'' \<mapsto> \<lparr>entry_lock = \<lparr>lk_tx = ''tx_1'', lk_resource = ''vector:v'',
        lk_mode = Exclusive, acquired_at = 0\<rparr>, waiters = [(''tx_2'', Exclusive, 0)]\<rparr>]\<rparr>)"
  by (simp add: lock_attempt_def sample_written_fields sample_locked_fields(2) detect_deadlock_def
      push_waiter_def Let_def)

lemma sample_waiting_fields:
  "active sample_waiting = [''tx_2'', ''tx_1'']"
  "lock_table sample_waiting ''vector:v'' = Some \<lparr>entry_lock = \<lparr>lk_tx = ''tx_1'', lk_resource = ''vector:v'',
     lk_mode = Exclusive, acquired_at = 0\<rparr>, waiters = [(''tx_2'', Exclusive, 0)]\<rparr>"
  "map_option (\<lambda>c. map lk_resource (locks c)) (arena sample_waiting ''tx_1'') = Some [''vector:v'']"
  "arena sample_waiting ''tx_2'' = Some (ctx_new 0 ''tx_2'' Serializable 30000000000)"
  "arena sample_waiting ''tx_3'' = None" "config sample_waiting = tx_config_default"
  using sample_locked_fields(5)
  by (simp_all add: sample_waiting_def sample_waiting_eq sample_written_fields sample_two_fields)
    (auto simp: sample_written_def op_finish_def add_write_def Let_def)

theorem handed_over_lock_leaks_witness:
  "let m1 = cleanup_transaction 1 ''tx_1'' sample_waiting;
       m2 = snd (lock_attempt 0 1 ''tx_2'' ''vector:v'' Exclusive m1);
       m3 = snd (commit_locked 2 2 ''tx_2'' (snd (op_finish 1 ''tx_2'' (sample_vec ''v'' [''b'']) m2)));
       m4 = snd (tx_begin ''3'' 3 (Some Serializable) m3)
   in ''tx_2'' \<notin> set (active m3) \<and>
      (\<forall>n l. fst (lock_attempt 3 n ''tx_3'' ''vector:v'' Exclusive m4) \<noteq> LockOk l)"
proof -
  let ?m1 = "cleanup_transaction 1 ''tx_1'' sample_waiting"
  let ?c2 = "ctx_new 0 ''tx_2'' Serializable 30000000000"
  obtain c1 where c1: "arena sample_waiting ''tx_1'' = Some c1" "map lk_resource (locks c1) = [''vector:v'']"
    using sample_waiting_fields(3) by auto
  have "lk_resource ` set (locks c1) = {''vector:v''}"
    using c1(2) by (metis list.set(1) list.simps(15) list.set_map)
  note * = handed_over_lock_leaks [OF sample_waiting_fields(2), of "''tx_1''" "[]" "''tx_2''" 0 c1 ?c2 1 0 "[]"
      1 2 2 1 "sample_vec ''v'' [''b'']" "[]"]
  let ?m2 = "snd (lock_attempt 0 1 ''tx_2'' ''vector:v'' Exclusive ?m1)"
  let ?m3 = "snd (commit_locked 2 2 ''tx_2'' (snd (op_finish 1 ''tx_2'' (sample_vec ''v'' [''b'']) ?m2)))"
  have main: "''tx_2'' \<notin> set (active ?m3)"
    "tx_step\<^sup>*\<^sup>* (?m3, [], []) (m', P', C') \<Longrightarrow>
       fst (lock_attempt s n ''tx_3'' ''vector:v'' Exclusive m') \<noteq> LockOk l" for m' P' C' s n l
    using * c1(1) \<open>lk_resource ` set (locks c1) = _\<close>
    by (auto simp: Let_def split_beta sample_waiting_fields tx_config_default_def ctx_new_def)
  have "arena ?m3 ''tx_3'' = None"
    by (simp add: commit_locked_eq Let_def op_finish_def lock_attempt_other sample_waiting_fields)
  then have "tx_step\<^sup>*\<^sup>* (?m3, [], []) (snd (tx_begin ''3'' 3 (Some Serializable) ?m3), [], [])"
    using step_begin [of ?m3 "''3''" "[]" "[]"] by (simp add: r_into_rtranclp)
  with main show ?thesis
    by (simp add: Let_def)
qed

end
