(* ===== verification/Tx_Commit.thy ===== *)
theory Tx_Commit
  imports Tx_Locking
begin

text \<open>
  How transactions of the manager end: what a commit, an abort and the timeout sweep leave behind, what
  the capacity check bounds, and which histories the serializable level lets through.
\<close>

section \<open>The end of a transaction\<close>

text \<open>
  \<open>ended tx c S m m'\<close>: from \<open>m\<close> to \<open>m'\<close> the transaction \<open>tx\<close> with context \<open>c\<close> has left the manager in
  state \<open>S\<close>. Its context holds no locks, the uncontended ones it held are free, no lock is new, locks of
  others and the other transactions are untouched.
\<close>

definition ended :: "string \<Rightarrow> 'j tx_ctx \<Rightarrow> tx_state \<Rightarrow> 'j manager \<Rightarrow> 'j manager \<Rightarrow> bool" where
  "ended tx c S m m' \<longleftrightarrow>
     set (active m') = set (active m) - {tx} \<and>
     arena m' tx = Some (c\<lparr>state := S, locks := []\<rparr>) \<and> participants m' tx = None \<and>
     (\<forall>i. i \<noteq> tx \<longrightarrow> arena m' i = arena m i \<and> participants m' i = participants m i) \<and>
     (\<forall>r. lock_table m r = None \<longrightarrow> lock_table m' r = None) \<and>
     (\<forall>r e. lock_table m r = Some e \<longrightarrow>
        (lk_tx (entry_lock e) \<noteq> tx \<longrightarrow> lock_table m' r = Some e) \<and>
        (lk_tx (entry_lock e) = tx \<and> waiters e = [] \<and> r \<in> lk_resource ` set (locks c) \<longrightarrow> lock_table m' r = None))"

lemma ended_gone: "ended tx c S m m' \<Longrightarrow> tx \<notin> set (active m')"
  by (simp add: ended_def)

lemma ended_frees:
  "ended tx c S m m' \<Longrightarrow> lock_table m r = Some e \<Longrightarrow> lk_tx (entry_lock e) = tx \<Longrightarrow> waiters e = [] \<Longrightarrow>
   r \<in> lk_resource ` set (locks c) \<Longrightarrow> lock_table m' r = None"
  by (simp add: ended_def)

lemma fold_release_none: "tbl r = None \<Longrightarrow> fold (release_one now tx) ls tbl r = None"
  by (induction ls arbitrary: tbl) (simp_all add: release_one_none)

lemma fold_release_frees:
  "tbl r = Some e \<Longrightarrow> lk_tx (entry_lock e) = tx \<Longrightarrow> waiters e = [] \<Longrightarrow> r \<in> lk_resource ` set ls \<Longrightarrow>
   fold (release_one now tx) ls tbl r = None"
proof (induction ls arbitrary: tbl)
  case (Cons l ls)
  show ?case
  proof (cases "lk_resource l = r")
    case True
    with Cons.prems have "release_one now tx l tbl r = None"
      by (simp add: release_one_def)
    then show ?thesis
      by (simp add: fold_release_none)
  next
    case False
    with Cons show ?thesis
      by (simp add: release_one_elsewhere)
  qed
qed simp

lemma ended_cleanup:
  assumes "tx \<in> set (active m)" "arena m tx = Some c"
  shows "ended tx c S m (cleanup_transaction now tx (update_ctx tx (set_state S) m))"
proof -
  let ?m = "update_ctx tx (set_state S) m"
  have get: "get_transaction tx ?m = Inr (set_state S c)"
    using assms by (simp add: get_transaction_Inr)
  then have "lock_table (cleanup_transaction now tx ?m) = fold (release_one now tx) (locks c) (lock_table m)"
    by (simp add: release_tx_locks_table set_state_def)
  moreover have "arena (cleanup_transaction now tx ?m) tx = Some (c\<lparr>state := S, locks := []\<rparr>)"
    using assms by (simp add: release_tx_locks_arena set_state_def)
  ultimately show ?thesis
    by (auto simp: ended_def fold_release_other fold_release_frees fold_release_none simp del: cleanup_fields(6,7))
qed

lemma ended_frame:
  assumes "ended tx c S m m1" "active m1' = active m1" "arena m1' = arena m1"
    "participants m1' = participants m1" "lock_table m1' = lock_table m1"
    "active m' = active m" "arena m' = arena m" "lock_table m' = lock_table m"
    "\<And>i. i \<noteq> tx \<Longrightarrow> participants m' i = participants m i"
  shows "ended tx c S m' m1'"
  using assms unfolding ended_def by simp

lemma record_vote_other: "i \<noteq> tx \<Longrightarrow> participants (record_vote tx s v m) i = participants m i"
  by (simp add: record_vote_def split: option.split)

lemma voted_other: "i \<noteq> tx \<Longrightarrow> participants (voted tx m) i = participants m i"
proof -
  assume "i \<noteq> tx"
  then have "participants (fold (\<lambda>s. record_vote tx s True) ss m) i = participants m i" for ss
    by (induction ss arbitrary: m) (simp_all add: record_vote_other)
  then show ?thesis
    by (simp add: voted_def)
qed

lemma commit_locked_ended:
  assumes "tx \<in> set (active m)" "arena m tx = Some c"
  shows "ended tx c Committed m (snd (commit_locked start now tx m))"
proof -
  have "ended tx c Committed (voted tx m)
      (cleanup_transaction now tx (update_ctx tx (set_state Committed) (voted tx m)))"
    using assms by (intro ended_cleanup) simp_all
  then show ?thesis
    by (rule ended_frame) (simp_all add: commit_locked_eq Let_def voted_other)
qed

lemma abort_eq:
  assumes "tx \<in> set (active m)" "arena m tx = Some c" "can_rollback (state c)"
  shows "abort_with_reason start now tx why m = finish_abort start now tx why (update_ctx tx (set_state Aborted) m)"
  using assms by (simp add: abort_with_reason_def get_transaction_def update_ctx_twice Let_def)

lemma finish_abort_ended:
  assumes "tx \<in> set (active m)" "arena m tx = Some c"
  shows "ended tx c S m (snd (finish_abort start now tx why (update_ctx tx (set_state S) m)))"
  using ended_cleanup [OF assms] by (rule ended_frame) (simp_all add: finish_abort_def Let_def)

section \<open>What a commit reports\<close>

definition conflict_free :: "string \<Rightarrow> 'j tx_ctx \<Rightarrow> 'j manager \<Rightarrow> bool" where
  "conflict_free tx c m \<longleftrightarrow> resolution_strategy (config m) = LastWriterWins \<or>
     list_all (\<lambda>i. i = tx \<or> (case arena m i of None \<Rightarrow> True
       | Some d \<Rightarrow> is_ended (state d) \<or> \<not> conflicts_with c d)) (active m)"

lemma validate_loop_result:
  "(case fst (validate_loop c tx ids m) of Inr _ \<Rightarrow> True | Inl e \<Rightarrow> False) \<longleftrightarrow>
   resolution_strategy (config m) = LastWriterWins \<or>
   list_all (\<lambda>i. i = tx \<or> (case arena m i of None \<Rightarrow> True
     | Some d \<Rightarrow> is_ended (state d) \<or> \<not> conflicts_with c d)) ids"
  by (induction ids) (auto split: option.split)

lemma validate_fields:
  assumes "validate_transaction tx m = (r, m1)"
  shows "active m1 = active m" "arena m1 = arena m" "participants m1 = participants m"
    "lock_table m1 = lock_table m" "config m1 = config m"
    "total_committed (stats m1) = total_committed (stats m)" "total_aborted (stats m1) = total_aborted (stats m)"
proof -
  obtain n where "m1 = m\<lparr>stats := (stats m)\<lparr>total_conflicts := n\<rparr>\<rparr>"
  proof (cases "get_transaction tx m")
    case (Inl e)
    with assms have "m1 = m\<lparr>stats := (stats m)\<lparr>total_conflicts := total_conflicts (stats m)\<rparr>\<rparr>"
      by (simp add: validate_transaction_def)
    then show ?thesis by (rule that)
  next
    case (Inr c)
    with assms validate_loop_same [of c tx "active m" m] show ?thesis
      by (auto simp: validate_transaction_def intro: that)
  qed
  then show "active m1 = active m" "arena m1 = arena m" "participants m1 = participants m"
    "lock_table m1 = lock_table m" "config m1 = config m"
    "total_committed (stats m1) = total_committed (stats m)" "total_aborted (stats m1) = total_aborted (stats m)"
    by simp_all
qed

lemma validate_or_same:
  assumes "m1 = m \<or> m1 = snd (validate_transaction tx m)"
  shows "active m1 = active m" "arena m1 = arena m" "participants m1 = participants m"
    "lock_table m1 = lock_table m" "total_committed (stats m1) = total_committed (stats m)"
    "total_aborted (stats m1) = total_aborted (stats m)"
  using assms validate_fields [of tx m "fst (validate_transaction tx m)" "snd (validate_transaction tx m)"]
  by auto

lemma build_result_eq:
  assumes "tx \<in> set (active m)" "arena m tx = Some c"
  shows "build_result tx ok err start now (update_ctx tx (set_state S) m) =
    \<lparr>transaction_id = tx, success = ok, final_state = S, duration = now - start,
     operation_count = length (operations (write_set c)),
     res_participants = map (\<lambda>(k, v). (k, case vote v of None \<Rightarrow> False | Some b \<Rightarrow> b)) (tx_participants tx m),
     error = err\<rparr>"
  using assms by (simp add: build_result_def get_transaction_def set_state_def tx_participants_def)

lemma map_of_vote:
  "map_of (tx_participants tx (record_vote tx s True m)) k =
     (if k = s then map_option (\<lambda>p. p\<lparr>prepared := True, vote := Some True\<rparr>) (map_of (tx_participants tx m) k)
      else map_of (tx_participants tx m) k)"
  by (auto simp: record_vote_def tx_participants_def AList.update_conv' split: option.splits)

lemma map_of_votes:
  "map_of (tx_participants tx (fold (\<lambda>s. record_vote tx s True) ss m)) k =
     (if k \<in> set ss then map_option (\<lambda>p. p\<lparr>prepared := True, vote := Some True\<rparr>) (map_of (tx_participants tx m) k)
      else map_of (tx_participants tx m) k)"
  by (induction ss arbitrary: m) (auto simp: map_of_vote option.map_comp comp_def)

lemma map_of_voted:
  "map_of (tx_participants tx (voted tx m)) k =
     map_option (\<lambda>p. p\<lparr>prepared := True, vote := Some True\<rparr>) (map_of (tx_participants tx m) k)"
proof (cases "map_of (tx_participants tx m) k")
  case (Some p)
  then have "k \<in> fst ` set (tx_participants tx m)"
    by (metis map_of_eq_None_iff option.distinct(1))
  then show ?thesis
    by (simp add: voted_def map_of_votes)
qed (simp add: voted_def map_of_votes)

definition commit_ok :: "nat \<Rightarrow> string \<Rightarrow> 'j tx_ctx \<Rightarrow> 'j manager \<Rightarrow> bool" where
  "commit_ok start tx c m \<longleftrightarrow>
     \<not> is_timed_out start c \<and> (if isolation c = Serializable then conflict_free tx c m else True)"

lemma validate_result:
  assumes "tx \<in> set (active m)" "arena m tx = Some c" "validate_transaction tx m = (r, m1)"
  shows "(case r of Inr _ \<Rightarrow> True | Inl _ \<Rightarrow> False) \<longleftrightarrow> conflict_free tx c m"
  using assms validate_loop_result [of c tx "active m" m]
  by (simp add: validate_transaction_def get_transaction_def conflict_free_def)

lemma commit_check_ok:
  assumes "tx \<in> set (active m)" "arena m tx = Some c" "state c = Active" "commit_ok start tx c m"
  obtains m1 where "commit_check start tx m = (None, m1)" "m1 = m \<or> m1 = snd (validate_transaction tx m)"
proof (cases "isolation c = Serializable")
  case True
  obtain r m1 where v: "validate_transaction tx m = (r, m1)"
    by (cases "validate_transaction tx m")
  then obtain u where "r = Inr u"
    using validate_result [OF assms(1,2) v] assms(4) True by (auto simp: commit_ok_def split: sum.splits)
  then show ?thesis
    using that [of m1] assms v True
    by (simp add: commit_check_def commit_ok_def get_transaction_def is_active_def)
next
  case False
  then show ?thesis
    using that [of m] assms by (simp add: commit_check_def commit_ok_def get_transaction_def is_active_def)
qed

lemma commit_check_fails:
  assumes "tx \<in> set (active m)" "arena m tx = Some c" "state c = Active" "\<not> commit_ok start tx c m"
  obtains m1 why where "m1 = m \<or> m1 = snd (validate_transaction tx m)"
    "commit_check start tx m = (Some (fst (abort_with_reason start start tx why m1)),
       snd (abort_with_reason start start tx why m1))"
proof (cases "is_timed_out start c")
  case True
  then show ?thesis
    using that [of m "''Transaction timed out''"] assms
    by (simp add: commit_check_def get_transaction_def is_active_def split_beta)
next
  case False
  obtain r m1 where v: "validate_transaction tx m = (r, m1)"
    by (cases "validate_transaction tx m")
  from False assms(4) have ser: "isolation c = Serializable"
    by (auto simp: commit_ok_def split: if_splits)
  then obtain e where "r = Inl e"
    using validate_result [OF assms(1,2) v] assms(4) False by (auto simp: commit_ok_def split: sum.splits)
  then show ?thesis
    using that [of m1 "error_text e"] assms v False ser
    by (simp add: commit_check_def get_transaction_def is_active_def split_beta)
qed

text \<open>
  What the other threads may do while a commit waits for the commit lock: anything that leaves the
  committing transaction itself, its context and its participants as they are.
\<close>

definition leaves_alone :: "string \<Rightarrow> ('j manager \<Rightarrow> 'j manager) \<Rightarrow> bool" where
  "leaves_alone tx others \<longleftrightarrow> (\<forall>m. (tx \<in> set (active (others m)) \<longleftrightarrow> tx \<in> set (active m)) \<and>
     arena (others m) tx = arena m tx \<and> tx_participants tx (others m) = tx_participants tx m)"

lemma leaves_alone_id [simp]: "leaves_alone tx id"
  by (simp add: leaves_alone_def)

lemma commit_result_ok:
  assumes "tx \<in> set (active m)" "arena m tx = Some c" "state c = Active" "leaves_alone tx others"
    and ok: "commit_ok start tx c m"
  obtains res m' where "commit start now others tx m = (Inr res, m')" "success res" "final_state res = Committed"
    "error res = None" "operation_count res = length (operations (write_set c))"
    "\<And>s. map_of (res_participants res) s = map_option (\<lambda>_. True) (map_of (tx_participants tx m) s)"
    "ended tx c Committed (others (snd (commit_check start tx m))) m'"
    "total_committed (stats m') = total_committed (stats (others (snd (commit_check start tx m)))) + 1"
    "total_aborted (stats m') = total_aborted (stats (others (snd (commit_check start tx m))))"
proof -
  obtain m1 where m1: "commit_check start tx m = (None, m1)" "m1 = m \<or> m1 = snd (validate_transaction tx m)"
    by (rule commit_check_ok [OF assms(1-3) ok])
  note fields = validate_or_same [OF m1(2)]
  have parts: "tx_participants tx m1 = tx_participants tx m"
    by (simp add: tx_participants_def fields)
  have o: "tx \<in> set (active (others m1))" "arena (others m1) tx = Some c"
    "tx_participants tx (others m1) = tx_participants tx m"
    using assms(1,2,4) parts by (simp_all add: leaves_alone_def fields)
  have e: "ended tx c Committed (others m1) (snd (commit_locked start now tx (others m1)))"
    by (rule commit_locked_ended [OF o(1,2)])
  have "map_of (map (\<lambda>(k, v). (k, case vote v of None \<Rightarrow> False | Some b \<Rightarrow> b))
        (tx_participants tx (voted tx (others m1)))) k =
      map_option (\<lambda>_. True) (map_of (tx_participants tx m) k)" for k
    by (simp add: map_of_map map_of_voted option.map_comp comp_def o(3))
  moreover have "commit start now others tx m = commit_locked start now tx (others m1)"
    by (simp add: commit_def m1(1))
  moreover obtain res where "fst (commit_locked start now tx (others m1)) = Inr res"
    by (simp add: commit_locked_eq Let_def)
  ultimately show ?thesis
    using o(1,2)
    by (intro that [of res "snd (commit_locked start now tx (others m1))"])
      (use e in \<open>auto simp add: commit_locked_eq Let_def build_result_eq m1(1) assms(3)\<close>)
qed

lemma commit_check_fields:
  assumes "tx \<in> set (active m)" "arena m tx = Some c" "state c = Active" "commit_ok start tx c m"
  shows "active (snd (commit_check start tx m)) = active m" "arena (snd (commit_check start tx m)) = arena m"
    "participants (snd (commit_check start tx m)) = participants m"
    "lock_table (snd (commit_check start tx m)) = lock_table m"
proof -
  obtain m1 where m1: "commit_check start tx m = (None, m1)" "m1 = m \<or> m1 = snd (validate_transaction tx m)"
    by (rule commit_check_ok [OF assms])
  then show "active (snd (commit_check start tx m)) = active m" "arena (snd (commit_check start tx m)) = arena m"
    "participants (snd (commit_check start tx m)) = participants m"
    "lock_table (snd (commit_check start tx m)) = lock_table m"
    by (simp_all add: validate_or_same [OF m1(2)])
qed

lemma commit_result_id:
  assumes "tx \<in> set (active m)" "arena m tx = Some c" "state c = Active" "commit_ok start tx c m"
  obtains res m' where "commit start now id tx m = (Inr res, m')" "success res" "ended tx c Committed m m'"
proof -
  obtain res m' where r: "commit start now id tx m = (Inr res, m')" "success res"
    "ended tx c Committed (snd (commit_check start tx m)) m'"
    by (rule commit_result_ok [OF assms(1-3) leaves_alone_id assms(4), of now]) simp
  show ?thesis
    by (rule that [OF r(1,2) ended_frame [OF r(3)]]) (simp_all add: commit_check_fields [OF assms])
qed

lemma commit_result_failed:
  assumes "tx \<in> set (active m)" "arena m tx = Some c" "state c = Active" "\<not> commit_ok start tx c m"
  obtains res m' where "commit start now others tx m = (Inr res, m')" "\<not> success res" "final_state res = Aborted"
    "error res \<noteq> None" "operation_count res = length (operations (write_set c))" "ended tx c Aborted m m'"
    "total_committed (stats m') = total_committed (stats m)"
    "total_aborted (stats m') = total_aborted (stats m) + 1"
proof -
  obtain m1 why where m1: "m1 = m \<or> m1 = snd (validate_transaction tx m)"
    "commit_check start tx m = (Some (fst (abort_with_reason start start tx why m1)),
       snd (abort_with_reason start start tx why m1))"
    by (rule commit_check_fails [OF assms])
  note fields = validate_or_same [OF m1(1)]
  have ab: "abort_with_reason start start tx why m1 =
      finish_abort start start tx why (update_ctx tx (set_state Aborted) m1)"
    using assms by (intro abort_eq [of tx m1 c]) (simp_all add: fields can_rollback_def)
  have "ended tx c Aborted m (snd (finish_abort start start tx why (update_ctx tx (set_state Aborted) m1)))"
    by (rule ended_frame [OF finish_abort_ended [of tx m1 c Aborted start start why]])
      (simp_all add: fields assms)
  moreover obtain res where "fst (abort_with_reason start start tx why m1) = Inr res"
    by (simp add: ab finish_abort_def Let_def)
  ultimately show ?thesis
    using m1(2)
    by (intro that [of res "snd (abort_with_reason start start tx why m1)"])
      (auto simp add: ab commit_def finish_abort_def Let_def build_result_eq fields assms)
qed


lemma conflicts_with_unwritten: "ws_entries (write_set d) = [] \<Longrightarrow> \<not> conflicts_with c d"
  by (simp add: conflicts_with_def entries_overlap_def list_ex_iff case_prod_beta)

lemma sample_commit_ok:
  "\<exists>c. arena sample_written ''tx_1'' = Some c \<and> state c = Active \<and>
     lk_resource ` set (locks c) = {''vector:v''} \<and> commit_ok 5 ''tx_1'' c sample_written"
proof -
  obtain c where c: "arena sample_written ''tx_1'' = Some c" "state c = Active"
    "timeout c = 30000000000" "started_at c = 0" "map lk_resource (locks c) = [''vector:v'']"
    by (simp add: sample_written_def sample_locked_def sample_two_def mgr_eval)
  have "\<not> conflicts_with c (ctx_new 0 ''tx_2'' Serializable 30000000000)"
    by (rule conflicts_with_unwritten) (simp add: ctx_new_def write_set_default_def)
  then have ok: "commit_ok 5 ''tx_1'' c sample_written"
    using c by (simp add: commit_ok_def is_timed_out_def conflict_free_def sample_written_fields sample_two_fields)
  have "lk_resource ` set (locks c) = {''vector:v''}"
    using c(5) by (metis list.set(1) list.simps(15) list.set_map)
  with ok c show ?thesis
    by simp
qed


text \<open>
  C29: an aborted transaction is reported as committed. While a commit that has passed its checks waits
  for the commit lock, somebody else aborts the transaction. The commit does not look again: it reports
  success without an error, beside the final state \<open>Aborted\<close> and no operations, the context that the
  client holds says \<open>Committed\<close>, and the transaction is counted both as aborted and as committed.
\<close>

theorem commit_after_abort_succeeds:
  assumes "tx \<in> set (active m)" and "arena m tx = Some c" and "state c = Active"
    and "commit_ok start tx c m"
  shows "\<exists>res m'. commit start now (\<lambda>m. snd (abort t0 t1 tx m)) tx m = (Inr res, m') \<and>
    success res \<and> error res = None \<and> final_state res = Aborted \<and> operation_count res = 0 \<and>
    map_option state (arena m' tx) = Some Committed \<and>
    total_committed (stats m') = total_committed (stats m) + 1 \<and>
    total_aborted (stats m') = total_aborted (stats m) + 1"
proof -
  obtain m1 where m1: "commit_check start tx m = (None, m1)" "m1 = m \<or> m1 = snd (validate_transaction tx m)"
    by (rule commit_check_ok [OF assms])
  note fields = validate_or_same [OF m1(2)]
  let ?m2 = "snd (abort t0 t1 tx m1)"
  have ab: "abort t0 t1 tx m1 = finish_abort t0 t1 tx ''User requested abort'' (update_ctx tx (set_state Aborted) m1)"
    unfolding abort_def using assms by (intro abort_eq [of tx m1 c]) (simp_all add: fields can_rollback_def)
  have e: "ended tx c Aborted m1 ?m2"
    unfolding ab by (rule finish_abort_ended) (simp_all add: fields assms)
  have s: "total_committed (stats ?m2) = total_committed (stats m)"
    "total_aborted (stats ?m2) = total_aborted (stats m) + 1"
    unfolding ab by (simp_all add: finish_abort_def Let_def fields)
  have "participants ?m2 tx = None" "arena ?m2 tx = Some (c\<lparr>state := Aborted, locks := []\<rparr>)"
    using e by (simp_all add: ended_def)
  with ended_gone [OF e] s m1(1) show ?thesis
    by (simp add: commit_def commit_locked_eq Let_def build_result_def get_transaction_def
        release_tx_locks_arena set_state_def)
qed

theorem commit_after_abort_succeeds_witness:
  "\<exists>res m'. commit 5 8 (\<lambda>m. snd (abort 6 7 ''tx_1'' m)) ''tx_1'' sample_written = (Inr res, m') \<and>
     success res \<and> final_state res = Aborted \<and> operation_count res = 0"
  using commit_after_abort_succeeds [of "''tx_1''" sample_written _ 5 8 6 7] sample_commit_ok
  by (fastforce simp: sample_written_fields)

section \<open>Capacity\<close>

text \<open>The active transactions that are not nested.\<close>

definition roots :: "'j manager \<Rightarrow> string set" where
  "roots m = {i \<in> set (active m). \<exists>c. arena m i = Some c \<and> parent c = None}"

definition within_capacity :: "'j manager \<Rightarrow> bool" where
  "within_capacity m \<longleftrightarrow> card (roots m) \<le> max_concurrent_transactions (config m)"

lemma finite_roots [simp]: "finite (roots m)"
  by (simp add: roots_def)

lemma within_capacity_mono:
  "within_capacity m \<Longrightarrow> roots m' \<subseteq> roots m \<Longrightarrow> config m' = config m \<Longrightarrow> within_capacity m'"
  unfolding within_capacity_def by (metis card_mono finite_roots order_trans)

lemma within_capacity_shrinks: "within_capacity m \<Longrightarrow> shrinks m m' \<Longrightarrow> within_capacity m'"
  by (erule within_capacity_mono)
    (use shrinks_active shrinks_ctx in \<open>fastforce simp: roots_def ctx_shrinks_def\<close>, rule shrinks_config)

lemma within_capacity_begin:
  assumes "within_capacity m"
  shows "within_capacity (snd (tx_begin uuid now lvl m))"
proof (cases "max_concurrent_transactions (config m) \<le> length (active m)")
  case True
  with assms show ?thesis
    by (simp add: tx_begin_def)
next
  case False
  let ?m' = "snd (tx_begin uuid now lvl m)"
  have "roots ?m' \<subseteq> insert (''tx_'' @ uuid) (set (active m))" "config ?m' = config m"
    using False by (auto simp: tx_begin_def Let_def register_def ctx_new_def roots_def)
  then have "card (roots ?m') \<le> card (insert (''tx_'' @ uuid) (set (active m)))"
    by (intro card_mono) simp_all
  also have "\<dots> \<le> Suc (length (active m))"
    using card_insert_le_m1 [of "Suc (length (active m))" "set (active m)"] card_length [of "active m"] by simp
  finally show ?thesis
    using False \<open>config ?m' = config m\<close> by (simp add: within_capacity_def)
qed

lemma within_capacity_nested:
  "within_capacity m \<Longrightarrow> within_capacity (snd (begin_nested uuid now par lvl m))"
  by (erule within_capacity_mono)
    (auto simp: begin_nested_def Let_def register_def ctx_new_nested_def ctx_new_def roots_def
      add_child_def get_transaction_Inr split: sum.splits if_splits)

lemma within_capacity_op_finish: "within_capacity m \<Longrightarrow> within_capacity (snd (op_finish ts tx op m))"
  by (erule within_capacity_mono)
    (auto simp: op_finish_def roots_def add_write_def Let_def split: if_splits)

lemma within_capacity_step:
  assumes "tx_step x y" "within_capacity (fst x)"
  shows "within_capacity (fst y)"
  using assms(1)
proof (cases rule: step_kinds)
  case (finish ts tx op m1)
  then show ?thesis
    using assms(2) within_capacity_shrinks within_capacity_op_finish by metis
qed (use assms(2) in \<open>auto intro: within_capacity_begin within_capacity_nested within_capacity_shrinks\<close>)

lemma within_capacity_run: "tx_step\<^sup>*\<^sup>* x y \<Longrightarrow> within_capacity (fst x) \<Longrightarrow> within_capacity (fst y)"
  by (induction rule: rtranclp_induct) (auto intro: within_capacity_step)

lemma config_step:
  assumes "tx_step x y"
  shows "config (fst y) = config (fst x)"
  using assms
  by (cases rule: step_kinds)
    (auto simp: tx_begin_def begin_nested_def op_finish_def register_def Let_def dest: shrinks_config split: sum.split)

lemma config_run: "tx_step\<^sup>*\<^sup>* x y \<Longrightarrow> config (fst y) = config (fst x)"
  by (induction rule: rtranclp_induct) (auto dest: config_step)

text \<open>Nested transactions of one root, as many as one likes.\<close>

lemma nested_unbounded:
  assumes "0 < max_concurrent_transactions conf"
  shows "\<exists>m :: 'j manager. tx_step\<^sup>*\<^sup>* (manager_new conf, [], []) (m, [], []) \<and> length (active m) = Suc n \<and>
    ''tx_0'' \<in> set (active m) \<and> map_option state (arena m ''tx_0'') = Some Active \<and>
    set (active m) \<subseteq> dom (arena m) \<and> (\<forall>i \<in> dom (arena m). length i < 8 + n)"
proof (induction n)
  case 0
  let ?m = "snd (tx_begin ''0'' 0 None (manager_new conf)) :: 'j manager"
  have "tx_step (manager_new conf, [], []) (?m, [], [])"
    by (rule step_begin) (simp add: manager_new_def)
  moreover have "length (active ?m) = Suc 0 \<and> ''tx_0'' \<in> set (active ?m) \<and>
      map_option state (arena ?m ''tx_0'') = Some Active \<and> set (active ?m) \<subseteq> dom (arena ?m) \<and>
      (\<forall>i \<in> dom (arena ?m). length i < 8)"
    using assms by (simp add: tx_begin_def manager_new_def register_def ctx_new_def Let_def)
  ultimately show ?case
    by (auto intro!: exI [of _ ?m])
next
  case (Suc n)
  then obtain m :: "'j manager" where m: "tx_step\<^sup>*\<^sup>* (manager_new conf, [], []) (m, [], [])" "length (active m) = Suc n"
    "''tx_0'' \<in> set (active m)" "map_option state (arena m ''tx_0'') = Some Active"
    "set (active m) \<subseteq> dom (arena m)" "\<forall>i \<in> dom (arena m). length i < 8 + n"
    by (elim exE conjE) (rule that)
  let ?u = "replicate n CHR ''a''"
  let ?i = "''tx_tx_0_'' @ ?u"
  let ?m = "snd (begin_nested ?u 0 ''tx_0'' None m)"
  obtain c where c: "arena m ''tx_0'' = Some c" "state c = Active"
    using m(4) by auto
  have fresh: "?i \<notin> dom (arena m)"
    using m(6) by force
  then have step: "tx_step (m, [], []) (?m, [], [])"
    using step_nested [of m "''tx_0''" ?u] by (auto simp: domIff)
  have a: "active ?m = ?i # active m" and d: "dom (arena ?m) = insert ?i (dom (arena m))"
    and s: "map_option state (arena ?m ''tx_0'') = Some Active"
    using c m(3,5) fresh
    by (auto simp: begin_nested_def get_transaction_def is_active_def Let_def register_def
        ctx_new_nested_def ctx_new_def update_ctx_def add_child_def List.insert_def)
  have "length i < 8 + Suc n" if "i \<in> dom (arena m)" for i
    using bspec [OF m(6) that] by simp
  then have "\<forall>i \<in> dom (arena ?m). length i < 8 + Suc n"
    unfolding d by simp
  then show ?case
  proof (intro exI [of _ ?m] conjI)
    show "tx_step\<^sup>*\<^sup>* (manager_new conf, [], []) (?m, [], [])"
      using m(1) step by (rule rtranclp.rtrancl_into_rtrancl)
  qed (use m(2,3,5) a d s in auto)
qed

text \<open>
  C31: what the capacity limits. Over all interleavings, at most \<open>max_concurrent_transactions\<close> transactions
  that are not nested are active. Nested ones are neither counted nor refused: with a limit of at least
  one, any number of transactions can be active at once.
\<close>

theorem capacity_bounds_roots:
  "(\<forall>(m :: 'j manager) P C. tx_step\<^sup>*\<^sup>* (manager_new conf, [], []) (m, P, C) \<longrightarrow>
      card (roots m) \<le> max_concurrent_transactions conf) \<and>
   (0 < max_concurrent_transactions conf \<longrightarrow>
      (\<forall>n. \<exists>m :: 'j manager. tx_step\<^sup>*\<^sup>* (manager_new conf, [], []) (m, [], []) \<and> active_count m = Suc n))"
proof (intro conjI allI impI)
  fix m :: "'j manager" and P C
  assume run: "tx_step\<^sup>*\<^sup>* (manager_new conf, [], []) (m, P, C)"
  have "within_capacity m"
    using within_capacity_run [OF run] by (simp add: within_capacity_def roots_def manager_new_def)
  then show "card (roots m) \<le> max_concurrent_transactions conf"
    using config_run [OF run] by (simp add: within_capacity_def manager_new_def)
next
  fix n assume "0 < max_concurrent_transactions conf"
  from nested_unbounded [OF this, of n]
  show "\<exists>m :: 'j manager. tx_step\<^sup>*\<^sup>* (manager_new conf, [], []) (m, [], []) \<and> active_count m = Suc n"
    unfolding active_count_def by blast
qed

theorem capacity_bounds_roots_witness:
  "card (roots sample_written) \<le> 1000 \<and>
   (\<exists>m :: unit manager. tx_step\<^sup>*\<^sup>* (manager_new tx_config_default, [], []) (m, [], []) \<and> active_count m = 2000)"
proof -
  have "max_concurrent_transactions tx_config_default = 1000"
    by (simp add: tx_config_default_def)
  then show ?thesis
    using capacity_bounds_roots [of tx_config_default] sample_run
    by (metis numeral_eq_Suc zero_less_numeral)
qed

section \<open>The timeout sweep\<close>

lemma time_out_one_ended:
  assumes "tx \<in> set (active m)" "arena m tx = Some c"
  shows "ended tx c TimedOut m (time_out_one now tx m)"
    "total_timed_out (stats (time_out_one now tx m)) = total_timed_out (stats m) + 1"
    "total_aborted (stats (time_out_one now tx m)) = total_aborted (stats m) + 1"
proof -
  let ?m = "update_ctx tx (set_state TimedOut) m"
  have "abort_with_reason now now tx ''Transaction timed out'' ?m = finish_abort now now tx ''Transaction timed out'' ?m"
    using assms by (simp add: abort_with_reason_def get_transaction_def set_state_def can_rollback_def)
  then have eq: "time_out_one now tx m =
      (let m1 = snd (finish_abort now now tx ''Transaction timed out'' ?m)
       in m1\<lparr>stats := (stats m1)\<lparr>total_timed_out := total_timed_out (stats m1) + 1\<rparr>\<rparr>)"
    using assms by (simp add: time_out_one_def get_transaction_def Let_def)
  show "ended tx c TimedOut m (time_out_one now tx m)"
    by (rule ended_frame [OF finish_abort_ended [OF assms, of TimedOut now now "''Transaction timed out''"]])
      (simp_all add: eq Let_def)
  show "total_timed_out (stats (time_out_one now tx m)) = total_timed_out (stats m) + 1"
    "total_aborted (stats (time_out_one now tx m)) = total_aborted (stats m) + 1"
    by (simp_all add: eq Let_def finish_abort_def)
qed

lemma fold_time_out:
  assumes "distinct ids" "set ids \<subseteq> set (active m) \<inter> dom (arena m)" "m' = fold (time_out_one now) ids m"
  shows "set (active m') = set (active m) - set ids \<and>
    (\<forall>i. arena m' i =
       (if i \<in> set ids then map_option (\<lambda>c. c\<lparr>state := TimedOut, locks := []\<rparr>) (arena m i) else arena m i)) \<and>
    total_timed_out (stats m') = total_timed_out (stats m) + of_nat (length ids) \<and>
    total_aborted (stats m') = total_aborted (stats m) + of_nat (length ids)"
  using assms
proof (induction ids arbitrary: m)
  case (Cons j ids)
  obtain c where c: "j \<in> set (active m)" "arena m j = Some c"
    using Cons.prems(2) by auto
  note e = time_out_one_ended [OF c, of now]
  let ?m = "time_out_one now j m"
  have act: "set (active ?m) = set (active m) - {j}" and arj: "arena ?m j = Some (c\<lparr>state := TimedOut, locks := []\<rparr>)"
    and ar: "\<And>i. i \<noteq> j \<Longrightarrow> arena ?m i = arena m i"
    using e(1) by (simp_all add: ended_def)
  have "x \<in> set (active ?m) \<inter> dom (arena ?m)" if "x \<in> set ids" for x
  proof -
    have "x \<noteq> j" "x \<in> set (active m)" "x \<in> dom (arena m)"
      using Cons.prems(1,2) that by auto
    with ar [of x] act show ?thesis
      by (simp add: domIff)
  qed
  then have "set ids \<subseteq> set (active ?m) \<inter> dom (arena ?m)"
    by blast
  moreover have "distinct ids" "m' = fold (time_out_one now) ids ?m"
    using Cons.prems by simp_all
  ultimately have IH: "set (active m') = set (active ?m) - set ids"
    "\<And>i. arena m' i =
       (if i \<in> set ids then map_option (\<lambda>c. c\<lparr>state := TimedOut, locks := []\<rparr>) (arena ?m i) else arena ?m i)"
    "total_timed_out (stats m') = total_timed_out (stats ?m) + of_nat (length ids)"
    "total_aborted (stats m') = total_aborted (stats ?m) + of_nat (length ids)"
    using Cons.IH [of ?m] by simp_all
  have "arena m' i = (if i \<in> set (j # ids) then map_option (\<lambda>c. c\<lparr>state := TimedOut, locks := []\<rparr>) (arena m i)
      else arena m i)" for i
    using IH(2) [of i] arj ar [of i] c(2) Cons.prems(1) by (cases "i = j") auto
  with IH(1,3,4) act e(2,3) show ?case
    by auto
qed simp

text \<open>
  C32: the timeout sweep ends exactly the transactions that are active and past their timeout. Each of
  them leaves the manager in state \<open>TimedOut\<close> without its locks and is counted both as timed out and as
  aborted; every other context is untouched.
\<close>

theorem check_timeouts_exact:
  assumes "distinct (active m)"
    and "E = {i \<in> set (active m). case arena m i of None \<Rightarrow> False | Some c \<Rightarrow> is_timed_out now c \<and> state c = Active}"
  shows "set (active (check_timeouts now m)) = set (active m) - E \<and>
    (\<forall>i. arena (check_timeouts now m) i =
       (if i \<in> E then map_option (\<lambda>c. c\<lparr>state := TimedOut, locks := []\<rparr>) (arena m i) else arena m i)) \<and>
    total_timed_out (stats (check_timeouts now m)) = total_timed_out (stats m) + of_nat (card E) \<and>
    total_aborted (stats (check_timeouts now m)) = total_aborted (stats m) + of_nat (card E)"
proof -
  let ?ids = "timed_out_ids now m"
  have E: "set ?ids = E" "distinct ?ids" "set ?ids \<subseteq> set (active m) \<inter> dom (arena m)"
    using assms by (auto simp: timed_out_ids_def is_active_def split: option.splits)
  from E(1,2) have "card E = length ?ids"
    by (metis distinct_card)
  with fold_time_out [OF E(2,3) refl, of now] E(1) show ?thesis
    by (simp add: check_timeouts_def)
qed

theorem check_timeouts_exact_witness:
  "active (check_timeouts 30000000000 sample_two) = [''tx_2'', ''tx_1''] \<and>
   active (check_timeouts 30000000001 sample_two) = [] \<and>
   total_timed_out (stats (check_timeouts 30000000001 sample_two)) = 2"
proof -
  have "stats sample_two = stats_zero\<lparr>total_started := 2, current_active := 2\<rparr>"
    by (simp add: sample_two_def mgr_eval stats_zero_def)
  moreover have "{''tx_1'', ''tx_2''} = {i \<in> set (active sample_two). case arena sample_two i of None \<Rightarrow> False
      | Some c \<Rightarrow> is_timed_out 30000000001 c \<and> state c = Active}"
    by (auto simp: sample_two_fields is_timed_out_def ctx_new_def split: if_splits)
  from check_timeouts_exact [OF _ this]
  have "set (active (check_timeouts 30000000001 sample_two)) = {}"
    "total_timed_out (stats (check_timeouts 30000000001 sample_two)) = total_timed_out (stats sample_two) + 2"
    by (auto simp: sample_two_fields)
  moreover have "timed_out_ids 30000000000 sample_two = []"
    by (simp add: timed_out_ids_def sample_two_fields is_timed_out_def ctx_new_def)
  ultimately show ?thesis
    by (simp add: check_timeouts_def sample_two_fields stats_zero_def)
qed

section \<open>What serializable validation misses\<close>

lemma add_operation_free:
  assumes "tx \<in> set (active m)" "arena m tx = Some c" "state c = Active" "\<not> is_timed_out now c"
    "isolation c = Serializable" "lock_table m (resource_of op) = None"
  obtains seq m' c' where "add_operation now [(now, id)] ts tx op m = (Some (Inr seq), m')"
    "active m' = active m" "arena m' tx = Some c'" "state c' = Active" "isolation c' = Serializable"
    "started_at c' = started_at c" "timeout c' = timeout c"
proof -
  let ?m1 = "register_participant tx (model_type op) m"
  have f: "active ?m1 = active m" "arena ?m1 = arena m" "lock_table ?m1 = lock_table m"
    by (simp_all add: register_participant_def Let_def)
  have g: "get_transaction tx m = Inr c" "get_transaction tx ?m1 = Inr c"
    using assms f by (simp_all add: get_transaction_Inr)
  obtain l m2 where at: "lock_attempt now now tx (resource_of op) Exclusive ?m1 = (LockOk l, m2)"
    using assms(6) f by (simp add: lock_attempt_def Let_def)
  obtain c2 where c2: "active m2 = active m" "arena m2 tx = Some c2" "state c2 = Active"
    "isolation c2 = Serializable" "started_at c2 = started_at c" "timeout c2 = timeout c"
    using assms f at by (auto simp: lock_attempt_def ctx_acquire_lock_def Let_def)
  have "add_operation now [(now, id)] ts tx op m =
      (Some (Inr (fst (add_write ts op c2))), snd (op_finish ts tx op m2))"
    using assms g c2 at
    by (simp add: add_operation_def op_check_def is_active_def acquire_lock_def op_finish_def)
  then show ?thesis
    by (rule that [where c' = "snd (add_write ts op c2)"]) (simp_all add: op_finish_def c2 add_write_def Let_def)
qed

text \<open>
  C30: validation does not see what has committed. Two serializable transactions run; \<open>b\<close> has written
  nothing yet. Then \<open>a\<close> commits, and after that \<open>b\<close> adds any write and commits: both succeed, whatever
  the two have read. In particular they succeed when each has read what the other writes (write skew),
  which no serial order explains.
\<close>

theorem committed_writes_not_validated:
  assumes "set (active m) = {a, b}" and "a \<noteq> b"
    and "arena m a = Some ca" and "state ca = Active" and "\<not> is_timed_out t1 ca"
    and "arena m b = Some cb" and "state cb = Active" and "isolation cb = Serializable"
    and "\<not> is_timed_out t3 cb" and "\<not> is_timed_out t4 cb"
    and "ws_entries (write_set cb) = []" and "lock_table m (resource_of op) = None"
  shows "\<exists>ra m1 seq m2 rb m3. commit t1 t2 id a m = (Inr ra, m1) \<and> success ra \<and>
    add_operation t3 [(t3, id)] t3 b op m1 = (Some (Inr seq), m2) \<and>
    commit t4 t5 id b m2 = (Inr rb, m3) \<and> success rb"
proof -
  have "commit_ok t1 a ca m"
    using assms(1,5,6) conflicts_with_unwritten [OF assms(11)]
    by (auto simp: commit_ok_def conflict_free_def list_all_iff split: option.split)
  then obtain ra m1 where a: "commit t1 t2 id a m = (Inr ra, m1)" "success ra" "ended a ca Committed m m1"
    using commit_result_id [of a m ca t1 t2] assms(1,3,4) by auto
  then have m1: "set (active m1) = {b}" "arena m1 b = Some cb" "lock_table m1 (resource_of op) = None"
    using assms(1,2,6,12) by (auto simp: ended_def)
  obtain seq m2 c' where b: "add_operation t3 [(t3, id)] t3 b op m1 = (Some (Inr seq), m2)"
    "active m2 = active m1" "arena m2 b = Some c'" "state c' = Active" "isolation c' = Serializable"
    "started_at c' = started_at cb" "timeout c' = timeout cb"
    using add_operation_free [of b m1 cb t3 op t3] m1 assms(7-9) by auto
  have "commit_ok t4 b c' m2"
    using assms(10) b m1(1) by (auto simp: commit_ok_def conflict_free_def list_all_iff is_timed_out_def)
  then obtain rb m3 where "commit t4 t5 id b m2 = (Inr rb, m3)" "success rb"
    using commit_result_id [of b m2 c' t4 t5] b(2-4) m1(1) by (metis insertI1)
  with a b(1) show ?thesis
    by blast
qed

text \<open>The write skew: \<open>tx_1\<close> reads in \<open>x\<close> and writes in \<open>y\<close>, \<open>tx_2\<close> the other way round.\<close>

theorem committed_writes_not_validated_witness:
  "let m0 = update_ctx ''tx_2'' (add_read ''y'' ''k'' 1) (update_ctx ''tx_1'' (add_read ''x'' ''k'' 1) sample_two);
       m = snd (add_operation 0 [(0, id)] 0 ''tx_1'' (sample_vec ''y'' [''k'']) m0)
   in \<exists>ra m1 seq m2 rb m3. commit 1 2 id ''tx_1'' m = (Inr ra, m1) \<and> success ra \<and>
        add_operation 3 [(3, id)] 3 ''tx_2'' (sample_vec ''x'' [''k'']) m1 = (Some (Inr seq), m2) \<and>
        commit 4 5 id ''tx_2'' m2 = (Inr rb, m3) \<and> success rb"
proof -
  let ?m0 = "update_ctx ''tx_2'' (add_read ''y'' ''k'' 1) (update_ctx ''tx_1'' (add_read ''x'' ''k'' 1) sample_two)"
  let ?m = "snd (add_operation 0 [(0, id)] 0 ''tx_1'' (sample_vec ''y'' [''k'']) ?m0)"
  obtain c1 c2 where "active ?m = [''tx_2'', ''tx_1'']" "arena ?m ''tx_1'' = Some c1" "state c1 = Active"
    "timeout c1 = 30000000000" "arena ?m ''tx_2'' = Some c2" "state c2 = Active" "isolation c2 = Serializable"
    "timeout c2 = 30000000000" "ws_entries (write_set c2) = []" "lock_table ?m ''vector:x'' = None"
    by (simp add: add_operation_def acquire_lock_def resource_of_def add_read_def mgr_eval sample_two_fields)
  then show ?thesis
    using committed_writes_not_validated [of ?m "''tx_1''" "''tx_2''" c1 1 c2 3 4 "sample_vec ''x'' [''k'']" 2 5]
    by (simp add: Let_def is_timed_out_def resource_of_def sample_vec_def insert_commute)
qed

end
