(* ===== verification/Queue_Store.thy ===== *)
theory Queue_Store
  imports Prelude
begin

text \<open>
  The durable coordination of the queue (\<^verbatim>\<open>proximadb-queue\<close>): partition leases (\<^verbatim>\<open>leases.rs\<close>) and committed
  offsets (\<^verbatim>\<open>offset_store.rs\<close>), two small JSON files per consumer group, both published by the exact
  byte-conditioned replacement \<open>compare_exchange\<close> of \<^verbatim>\<open>fs.rs\<close> and \<^verbatim>\<open>file_lock.rs\<close>.

  A file system maps paths (lists of components) to bytes. The JSON codec is a parameter; the wall
  clock, the outcome of each I/O call and what other processes do between two calls are arguments
  (the record \<open>attempt\<close>, one per iteration of a retry loop). Error texts leave out the formatted paths.
  Directory creation (\<open>ensure_exact_directory\<close>) is represented by its result.
\<close>

section \<open>Errors and files\<close>

datatype queue_error =
    TopicNotFound string
  | PartitionNotFound string u32
  | BackpressureSoft "nat \<times> nat"
  | Backpressure "nat \<times> nat" u64
  | Persistence string
  | PublicationIndeterminate string
  | NotFound string
  | LeaseConflict string u32 string
  | UnknownMessageId string
  | OtherError string

fun persistence_text :: "queue_error \<Rightarrow> string" where
  "persistence_text (Persistence e) = ''queue persistence failure: '' @ e"
| "persistence_text e = []"

type_synonym path = "string list"
type_synonym fs = "path \<rightharpoonup> bytes"

datatype read_io = ReadOk | ReadErr string

definition fs_read :: "read_io \<Rightarrow> path \<Rightarrow> fs \<Rightarrow> queue_error + bytes" where
  "fs_read io p f =
     (case io of
        ReadErr e \<Rightarrow> Inl (Persistence e)
      | ReadOk \<Rightarrow> (case f p of None \<Rightarrow> Inl (NotFound ''read'') | Some bs \<Rightarrow> Inr bs))"

definition read_bytes :: "read_io \<Rightarrow> path \<Rightarrow> fs \<Rightarrow> queue_error + bytes option" where
  "read_bytes io p f =
     (case fs_read io p f of
        Inr bs \<Rightarrow> Inr (Some bs)
      | Inl (NotFound _) \<Rightarrow> Inr None
      | Inl e \<Rightarrow> Inl e)"

text \<open>
  How a conditional replacement can go: it runs, the directory lock is taken by another process, or an
  error strikes before anything is compared, after the comparison but before the rename, or after the
  rename.
\<close>

datatype cas_io = CasOk | CasWouldBlock | CasErrEarly string | CasErrBefore string | CasErrAfter string

definition is_coordination_lock_file :: "string \<Rightarrow> bool" where
  "is_coordination_lock_file name \<longleftrightarrow>
     eq_ignore_ascii_case name ''access.lock'' \<or> eq_ignore_ascii_case name ''leader.lock''"

definition cas_candidate_ok :: "path \<Rightarrow> path \<Rightarrow> bool" where
  "cas_candidate_ok p c \<longleftrightarrow> butlast p \<noteq> [] \<and> c \<noteq> [] \<and> butlast c = butlast p \<and> \<not> is_coordination_lock_file (last c)"

definition compare_exchange ::
  "cas_io \<Rightarrow> path \<Rightarrow> bytes option \<Rightarrow> bytes \<Rightarrow> (path \<times> bytes option) list \<Rightarrow> fs \<Rightarrow> (queue_error + bool) \<times> fs" where
  "compare_exchange io p expected replacement guards f =
     (if \<not> list_all (\<lambda>(c, _). cas_candidate_ok p c) ((p, expected) # guards)
      then (Inl (Persistence ''conditional publication''), f)
      else case io of
             CasWouldBlock \<Rightarrow> (Inr False, f)
           | CasErrEarly e \<Rightarrow> (Inl (Persistence e), f)
           | _ \<Rightarrow>
               if \<not> list_all (\<lambda>(c, e). f c = e) ((p, expected) # guards) then (Inr False, f)
               else (case io of
                       CasErrBefore e \<Rightarrow> (Inl (Persistence e), f)
                     | CasErrAfter e \<Rightarrow> (Inl (Persistence e), f(p \<mapsto> replacement))
                     | _ \<Rightarrow> (Inr True, f(p \<mapsto> replacement))))"

section \<open>Names\<close>

definition is_ascii_alphanumeric :: "char \<Rightarrow> bool" where
  "is_ascii_alphanumeric c \<longleftrightarrow>
     (let n = of_char c :: nat in 48 \<le> n \<and> n \<le> 57 \<or> 65 \<le> n \<and> n \<le> 90 \<or> 97 \<le> n \<and> n \<le> 122)"

definition name_char :: "char \<Rightarrow> bool" where
  "name_char c \<longleftrightarrow> is_ascii_alphanumeric c \<or> c \<in> set ''-_.''"

definition validate_group :: "string \<Rightarrow> queue_error + unit" where
  "validate_group grp =
     (if grp = [] \<or> 255 < length grp \<or> hd grp \<in> set ''._'' \<or> last grp \<in> set ''._'' \<or>
         \<not> list_all name_char grp
      then Inl (Persistence ''noncanonical consumer group'') else Inr ())"

definition validate_topic :: "string \<Rightarrow> queue_error + unit" where
  "validate_topic topic =
     (if topic = [] \<or> 255 < length topic \<or> topic = ''.'' \<or> topic = ''..'' \<or> last topic = CHR ''.'' \<or>
         \<not> list_all name_char topic
      then Inl (Persistence ''invalid queue topic component'') else Inr ())"

definition group_dir_name :: "string \<Rightarrow> string" where
  "group_dir_name grp = grp"

definition LEASE_FILE :: string where "LEASE_FILE = ''lease.meta''"

definition META_FILE :: string where "META_FILE = ''offset.meta''"

definition lease_path :: "path \<Rightarrow> string \<Rightarrow> u32 \<Rightarrow> string \<Rightarrow> path" where
  "lease_path root topic part grp = root @ [topic, show_nat (unat part), group_dir_name grp, LEASE_FILE]"

definition meta_path :: "path \<Rightarrow> string \<Rightarrow> u32 \<Rightarrow> string \<Rightarrow> path" where
  "meta_path root topic part grp = root @ [topic, show_nat (unat part), grp, META_FILE]"

text \<open>One consumer group of one partition.\<close>

record queue_key =
  k_root :: path
  k_topic :: string
  k_partition :: u32
  k_group :: string

abbreviation key_lease :: "queue_key \<Rightarrow> path" where
  "key_lease k \<equiv> lease_path (k_root k) (k_topic k) (k_partition k) (k_group k)"

abbreviation key_meta :: "queue_key \<Rightarrow> path" where
  "key_meta k \<equiv> meta_path (k_root k) (k_topic k) (k_partition k) (k_group k)"

definition validate_key :: "queue_key \<Rightarrow> queue_error + unit" where
  "validate_key k = (case validate_group (k_group k) of Inl e \<Rightarrow> Inl e | Inr _ \<Rightarrow> validate_topic (k_topic k))"

text \<open>
  The environment of one iteration of a retry loop: what others do before it and between its accesses,
  the outcomes of its accesses and the clock it reads.
\<close>

record attempt =
  before :: "fs \<Rightarrow> fs"
  rd_io :: read_io
  rd2_io :: read_io
  clock :: "nat option"
  meanwhile :: "fs \<Rightarrow> fs"
  meanwhile2 :: "fs \<Rightarrow> fs"
  cs_io :: cas_io

section \<open>Leases\<close>

record lease_meta =
  holder_id :: string
  expires_at_unix_nanos :: nat

datatype lease_update = LeaseAcquire nat | LeaseRenew nat

fun lease_terms :: "lease_update \<Rightarrow> nat \<times> bool" where
  "lease_terms (LeaseAcquire d) = (d, False)"
| "lease_terms (LeaseRenew d) = (d, True)"

text \<open>What an iteration of \<open>update\<close> decides from the bytes it has read: an error, or the bytes to publish.\<close>

definition lease_publish :: "(lease_meta \<Rightarrow> bytes option) \<Rightarrow> string \<Rightarrow> nat \<Rightarrow> nat \<Rightarrow> queue_error + bytes" where
  "lease_publish ser holder duration now =
     (if 2 ^ 128 \<le> now + duration then Inl (Persistence ''lease deadline overflow'')
      else case ser \<lparr>holder_id = holder, expires_at_unix_nanos = now + duration\<rparr> of
             None \<Rightarrow> Inl (Persistence ''lease serialize'')
           | Some bs \<Rightarrow> Inr bs)"

definition lease_decide ::
  "(lease_meta \<Rightarrow> bytes option) \<Rightarrow> (bytes \<Rightarrow> lease_meta option) \<Rightarrow> queue_key \<Rightarrow> string \<Rightarrow> lease_update \<Rightarrow>
   nat \<Rightarrow> bytes option \<Rightarrow> queue_error + bytes" where
  "lease_decide ser deser k holder upd now observed =
     (let (duration, renewal) = lease_terms upd;
          conflict = LeaseConflict (k_topic k) (k_partition k)
      in case observed of
           None \<Rightarrow> if renewal then Inl (conflict ''unowned'') else lease_publish ser holder duration now
         | Some bs \<Rightarrow>
             (case deser bs of
                None \<Rightarrow> Inl (Persistence ''corrupt lease metadata'')
              | Some existing \<Rightarrow>
                  if holder_id existing = [] then Inl (Persistence ''corrupt lease: empty holder'')
                  else if (if renewal then holder_id existing \<noteq> holder \<or> expires_at_unix_nanos existing \<le> now
                           else holder_id existing \<noteq> holder \<and> now < expires_at_unix_nanos existing)
                  then Inl (conflict (holder_id existing))
                  else lease_publish ser holder duration now))"

fun update_loop ::
  "(lease_meta \<Rightarrow> bytes option) \<Rightarrow> (bytes \<Rightarrow> lease_meta option) \<Rightarrow> queue_key \<Rightarrow> string \<Rightarrow> lease_update \<Rightarrow>
   attempt list \<Rightarrow> fs \<Rightarrow> (queue_error + unit) \<times> fs" where
  "update_loop ser deser k holder upd [] f =
     (Inl (Persistence ''lease update contention retry budget exhausted''), f)"
| "update_loop ser deser k holder upd (a # as) f =
     (let f1 = before a f
      in case read_bytes (rd_io a) (key_lease k) f1 of
           Inl e \<Rightarrow> (Inl e, f1)
         | Inr observed \<Rightarrow>
             (case clock a of
                None \<Rightarrow> (Inl (Persistence ''lease clock before epoch''), f1)
              | Some now \<Rightarrow>
                  (case lease_decide ser deser k holder upd now observed of
                     Inl e \<Rightarrow> (Inl e, f1)
                   | Inr bs \<Rightarrow>
                       (case compare_exchange (cs_io a) (key_lease k) observed bs [] (meanwhile a f1) of
                          (Inl e, f2) \<Rightarrow> (Inl e, f2)
                        | (Inr True, f2) \<Rightarrow> (Inr (), f2)
                        | (Inr False, f2) \<Rightarrow> update_loop ser deser k holder upd as f2))))"

definition lease_update_op ::
  "(lease_meta \<Rightarrow> bytes option) \<Rightarrow> (bytes \<Rightarrow> lease_meta option) \<Rightarrow> queue_key \<Rightarrow> string \<Rightarrow> lease_update \<Rightarrow>
   queue_error + unit \<Rightarrow> (nat \<Rightarrow> attempt) \<Rightarrow> fs \<Rightarrow> (queue_error + unit) \<times> fs" where
  "lease_update_op ser deser k holder upd directory env f =
     (case validate_key k of
        Inl e \<Rightarrow> (Inl e, f)
      | Inr _ \<Rightarrow>
          if fst (lease_terms upd) = 0 \<or> holder = []
          then (Inl (Persistence ''lease requires nonempty holder and positive duration''), f)
          else (case directory of
                  Inl e \<Rightarrow> (Inl e, f)
                | Inr _ \<Rightarrow> update_loop ser deser k holder upd (map env [0..<8]) f))"

definition try_acquire where
  "try_acquire ser deser k holder duration directory env f =
     lease_update_op ser deser k holder (LeaseAcquire duration) directory env f"

definition renew where
  "renew ser deser k holder duration directory env f =
     lease_update_op ser deser k holder (LeaseRenew duration) directory env f"

definition owned_bytes ::
  "(bytes \<Rightarrow> lease_meta option) \<Rightarrow> queue_key \<Rightarrow> string \<Rightarrow> read_io \<Rightarrow> nat option \<Rightarrow> fs \<Rightarrow> queue_error + path \<times> bytes" where
  "owned_bytes deser k holder io now f =
     (case validate_key k of
        Inl e \<Rightarrow> Inl e
      | Inr _ \<Rightarrow>
          (case fs_read io (key_lease k) f of
             Inl e \<Rightarrow> Inl e
           | Inr bs \<Rightarrow>
               (case deser bs of
                  None \<Rightarrow> Inl (Persistence ''corrupt lease metadata'')
                | Some l \<Rightarrow>
                    if holder_id l \<noteq> holder
                    then Inl (LeaseConflict (k_topic k) (k_partition k) (holder_id l))
                    else (case now of
                            None \<Rightarrow> Inl (Persistence ''lease clock before epoch'')
                          | Some t \<Rightarrow>
                              if expires_at_unix_nanos l \<le> t
                              then Inl (LeaseConflict (k_topic k) (k_partition k) (holder_id l))
                              else Inr (key_lease k, bs)))))"

text \<open>What an iteration of \<open>release\<close> decides: it is done, or it publishes a tombstone.\<close>

definition release_decide ::
  "(lease_meta \<Rightarrow> bytes option) \<Rightarrow> (bytes \<Rightarrow> lease_meta option) \<Rightarrow> string \<Rightarrow> bytes \<Rightarrow>
   (queue_error + unit) + bytes" where
  "release_decide ser deser holder bs =
     (case deser bs of
        None \<Rightarrow> Inl (Inl (Persistence ''corrupt release metadata''))
      | Some l \<Rightarrow>
          if holder_id l \<noteq> holder \<or> expires_at_unix_nanos l = 0 then Inl (Inr ())
          else (case ser (l\<lparr>expires_at_unix_nanos := 0\<rparr>) of
                  None \<Rightarrow> Inl (Inl (Persistence ''release serialize''))
                | Some out \<Rightarrow> Inr out))"

fun release_loop ::
  "(lease_meta \<Rightarrow> bytes option) \<Rightarrow> (bytes \<Rightarrow> lease_meta option) \<Rightarrow> queue_key \<Rightarrow> string \<Rightarrow>
   attempt list \<Rightarrow> fs \<Rightarrow> (queue_error + unit) \<times> fs" where
  "release_loop ser deser k holder [] f =
     (Inl (Persistence ''lease release contention retry budget exhausted''), f)"
| "release_loop ser deser k holder (a # as) f =
     (let f1 = before a f
      in case read_bytes (rd_io a) (key_lease k) f1 of
           Inl e \<Rightarrow> (Inl e, f1)
         | Inr None \<Rightarrow> (Inr (), f1)
         | Inr (Some bs) \<Rightarrow>
             (case release_decide ser deser holder bs of
                Inl r \<Rightarrow> (r, f1)
              | Inr out \<Rightarrow>
                  (case compare_exchange (cs_io a) (key_lease k) (Some bs) out [] (meanwhile a f1) of
                     (Inl e, f2) \<Rightarrow> (Inl e, f2)
                   | (Inr True, f2) \<Rightarrow> (Inr (), f2)
                   | (Inr False, f2) \<Rightarrow> release_loop ser deser k holder as f2)))"

definition lease_release where
  "lease_release ser deser k holder env f =
     (case validate_key k of
        Inl e \<Rightarrow> (Inl e, f)
      | Inr _ \<Rightarrow> release_loop ser deser k holder (map env [0..<8]) f)"

section \<open>Committed offsets\<close>

record offset_meta =
  om_group :: string
  committed_offset :: u64

definition offset_decode :: "(bytes \<Rightarrow> offset_meta option) \<Rightarrow> string \<Rightarrow> bytes \<Rightarrow> queue_error + u64" where
  "offset_decode odeser grp bs =
     (case odeser bs of
        None \<Rightarrow> Inl (Persistence ''offset_store parse'')
      | Some m \<Rightarrow>
          if om_group m \<noteq> grp then Inl (Persistence ''offset metadata group identity mismatch'')
          else Inr (committed_offset m))"

text \<open>What an iteration of \<open>commit\<close> decides from the offset bytes it has read.\<close>

definition offset_decide ::
  "(offset_meta \<Rightarrow> bytes option) \<Rightarrow> (bytes \<Rightarrow> offset_meta option) \<Rightarrow> string \<Rightarrow> u64 \<Rightarrow> bytes option \<Rightarrow> queue_error + bytes" where
  "offset_decide oser odeser grp off observed =
     (case (case observed of
              None \<Rightarrow> Inr None
            | Some bs \<Rightarrow> (case offset_decode odeser grp bs of Inl e \<Rightarrow> Inl e | Inr v \<Rightarrow> Inr (Some v))) of
        Inl e \<Rightarrow> Inl e
      | Inr previous \<Rightarrow>
          (case oser \<lparr>om_group = grp, committed_offset = (case previous of None \<Rightarrow> off | Some v \<Rightarrow> max v off)\<rparr> of
             None \<Rightarrow> Inl (Persistence ''offset serialize'')
           | Some bs \<Rightarrow> Inr bs))"

fun offset_loop ::
  "(offset_meta \<Rightarrow> bytes option) \<Rightarrow> (bytes \<Rightarrow> offset_meta option) \<Rightarrow> (bytes \<Rightarrow> lease_meta option) \<Rightarrow>
   queue_key \<Rightarrow> string \<Rightarrow> u64 \<Rightarrow> attempt list \<Rightarrow> fs \<Rightarrow> (queue_error + unit) \<times> fs" where
  "offset_loop oser odeser deser k holder off [] f =
     (Inl (Persistence ''offset publication contention retry budget exhausted''), f)"
| "offset_loop oser odeser deser k holder off (a # as) f =
     (let f1 = before a f
      in case owned_bytes deser k holder (rd_io a) (clock a) f1 of
           Inl e \<Rightarrow> (Inl e, f1)
         | Inr (lp, lease_bytes) \<Rightarrow>
             (let f2 = meanwhile a f1
              in case read_bytes (rd2_io a) (key_meta k) f2 of
                   Inl e \<Rightarrow> (Inl e, f2)
                 | Inr observed \<Rightarrow>
                     (case offset_decide oser odeser (k_group k) off observed of
                        Inl e \<Rightarrow> (Inl e, f2)
                      | Inr bs \<Rightarrow>
                          (case compare_exchange (cs_io a) (key_meta k) observed bs [(lp, Some lease_bytes)]
                                  (meanwhile2 a f2) of
                             (Inl e, f3) \<Rightarrow> (Inl (PublicationIndeterminate (persistence_text e)), f3)
                           | (Inr True, f3) \<Rightarrow> (Inr (), f3)
                           | (Inr False, f3) \<Rightarrow> offset_loop oser odeser deser k holder off as f3))))"

definition offset_commit where
  "offset_commit oser odeser deser k holder off env f =
     (case validate_key k of
        Inl e \<Rightarrow> (Inl e, f)
      | Inr _ \<Rightarrow> offset_loop oser odeser deser k holder off (map env [0..<8]) f)"

definition offset_read :: "(bytes \<Rightarrow> offset_meta option) \<Rightarrow> queue_key \<Rightarrow> read_io \<Rightarrow> fs \<Rightarrow> queue_error + u64 option" where
  "offset_read odeser k io f =
     (case validate_key k of
        Inl e \<Rightarrow> Inl e
      | Inr _ \<Rightarrow>
          (case read_bytes io (key_meta k) f of
             Inl e \<Rightarrow> Inl e
           | Inr None \<Rightarrow> Inr None
           | Inr (Some bs) \<Rightarrow> (case offset_decode odeser (k_group k) bs of Inl e \<Rightarrow> Inl e | Inr v \<Rightarrow> Inr (Some v))))"

lemma fs_read_Inr: "fs_read io p f = Inr bs \<Longrightarrow> f p = Some bs"
  by (simp add: fs_read_def split: read_io.split_asm option.split_asm)

end
