(* ===== verification/Rust_Std.thy ===== *)
theory Rust_Std
  imports Prelude "HOL-Library.Log_Nat"
begin

text \<open>
  What the queue uses of Rust's standard library beyond \<open>Prelude\<close>: checked increments, big-endian byte
  strings, \<open>str::parse\<close> of unsigned numbers with its inverse, \<open>BTreeMap\<close> as a key-sorted association
  list, and the comparison of a quotient of \<open>f32\<close> values with a constant.
\<close>

named_theorems btree_facts \<open>key-sorted association lists\<close>

section \<open>Checked increments and big-endian bytes\<close>

definition checked_inc :: "'a::len word \<Rightarrow> 'a word option" where
  "checked_inc x = (if x = - 1 then None else Some (x + 1))"

lemma checked_inc_Some: "checked_inc x = Some y \<longleftrightarrow> y = x + 1 \<and> x \<noteq> - 1"
  by (auto simp: checked_inc_def)

lemma checked_inc_None: "checked_inc x = None \<longleftrightarrow> x = - 1"
  by (simp add: checked_inc_def)

lemma unat_inc [word_facts]: "x \<noteq> - 1 \<Longrightarrow> unat (x + 1) = unat x + 1"
  using unatSuc [of x] by (simp add: add.commute eq_neg_iff_add_eq_0)

lemma less_inc: "x \<noteq> - 1 \<Longrightarrow> (y :: 'a::len word) < x + 1 \<longleftrightarrow> y \<le> x"
  by (simp add: word_less_nat_alt word_le_nat_alt unat_inc less_Suc_eq_le)

definition be_bytes :: "nat \<Rightarrow> nat \<Rightarrow> bytes" where
  "be_bytes n v = rev (le_bytes n v)"

definition be_value :: "bytes \<Rightarrow> nat" where
  "be_value bs = le_value (rev bs)"

lemma length_be_bytes [simp]: "length (be_bytes n v) = n"
  by (simp add: be_bytes_def)

lemma be_value_be_bytes [byte_facts]: "be_value (be_bytes n v) = v mod 256 ^ n"
  by (simp add: be_value_def be_bytes_def le_value_le_bytes)

lemma be_value_unat [byte_facts]:
  "LENGTH('a) \<le> 8 * n \<Longrightarrow> be_value (be_bytes n (unat (w :: 'a::len word))) = unat w"
  by (simp add: be_value_def be_bytes_def le_value_unat)

section \<open>Decimal numbers\<close>

definition is_digit :: "char \<Rightarrow> bool" where
  "is_digit c \<longleftrightarrow> 48 \<le> (of_char c :: nat) \<and> (of_char c :: nat) \<le> 57"

definition digits_value :: "string \<Rightarrow> nat" where
  "digits_value s = foldl (\<lambda>n c. 10 * n + (of_char c - 48)) 0 s"

text \<open>\<open>str::parse\<close> into an unsigned type of the given maximum: a sign \<open>+\<close> is accepted, a lone sign is not.\<close>

definition parse_uint :: "nat \<Rightarrow> string \<Rightarrow> nat option" where
  "parse_uint mx s =
     (let ds = (case s of c # cs \<Rightarrow> if c = CHR ''+'' \<and> cs \<noteq> [] then cs else s | [] \<Rightarrow> [])
      in if ds = [] \<or> \<not> list_all is_digit ds \<or> mx < digits_value ds then None else Some (digits_value ds))"

lemma is_digit_char: "n < 10 \<Longrightarrow> is_digit (char_of (48 + n :: nat))"
  by (simp add: is_digit_def)

lemma show_nat_digits: "list_all is_digit (show_nat n)"
proof (induction n rule: show_nat.induct)
  case (1 n)
  from 1 show ?case
    by (subst show_nat.simps) (simp add: is_digit_char)
qed

lemma show_nat_not_Nil [simp]: "show_nat n \<noteq> []"
  by (subst show_nat.simps) simp

lemma digits_value_snoc: "digits_value (s @ [c]) = 10 * digits_value s + (of_char c - 48)"
  by (simp add: digits_value_def)

lemma digits_value_show_nat: "digits_value (show_nat n) = n"
proof (induction n rule: show_nat.induct)
  case (1 n)
  show ?case
  proof (cases "n < 10")
    case True
    then show ?thesis
      by (subst show_nat.simps) (simp add: digits_value_def)
  next
    case False
    have "n mod 10 < 10" by simp
    with False 1 show ?thesis
      by (subst show_nat.simps) (simp add: digits_value_snoc)
  qed
qed

lemma show_nat_inject [simp]: "show_nat m = show_nat n \<longleftrightarrow> m = n"
  by (metis digits_value_show_nat)

lemma digits_value_zeros: "digits_value (replicate k (CHR ''0'') @ s) = digits_value s"
  by (induction k) (simp_all add: digits_value_def)

lemma parse_uint_digits:
  "list_all is_digit s \<Longrightarrow> s \<noteq> [] \<Longrightarrow>
   parse_uint mx s = (if mx < digits_value s then None else Some (digits_value s))"
  by (cases s) (auto simp: parse_uint_def is_digit_def)

lemma parse_uint_show_nat: "n \<le> mx \<Longrightarrow> parse_uint mx (show_nat n) = Some n"
  by (simp add: parse_uint_digits show_nat_digits digits_value_show_nat)

section \<open>Ordered maps\<close>

fun bt_insert :: "'k::linorder \<Rightarrow> 'v \<Rightarrow> ('k \<times> 'v) list \<Rightarrow> ('k \<times> 'v) list" where
  "bt_insert k v [] = [(k, v)]"
| "bt_insert k v ((k', v') # xs) =
     (if k < k' then (k, v) # (k', v') # xs
      else if k = k' then (k, v) # xs
      else (k', v') # bt_insert k v xs)"

definition bt_range :: "'k::linorder \<Rightarrow> ('k \<times> 'v) list \<Rightarrow> ('k \<times> 'v) list" where
  "bt_range lo xs = filter (\<lambda>p. lo \<le> fst p) xs"

definition bt_ok :: "('k::linorder \<times> 'v) list \<Rightarrow> bool" where
  "bt_ok xs \<longleftrightarrow> sorted_wrt (<) (map fst xs)"

lemma bt_ok_simps [simp]:
  "bt_ok []" "bt_ok (p # xs) \<longleftrightarrow> (\<forall>q \<in> set xs. fst p < fst q) \<and> bt_ok xs"
  by (auto simp: bt_ok_def)

lemma set_bt_insert [btree_facts]:
  "bt_ok xs \<Longrightarrow> set (bt_insert k v xs) = insert (k, v) {p \<in> set xs. fst p \<noteq> k}"
  by (induction k v xs rule: bt_insert.induct) auto

lemma bt_ok_insert [btree_facts]: "bt_ok xs \<Longrightarrow> bt_ok (bt_insert k v xs)"
  by (induction k v xs rule: bt_insert.induct) (auto simp: set_bt_insert)

lemma map_of_bt_insert [btree_facts]: "bt_ok xs \<Longrightarrow> map_of (bt_insert k v xs) = (map_of xs)(k \<mapsto> v)"
proof (induction k v xs rule: bt_insert.induct)
  case (2 k v k' v' xs)
  then show ?case
    by (cases "k < k'"; cases "k = k'") (auto simp: fun_eq_iff)
qed simp

lemma bt_ok_distinct: "bt_ok xs \<Longrightarrow> distinct (map fst xs)"
  by (induction xs) auto

lemma length_bt_insert:
  "length (bt_insert k v xs) \<le> Suc (length xs)" "length xs \<le> length (bt_insert k v xs)"
  by (induction k v xs rule: bt_insert.induct) auto

lemma bt_ok_filter [btree_facts]: "bt_ok xs \<Longrightarrow> bt_ok (filter P xs)"
  by (induction xs) auto

lemma bt_insert_last:
  "\<forall>q \<in> set xs. fst q < k \<Longrightarrow> bt_insert k v xs = xs @ [(k, v)]"
  by (induction k v xs rule: bt_insert.induct) auto

section \<open>Single precision\<close>

text \<open>
  \<open>f32_nat n\<close> is the value of \<open>n as f32\<close>: the 24 leading bits, rounded to nearest, ties to even. The
  correctly rounded quotient of two such values reaches the constants 0.75 and 0.95 of the memory tier
  exactly from the midpoint below the constant on: 25165823/2^25 for 0.75 = 12582912/2^24 (an even
  significand, so the tie rounds up) and 31876709/2^25 for the 0.95 literal 15938355/2^24 (odd, so the
  tie rounds down).
\<close>

definition f32_nat :: "nat \<Rightarrow> nat" where
  "f32_nat n =
     (let s = floorlog 2 n - 24; q = n div 2 ^ s; r = n mod 2 ^ s
      in (if 2 * r > 2 ^ s \<or> 2 * r = 2 ^ s \<and> s \<noteq> 0 \<and> odd q then q + 1 else q) * 2 ^ s)"

definition ratio_ge_075 :: "nat \<Rightarrow> nat \<Rightarrow> bool" where
  "ratio_ge_075 a b \<longleftrightarrow> 25165823 * f32_nat b \<le> f32_nat a * 2 ^ 25"

definition ratio_ge_095 :: "nat \<Rightarrow> nat \<Rightarrow> bool" where
  "ratio_ge_095 a b \<longleftrightarrow> 31876709 * f32_nat b < f32_nat a * 2 ^ 25"

lemma f32_nat_small [simp]: "n < 2 ^ 24 \<Longrightarrow> f32_nat n = n"
  using floorlog_leI [of n 2 24] by (simp add: f32_nat_def)

end
