(* ===== verification/Queue_Memory.thy ===== *)
theory Queue_Memory
  imports Queue_Store Rust_Std
begin

text \<open>
  Messages (\<^verbatim>\<open>message.rs\<close>) and the memory tier of a partition (\<^verbatim>\<open>memory_tier.rs\<close>): a buffer of retained
  entries by offset, appended to by producers and read by consumer groups from a cursor. The offset
  counter and the buffer are one record; each operation is one critical section of the source. The
  pressure percentages are kept as the pair (depth, capacity) they are the quotient of. \<open>retained_log\<close> is
  the contract consumers rely on, interpreted on the buffer.
\<close>

section \<open>Messages\<close>

record message =
  msg_topic :: string
  tenant_id :: string
  payload :: bytes
  headers :: "string \<rightharpoonup> string"
  produced_at :: nat
  attempt_count :: u32

definition message_new :: "string \<Rightarrow> string \<Rightarrow> bytes \<Rightarrow> nat \<Rightarrow> message" where
  "message_new topic tenant body now = \<lparr>msg_topic = topic, tenant_id = tenant, payload = body,
     headers = Map.empty, produced_at = now, attempt_count = 0\<rparr>"

definition with_header :: "string \<Rightarrow> string \<Rightarrow> message \<Rightarrow> message" where
  "with_header k v m = m\<lparr>headers := (headers m)(k \<mapsto> v)\<rparr>"

datatype message_id = MessageId string

definition message_id_new :: "u32 \<Rightarrow> u64 \<Rightarrow> u64 \<Rightarrow> message_id" where
  "message_id_new part segment_id off =
     MessageId (show_nat (unat part) @ '':'' @ show_nat (unat segment_id) @ '':'' @ show_nat (unat off))"

fun message_id_partition :: "message_id \<Rightarrow> u32 option" where
  "message_id_partition (MessageId s) =
     map_option of_nat (parse_uint (2 ^ 32 - 1) (takeWhile (\<lambda>c. c \<noteq> CHR '':'') s))"

record delivery =
  dl_message_id :: message_id
  dl_message :: message

datatype backpressure_hint = SoftHint

section \<open>The buffer\<close>

record memory_entry =
  me_message :: message
  me_message_id :: message_id
  me_offset :: u64

record memory =
  pm_partition :: u32
  pm_capacity :: nat
  pm_entries :: "(u64 \<times> memory_entry) list"
  pm_next_offset :: u64

datatype pressure_level = Soft "nat \<times> nat" | Hard "nat \<times> nat"

record message_entry =
  en_message_id :: message_id
  en_offset :: u64

definition memory_new :: "u32 \<Rightarrow> nat \<Rightarrow> memory" where
  "memory_new part cap = \<lparr>pm_partition = part, pm_capacity = max cap 1, pm_entries = [], pm_next_offset = 0\<rparr>"

definition depth :: "memory \<Rightarrow> nat" where
  "depth m = length (pm_entries m)"

definition pressure :: "memory \<Rightarrow> pressure_level option" where
  "pressure m =
     (if ratio_ge_095 (depth m) (pm_capacity m) then Some (Hard (depth m, pm_capacity m))
      else if ratio_ge_075 (depth m) (pm_capacity m) then Some (Soft (depth m, pm_capacity m))
      else None)"

text \<open>\<open>others\<close> is what other clients do between the insertion and the reading of the pressure.\<close>

definition enqueue_at ::
  "message \<Rightarrow> u64 \<Rightarrow> (memory \<Rightarrow> memory) \<Rightarrow> memory \<Rightarrow> (message + message_entry \<times> backpressure_hint option) \<times> memory" where
  "enqueue_at msg off others m =
     (let i = message_id_new (pm_partition m) 0 off;
          entry = \<lparr>me_message = msg, me_message_id = i, me_offset = off\<rparr>
      in if pm_capacity m \<le> length (pm_entries m) then (Inl msg, m)
         else let m1 = others (m\<lparr>pm_entries := bt_insert off entry (pm_entries m)\<rparr>);
                  hint = (case pressure m1 of Some (Soft _) \<Rightarrow> Some SoftHint | _ \<Rightarrow> None)
              in (Inr (\<lparr>en_message_id = i, en_offset = off\<rparr>, hint), m1))"

definition try_enqueue where
  "try_enqueue msg others m =
     (case checked_inc (pm_next_offset m) of
        None \<Rightarrow> (Inl msg, m)
      | Some n \<Rightarrow> enqueue_at msg (pm_next_offset m) others (m\<lparr>pm_next_offset := n\<rparr>))"

definition enqueue_with_offset where
  "enqueue_with_offset msg off others m =
     (case checked_inc off of
        None \<Rightarrow> (Inl msg, m)
      | Some n \<Rightarrow> enqueue_at msg off others (m\<lparr>pm_next_offset := max (pm_next_offset m) n\<rparr>))"

fun read_loop :: "nat \<Rightarrow> u64 option \<Rightarrow> (u64 \<times> memory_entry) list \<Rightarrow> memory_entry list \<Rightarrow> memory_entry list" where
  "read_loop mx expected [] out = out"
| "read_loop mx expected ((off, e) # es) out =
     (if expected \<noteq> None \<and> expected \<noteq> Some off then out
      else if mx \<le> length out then out
      else case checked_inc off of
             None \<Rightarrow> out @ [e]
           | Some n \<Rightarrow> read_loop mx (Some n) es (out @ [e]))"

definition read_from :: "u64 \<Rightarrow> nat \<Rightarrow> memory \<Rightarrow> memory_entry list" where
  "read_from cursor mx m = read_loop mx None (bt_range cursor (pm_entries m)) []"

definition trim_below :: "u64 \<Rightarrow> memory \<Rightarrow> memory" where
  "trim_below watermark m = m\<lparr>pm_entries := bt_range watermark (pm_entries m)\<rparr>"

section \<open>Invariant\<close>

definition mem_ok :: "memory \<Rightarrow> bool" where
  "mem_ok m \<longleftrightarrow> bt_ok (pm_entries m) \<and> 1 \<le> pm_capacity m \<and> length (pm_entries m) \<le> pm_capacity m \<and>
     (\<forall>(off, e) \<in> set (pm_entries m). me_offset e = off \<and> me_message_id e = message_id_new (pm_partition m) 0 off \<and>
        off < pm_next_offset m)"

abbreviation retained :: "memory \<Rightarrow> u64 \<rightharpoonup> memory_entry" where
  "retained m \<equiv> map_of (pm_entries m)"

lemma mem_ok_new: "mem_ok (memory_new part cap)"
  by (simp add: mem_ok_def memory_new_def)

lemma mem_ok_trim: "mem_ok m \<Longrightarrow> mem_ok (trim_below w m)"
  by (auto simp: mem_ok_def trim_below_def bt_range_def btree_facts intro: order_trans [OF length_filter_le])

lemma mem_ok_enqueue_with_offset:
  assumes "mem_ok m" "\<And>m. mem_ok m \<Longrightarrow> mem_ok (e m)" "enqueue_with_offset msg off e m = (r, m')"
  shows "mem_ok m'"
proof (cases "checked_inc off")
  case None
  with assms show ?thesis by (simp add: enqueue_with_offset_def)
next
  case (Some n)
  let ?m = "m\<lparr>pm_next_offset := max (pm_next_offset m) n\<rparr>"
  let ?e = "\<lparr>me_message = msg, me_message_id = message_id_new (pm_partition m) 0 off, me_offset = off\<rparr>"
  have n: "off < n"
    using Some by (auto simp: checked_inc_Some word_less_nat_alt word_facts)
  then have "mem_ok ?m"
    using assms(1) by (auto simp: mem_ok_def less_max_iff_disj)
  moreover have "length (pm_entries m) < pm_capacity m \<Longrightarrow>
      mem_ok (?m\<lparr>pm_entries := bt_insert off ?e (pm_entries m)\<rparr>)"
    using assms(1) n length_bt_insert(1) [of off ?e "pm_entries m"]
    by (auto simp: mem_ok_def btree_facts less_max_iff_disj)
  ultimately show ?thesis
    using assms(2,3) Some
    by (auto simp: enqueue_with_offset_def enqueue_at_def Let_def split: if_splits)
qed

section \<open>Reading\<close>

text \<open>The reference: consecutive retained entries from an offset on.\<close>

fun run_from :: "(u64 \<rightharpoonup> memory_entry) \<Rightarrow> u64 \<Rightarrow> nat \<Rightarrow> memory_entry list" where
  "run_from M off 0 = []"
| "run_from M off (Suc n) =
     (case M off of
        None \<Rightarrow> []
      | Some e \<Rightarrow> e # (case checked_inc off of None \<Rightarrow> [] | Some off' \<Rightarrow> run_from M off' n))"

lemma run_from_cong:
  "(\<And>k. off \<le> k \<Longrightarrow> M k = M' k) \<Longrightarrow> run_from M off n = run_from M' off n"
proof (induction n arbitrary: off)
  case (Suc n)
  have "run_from M (off + 1) n = run_from M' (off + 1) n" if "off \<noteq> - 1"
    by (rule Suc.IH, rule Suc.prems) (use that in \<open>simp add: word_le_nat_alt word_facts\<close>)
  with Suc.prems [of off] show ?case
    by (auto simp: checked_inc_def split: option.splits)
qed simp

lemma read_loop_run:
  assumes "bt_ok es" "\<forall>p \<in> set es. off \<le> fst p"
  shows "read_loop mx (Some off) es out = out @ run_from (map_of es) off (mx - length out)"
  using assms
proof (induction es arbitrary: off out)
  case Nil
  then show ?case
    by (cases "mx - length out") auto
next
  case (Cons p es)
  obtain k e where p: "p = (k, e)"
    by (cases p)
  show ?case
  proof (cases "k = off \<and> length out < mx")
    case False
    moreover have "map_of es off = None" if "k \<noteq> off"
      using Cons.prems p that by (force simp: map_of_eq_None_iff)
    ultimately show ?thesis
      using p by (cases "mx - length out") auto
  next
    case True
    then obtain n where n: "mx - length out = Suc n" "mx - length (out @ [e]) = n"
      by (cases "mx - length out") auto
    have "read_loop mx (Some (k + 1)) es (out @ [e]) = (out @ [e]) @ run_from (map_of es) (k + 1) n" if "k \<noteq> - 1"
      using Cons.IH [of "k + 1" "out @ [e]"] Cons.prems p that n
      by (force simp: word_le_nat_alt word_less_nat_alt word_facts)
    moreover have "run_from (map_of ((k, e) # es)) (k + 1) n = run_from (map_of es) (k + 1) n" if "k \<noteq> - 1"
      by (rule run_from_cong) (use that in \<open>auto simp: word_le_nat_alt word_facts\<close>)
    ultimately show ?thesis
      using True p n by (auto simp: checked_inc_def fun_upd_def)
  qed
qed

lemma read_loop_first:
  "read_loop mx None ((k, e) # es) out = read_loop mx (Some k) ((k, e) # es) out"
  by simp

lemma map_of_bt_range: "lo \<le> k \<Longrightarrow> map_of (bt_range lo xs) k = map_of xs k"
  by (induction xs) (auto simp: bt_range_def)

lemma bt_range_first:
  assumes "bt_ok xs" "bt_range lo xs = (k, e) # es"
  shows "(LEAST o'. lo \<le> o' \<and> map_of xs o' \<noteq> None) = k \<and> lo \<le> k \<and> map_of xs k \<noteq> None"
proof -
  have ok: "bt_ok ((k, e) # es)"
    using assms by (metis bt_ok_filter bt_range_def)
  have in_range: "o' \<in> fst ` set ((k, e) # es) \<longleftrightarrow> lo \<le> o' \<and> map_of xs o' \<noteq> None" for o'
    unfolding assms(2) [symmetric] by (auto simp: bt_range_def map_of_eq_None_iff)
  have "lo \<le> k \<and> map_of xs k \<noteq> None"
    using in_range [of k] by simp
  moreover have "k \<le> o'" if "lo \<le> o' \<and> map_of xs o' \<noteq> None" for o'
    using in_range [of o'] that ok by (auto intro: less_imp_le)
  ultimately show ?thesis
    by (auto intro: Least_equality)
qed

lemma read_from_cons:
  assumes "mem_ok m" "bt_range c (pm_entries m) = (k, e) # es"
  shows "read_from c n m = run_from (map_of (bt_range c (pm_entries m))) k n"
proof -
  have bt: "bt_ok ((k, e) # es)"
    using assms bt_ok_filter [of "pm_entries m" "\<lambda>p. c \<le> fst p"] by (simp add: bt_range_def mem_ok_def)
  then have "\<forall>q \<in> set ((k, e) # es). k \<le> fst q"
    by (auto intro: less_imp_le)
  then show ?thesis
    using read_loop_run [OF bt, of k n "[]"] assms(2) by (simp add: read_from_def)
qed

text \<open>
  C20: what a poll reads. Whatever is retained, reading from a cursor returns the run of consecutive
  offsets that starts at the first retained offset at or after the cursor, cut at the batch size: in
  order, without removing anything, and stopping at the first missing offset after its start.
\<close>

theorem read_from_run:
  assumes "mem_ok m"
  shows "read_from cursor mx m =
    (if \<exists>k. cursor \<le> k \<and> retained m k \<noteq> None
     then run_from (retained m) (LEAST k. cursor \<le> k \<and> retained m k \<noteq> None) mx else [])"
proof (cases "bt_range cursor (pm_entries m)")
  case Nil
  then have "\<not> (\<exists>k. cursor \<le> k \<and> retained m k \<noteq> None)"
    by (metis map_of_bt_range map_of.simps(1))
  then have "(\<exists>k. cursor \<le> k \<and> retained m k \<noteq> None) = False"
    by simp
  with Nil show ?thesis
    by (simp only: read_from_def read_loop.simps if_False)
next
  case (Cons p es)
  obtain k e where p: "p = (k, e)"
    by (cases p)
  have ok: "bt_ok (pm_entries m)"
    using assms by (simp add: mem_ok_def)
  note first = bt_range_first [OF ok Cons [unfolded p]]
  have "read_from cursor mx m = run_from (map_of (bt_range cursor (pm_entries m))) k mx"
    using assms Cons p by (simp add: read_from_cons)
  also have "\<dots> = run_from (retained m) k mx"
    using first by (intro run_from_cong map_of_bt_range) (meson order_trans)
  finally show ?thesis
    using first by auto
qed

definition sample_entry :: "u64 \<Rightarrow> memory_entry" where
  "sample_entry off = \<lparr>me_message = message_new ''t'' ''a'' [] 0, me_message_id = message_id_new 0 0 off, me_offset = off\<rparr>"

definition sample_memory :: memory where
  "sample_memory = \<lparr>pm_partition = 0, pm_capacity = 8,
     pm_entries = [(0, sample_entry 0), (1, sample_entry 1), (3, sample_entry 3)], pm_next_offset = 4\<rparr>"

lemma sample_memory_ok: "mem_ok sample_memory"
  by (simp add: mem_ok_def sample_memory_def sample_entry_def)

theorem read_from_run_witness:
  "mem_ok sample_memory \<and> read_from 0 9 sample_memory = [sample_entry 0, sample_entry 1] \<and>
   run_from (retained sample_memory) (LEAST k. 0 \<le> k \<and> retained sample_memory k \<noteq> None) 9 =
     [sample_entry 0, sample_entry 1]"
proof -
  have read: "read_from 0 9 sample_memory = [sample_entry 0, sample_entry 1]"
    by (simp add: read_from_def sample_memory_def bt_range_def checked_inc_def)
  have "retained sample_memory 0 \<noteq> None"
    by (simp add: sample_memory_def)
  then have "\<exists>k. 0 \<le> k \<and> retained sample_memory k \<noteq> None"
    by (metis order_refl)
  with read_from_run [OF sample_memory_ok, of 0 9] read sample_memory_ok show ?thesis
    by (simp only: if_True)
qed

section \<open>The contract of a retained log\<close>

text \<open>What consumers rely on: a read returns retained entries at or after the cursor, in ascending order.\<close>

locale retained_log =
  fixes inv :: "'m \<Rightarrow> bool"
    and part :: "'m \<Rightarrow> u32"
    and entry_at :: "'m \<Rightarrow> u64 \<rightharpoonup> memory_entry"
    and read :: "u64 \<Rightarrow> nat \<Rightarrow> 'm \<Rightarrow> memory_entry list"
  assumes read_ascending: "inv m \<Longrightarrow> sorted_wrt (<) (map me_offset (read c n m))"
    and read_retained: "inv m \<Longrightarrow> e \<in> set (read c n m) \<Longrightarrow> c \<le> me_offset e \<and> entry_at m (me_offset e) = Some e"
    and entry_id: "inv m \<Longrightarrow> entry_at m k = Some e \<Longrightarrow> me_offset e = k \<and> me_message_id e = message_id_new (part m) 0 k"
    and read_bounded: "inv m \<Longrightarrow> length (read c n m) \<le> n"
begin

lemma read_id: "inv m \<Longrightarrow> e \<in> set (read c n m) \<Longrightarrow> me_message_id e = message_id_new (part m) 0 (me_offset e)"
  using read_retained entry_id by blast

lemma read_after:
  "inv m \<Longrightarrow> sorted_wrt (<) ks \<Longrightarrow> \<forall>k \<in> set ks. k < c \<Longrightarrow> sorted_wrt (<) (ks @ map me_offset (read c n m))"
  by (force simp: sorted_wrt_append read_ascending dest: read_retained)

end

lemma run_from_entries:
  assumes "\<And>k e. M k = Some e \<Longrightarrow> me_offset e = k"
  shows "sorted_wrt (<) (map me_offset (run_from M off n)) \<and> length (run_from M off n) \<le> n \<and>
    (\<forall>e \<in> set (run_from M off n). off \<le> me_offset e \<and> M (me_offset e) = Some e)"
proof (induction n arbitrary: off)
  case (Suc n)
  show ?case
  proof (cases "M off")
    case (Some e)
    note e = assms [OF Some]
    show ?thesis
    proof (cases "checked_inc off")
      case None
      with Some e show ?thesis by simp
    next
      case inc: (Some off')
      then have lt: "off < off'"
        by (auto simp: checked_inc_Some word_less_nat_alt word_facts)
      from Suc.IH [of off'] Some e inc lt show ?thesis
        by (auto intro: less_le_trans order_trans [OF less_imp_le])
    qed
  qed simp
qed simp

lemma mem_ok_entry:
  "mem_ok m \<Longrightarrow> retained m k = Some e \<Longrightarrow> me_offset e = k \<and> me_message_id e = message_id_new (pm_partition m) 0 k \<and> k < pm_next_offset m"
  by (auto simp: mem_ok_def dest!: map_of_SomeD)

lemma read_from_entries:
  assumes "mem_ok m"
  shows "sorted_wrt (<) (map me_offset (read_from c n m)) \<and> length (read_from c n m) \<le> n \<and>
    (\<forall>e \<in> set (read_from c n m). c \<le> me_offset e \<and> retained m (me_offset e) = Some e)"
proof (cases "bt_range c (pm_entries m)")
  case Nil
  then show ?thesis
    by (simp add: read_from_def)
next
  case (Cons p es)
  obtain k e where p: "p = (k, e)"
    by (cases p)
  have ok: "bt_ok (pm_entries m)"
    using assms by (simp add: mem_ok_def)
  have read: "read_from c n m = run_from (map_of (bt_range c (pm_entries m))) k n"
    using assms Cons p by (simp add: read_from_cons)
  have sub: "retained m k' = Some e'" if "map_of (bt_range c (pm_entries m)) k' = Some e'" for k' e'
    using that ok by (auto simp: bt_range_def dest!: map_of_SomeD intro: map_of_is_SomeI bt_ok_distinct)
  have "c \<le> k"
    using bt_range_first [OF ok Cons [unfolded p]] by simp
  with run_from_entries [of "map_of (bt_range c (pm_entries m))" k n] sub mem_ok_entry [OF assms] show ?thesis
    unfolding read by (meson order_trans)
qed

interpretation mem_log: retained_log mem_ok pm_partition retained read_from
  using read_from_entries mem_ok_entry by unfold_locales blast+

end
