(* ===== verification/Queue_Disk.thy ===== *)
theory Queue_Disk
  imports Queue_Memory
begin

text \<open>
  The disk tier of a partition (\<^verbatim>\<open>disk_tier.rs\<close>): length-prefixed frames appended to segment files, the
  writer that assigns offsets and rotates segments, and the names of segment files. An append of the
  writer is two atomic steps, \<open>reserve_offset\<close> and \<open>write_frame\<close>, between which other producers run.
  Serialization is a parameter; a file append can fail before or after writing some of its bytes.
  File sizes are natural numbers.
\<close>

section \<open>Configuration\<close>

datatype sync_mode = Strict | Lazy

record topic_config =
  partition_count :: u32
  memory_capacity :: nat
  disk_rotation_size_mb :: u32
  archive_after :: "nat option"
  max_attempts :: u32
  sync_mode_override :: "sync_mode option"
  group_commit_max_wait :: nat
  group_commit_max_batch :: nat
  lease_duration :: nat

text \<open>Durations are in nanoseconds.\<close>

definition topic_config_default :: topic_config where
  "topic_config_default = \<lparr>partition_count = 16, memory_capacity = 4096, disk_rotation_size_mb = 16,
     archive_after = None, max_attempts = 5, sync_mode_override = None, group_commit_max_wait = 5 * 10 ^ 6,
     group_commit_max_batch = 64, lease_duration = 30 * 10 ^ 9\<rparr>"

section \<open>Appending to files\<close>

datatype append_io = AppendOk | AppendErr string | AppendPartial nat string

definition contents :: "path \<Rightarrow> fs \<Rightarrow> bytes" where
  "contents p f = (case f p of None \<Rightarrow> [] | Some bs \<Rightarrow> bs)"

fun fs_append :: "append_io \<Rightarrow> path \<Rightarrow> bytes \<Rightarrow> fs \<Rightarrow> (queue_error + unit) \<times> fs" where
  "fs_append AppendOk p data f = (Inr (), f(p \<mapsto> contents p f @ data))"
| "fs_append (AppendErr e) p data f = (Inl (Persistence e), f)"
| "fs_append (AppendPartial n e) p data f = (Inl (Persistence e), f(p \<mapsto> contents p f @ take n data))"

section \<open>Segment files\<close>

definition SEGMENT_EXT :: string where "SEGMENT_EXT = ''qseg''"

definition pad_zero :: "nat \<Rightarrow> string \<Rightarrow> string" where
  "pad_zero w s = replicate (w - length s) (CHR ''0'') @ s"

definition segment_path :: "path \<Rightarrow> u64 \<Rightarrow> path" where
  "segment_path dir segment_id = dir @ [pad_zero 10 (show_nat (unat segment_id)) @ ''.'' @ SEGMENT_EXT]"

definition strip_suffix :: "string \<Rightarrow> string \<Rightarrow> string option" where
  "strip_suffix suf s =
     (if length suf \<le> length s \<and> drop (length s - length suf) s = suf then Some (take (length s - length suf) s) else None)"

definition segment_id_of :: "path \<Rightarrow> u64 option" where
  "segment_id_of p =
     (if p = [] then None
      else Option.bind (strip_suffix (''.'' @ SEGMENT_EXT) (last p))
             (\<lambda>stem. map_option of_nat (parse_uint (2 ^ 64 - 1) stem)))"

record segment =
  sg_topic :: string
  sg_partition :: u32
  sg_id :: u64
  sg_path :: path
  sg_size :: nat
  sg_sealed :: bool

definition list_segments :: "queue_error + path list \<Rightarrow> string \<Rightarrow> u32 \<Rightarrow> fs \<Rightarrow> queue_error + segment list" where
  "list_segments listing topic part f =
     (case listing of
        Inl e \<Rightarrow> Inl e
      | Inr ps \<Rightarrow> Inr (List.map_filter (\<lambda>p.
          map_option (\<lambda>i. \<lparr>sg_topic = topic, sg_partition = part, sg_id = i, sg_path = p,
             sg_size = length (contents p f), sg_sealed = False\<rparr>) (segment_id_of p)) ps))"

section \<open>The writer\<close>

record disk_writer =
  dw_topic :: string
  dw_partition :: u32
  dw_root :: path
  dw_config :: topic_config
  active_segment_id :: u64
  active_segment_path :: path
  active_segment_size :: nat
  dw_next_offset :: u64

definition partition_dir :: "path \<Rightarrow> string \<Rightarrow> u32 \<Rightarrow> path" where
  "partition_dir rt topic part = rt @ [topic, show_nat (unat part)]"

text \<open>\<open>max_by_key\<close>: the last of the segments with the greatest id.\<close>

fun latest_segment :: "segment list \<Rightarrow> segment option" where
  "latest_segment [] = None"
| "latest_segment (s # ss) =
     (case latest_segment ss of None \<Rightarrow> Some s | Some t \<Rightarrow> if sg_id s \<le> sg_id t then Some t else Some s)"

definition writer_open ::
  "string \<Rightarrow> u32 \<Rightarrow> path \<Rightarrow> topic_config \<Rightarrow> queue_error + unit \<Rightarrow> queue_error + path list \<Rightarrow> append_io \<Rightarrow> fs \<Rightarrow>
   (queue_error + disk_writer) \<times> fs" where
  "writer_open topic part rt cfg mkdir listing io f =
     (let dir = partition_dir rt topic part;
          writer = (\<lambda>i p n. \<lparr>dw_topic = topic, dw_partition = part, dw_root = rt, dw_config = cfg,
             active_segment_id = i, active_segment_path = p, active_segment_size = n, dw_next_offset = 0\<rparr>)
      in case mkdir of
           Inl e \<Rightarrow> (Inl e, f)
         | Inr _ \<Rightarrow>
             (case list_segments listing topic part f of
                Inl e \<Rightarrow> (Inl e, f)
              | Inr existing \<Rightarrow>
                  (case latest_segment existing of
                     Some s \<Rightarrow> (Inr (writer (sg_id s) (sg_path s) (sg_size s)), f)
                   | None \<Rightarrow>
                       (case fs_append io (segment_path dir 0) [] f of
                          (Inl e, f1) \<Rightarrow> (Inl e, f1)
                        | (Inr _, f1) \<Rightarrow> (Inr (writer 0 (segment_path dir 0) 0), f1)))))"

definition set_next_offset :: "u64 \<Rightarrow> disk_writer \<Rightarrow> disk_writer" where
  "set_next_offset v w = w\<lparr>dw_next_offset := v\<rparr>"

abbreviation writer_dir :: "disk_writer \<Rightarrow> path" where
  "writer_dir w \<equiv> partition_dir (dw_root w) (dw_topic w) (dw_partition w)"

definition activate :: "u64 \<Rightarrow> disk_writer \<Rightarrow> disk_writer" where
  "activate i w = w\<lparr>active_segment_id := i, active_segment_path := segment_path (writer_dir w) i, active_segment_size := 0\<rparr>"

definition advance_past_recovered_segment ::
  "u64 \<Rightarrow> append_io \<Rightarrow> disk_writer \<Rightarrow> fs \<Rightarrow> (queue_error + disk_writer) \<times> fs" where
  "advance_past_recovered_segment recovered io w f =
     (if recovered < active_segment_id w then (Inr w, f)
      else case checked_inc recovered of
             None \<Rightarrow> (Inl (Persistence ''recovered segment ID exhausted''), f)
           | Some i \<Rightarrow>
               (case fs_append io (segment_path (writer_dir w) i) [] f of
                  (Inl e, f1) \<Rightarrow> (Inl e, f1)
                | (Inr _, f1) \<Rightarrow> (Inr (activate i w), f1)))"

text \<open>\<open>frame\<close> is \<open>[4 BE: payload_len][8 BE: offset][payload]\<close>; the length is truncated to 32 bits.\<close>

definition frame :: "u64 \<Rightarrow> bytes \<Rightarrow> bytes" where
  "frame off body = be_bytes 4 (length body) @ be_bytes 8 (unat off) @ body"

definition reserve_offset :: "disk_writer \<Rightarrow> (queue_error + u64) \<times> disk_writer" where
  "reserve_offset w =
     (case checked_inc (dw_next_offset w) of
        None \<Rightarrow> (Inl (Persistence ''queue disk offset exhausted''), w)
      | Some n \<Rightarrow> (Inr (dw_next_offset w), w\<lparr>dw_next_offset := n\<rparr>))"

definition rotation_bytes :: "disk_writer \<Rightarrow> nat" where
  "rotation_bytes w = unat (disk_rotation_size_mb (dw_config w)) * 1024 * 1024"

definition rotate :: "append_io \<Rightarrow> nat \<Rightarrow> disk_writer \<Rightarrow> fs \<Rightarrow> (queue_error + disk_writer) \<times> fs" where
  "rotate io frame_len w f =
     (if 0 < active_segment_size w \<and> rotation_bytes w < active_segment_size w + frame_len
      then let i = active_segment_id w + 1
           in case fs_append io (segment_path (writer_dir w) i) [] f of
                (Inl e, f1) \<Rightarrow> (Inl e, f1)
              | (Inr _, f1) \<Rightarrow> (Inr (activate i w), f1)
      else (Inr w, f))"

definition write_frame ::
  "append_io \<Rightarrow> append_io \<Rightarrow> bytes \<Rightarrow> disk_writer \<Rightarrow> fs \<Rightarrow> (queue_error + path) \<times> disk_writer \<times> fs" where
  "write_frame rot_io io framed w f =
     (case rotate rot_io (length framed) w f of
        (Inl e, f1) \<Rightarrow> (Inl e, w, f1)
      | (Inr w1, f1) \<Rightarrow>
          (case fs_append io (active_segment_path w1) framed f1 of
             (Inl e, f2) \<Rightarrow> (Inl e, w1, f2)
           | (Inr _, f2) \<Rightarrow>
               (Inr (active_segment_path w1),
                w1\<lparr>active_segment_size := active_segment_size w1 + length framed\<rparr>, f2)))"

record append_outcome =
  ao_segment_path :: path
  ao_offset :: u64

definition disk_append ::
  "(message \<Rightarrow> bytes option) \<Rightarrow> append_io \<Rightarrow> append_io \<Rightarrow> (disk_writer \<times> fs \<Rightarrow> disk_writer \<times> fs) \<Rightarrow> message \<Rightarrow>
   disk_writer \<Rightarrow> fs \<Rightarrow> (queue_error + append_outcome) \<times> disk_writer \<times> fs" where
  "disk_append ser rot_io io others msg w f =
     (case reserve_offset w of
        (Inl e, w1) \<Rightarrow> (Inl e, w1, f)
      | (Inr off, w1) \<Rightarrow>
          (case ser msg of
             None \<Rightarrow> (Inl (Persistence ''serialize''), w1, f)
           | Some body \<Rightarrow>
               (let (w2, f2) = others (w1, f)
                in case write_frame rot_io io (frame off body) w2 f2 of
                     (Inl e, w3, f3) \<Rightarrow> (Inl e, w3, f3)
                   | (Inr p, w3, f3) \<Rightarrow> (Inr \<lparr>ao_segment_path = p, ao_offset = off\<rparr>, w3, f3))))"

section \<open>Names and frames\<close>

lemma strip_suffix_append: "strip_suffix suf (s @ suf) = Some s"
  by (simp add: strip_suffix_def)

lemma parse_padded: "n \<le> mx \<Longrightarrow> parse_uint mx (pad_zero w (show_nat n)) = Some n"
proof -
  assume "n \<le> mx"
  have "list_all is_digit (pad_zero w (show_nat n))"
    by (auto simp: pad_zero_def show_nat_digits list_all_iff is_digit_def dest: show_nat_digits [unfolded list_all_iff, rule_format])
  then show ?thesis
    using \<open>n \<le> mx\<close> by (simp add: parse_uint_digits pad_zero_def digits_value_zeros digits_value_show_nat)
qed

lemma segment_id_path [simp]: "segment_id_of (segment_path dir i) = Some i"
proof -
  have "unat i \<le> 2 ^ 64 - 1"
    using unat_le_max [of i] by simp
  then show ?thesis
    using strip_suffix_append [of "''.'' @ SEGMENT_EXT" "pad_zero 10 (show_nat (unat i))"] parse_padded [of "unat i" "2 ^ 64 - 1" 10]
    by (simp add: segment_id_of_def segment_path_def)
qed

lemma segment_path_inject [simp]: "segment_path dir i = segment_path dir j \<longleftrightarrow> i = j"
  by (metis option.inject segment_id_path)

lemma length_frame [simp]: "length (frame off body) = 12 + length body"
  by (simp add: frame_def)

lemma frame_not_Nil [simp]: "frame off body \<noteq> []"
  using length_frame [of off body] by fastforce

lemma reserve_offset_Inr:
  "reserve_offset w = (Inr off, w') \<longleftrightarrow> off = dw_next_offset w \<and> off \<noteq> - 1 \<and> w' = w\<lparr>dw_next_offset := off + 1\<rparr>"
  by (auto simp: reserve_offset_def checked_inc_def)

lemma write_frame_next_offset:
  "write_frame rot_io io framed w f = (r, w', f') \<Longrightarrow> dw_next_offset w' = dw_next_offset w"
  by (auto simp: write_frame_def rotate_def activate_def Let_def split: prod.split_asm sum.split_asm if_split_asm)

end
