(* ===== verification/Queue_Recovery.thy ===== *)
theory Queue_Recovery
  imports Queue_Disk
begin

text \<open>
  Startup recovery (\<^verbatim>\<open>recovery.rs\<close>), the segment reaper (\<^verbatim>\<open>reaper.rs\<close>) and the archive uploader
  (\<^verbatim>\<open>object_tier.rs\<close>) of one partition. Recovery merges local and archived segments, replays the frames
  that some group has not committed into the memory tier and moves the writer past them. Directory
  listings, the outcomes of reads and the deserializer are arguments. A failed recovery fails the
  opening of the queue, so its partial state is dropped with the client.
\<close>

section \<open>Groups of a partition\<close>

text \<open>
  \<open>read_all_groups\<close>: the groups found in the partition directory with their committed offsets. \<open>list\<close>
  and \<open>is_dir\<close> answer for the file system; the order in which the groups are returned is the order in
  which they are found (the source iterates a hash set; its callers only take minimum and maximum).
\<close>

definition is_group_file :: "string \<Rightarrow> bool" where
  "is_group_file name \<longleftrightarrow> name = META_FILE \<or> name = LEASE_FILE"

fun find_groups ::
  "(path \<Rightarrow> queue_error + path list) \<Rightarrow> (path \<Rightarrow> queue_error + bool) \<Rightarrow> path \<Rightarrow> path list \<Rightarrow> string list \<Rightarrow>
   queue_error + string list" where
  "find_groups lst is_dir dir [] gs = Inr gs"
| "find_groups lst is_dir dir (e # es) gs =
     (if e = [] then Inl (Persistence ''invalid queue entry name'')
      else if is_group_file (last e)
      then (if butlast e = [] \<or> butlast (butlast e) \<noteq> dir then find_groups lst is_dir dir es gs
            else let grp = last (butlast e)
                 in case validate_group grp of
                      Inl er \<Rightarrow> Inl er
                    | Inr _ \<Rightarrow> find_groups lst is_dir dir es (List.insert grp gs))
      else case is_dir e of
             Inl er \<Rightarrow> Inl er
           | Inr False \<Rightarrow> find_groups lst is_dir dir es gs
           | Inr True \<Rightarrow>
               if butlast e \<noteq> dir then find_groups lst is_dir dir es gs
               else (case lst e of
                       Inl er \<Rightarrow> Inl er
                     | Inr children \<Rightarrow>
                         if list_ex (\<lambda>p. p \<noteq> [] \<and> is_group_file (last p)) children
                         then (case validate_group (last e) of
                                 Inl er \<Rightarrow> Inl er
                               | Inr _ \<Rightarrow> find_groups lst is_dir dir es (List.insert (last e) gs))
                         else find_groups lst is_dir dir es gs))"

fun read_groups ::
  "(bytes \<Rightarrow> offset_meta option) \<Rightarrow> (path \<Rightarrow> read_io) \<Rightarrow> path \<Rightarrow> string \<Rightarrow> u32 \<Rightarrow> string list \<Rightarrow> fs \<Rightarrow>
   queue_error + (string \<times> u64 option) list" where
  "read_groups odeser rd rt topic part [] f = Inr []"
| "read_groups odeser rd rt topic part (g # gs) f =
     (let k = \<lparr>k_root = rt, k_topic = topic, k_partition = part, k_group = g\<rparr>
      in case offset_read odeser k (rd (key_meta k)) f of
           Inl e \<Rightarrow> Inl e
         | Inr off \<Rightarrow>
             (case read_groups odeser rd rt topic part gs f of Inl e \<Rightarrow> Inl e | Inr out \<Rightarrow> Inr ((g, off) # out)))"

definition read_all_groups where
  "read_all_groups odeser rd lst is_dir rt topic part f =
     (case validate_topic topic of
        Inl e \<Rightarrow> Inl e
      | Inr _ \<Rightarrow>
          (let dir = partition_dir rt topic part
           in case lst dir of
                Inl e \<Rightarrow> Inl e
              | Inr es \<Rightarrow>
                  (case find_groups lst is_dir dir es [] of
                     Inl e \<Rightarrow> Inl e
                   | Inr gs \<Rightarrow> read_groups odeser rd rt topic part gs f)))"

text \<open>\<open>groups.iter().map(|(_, o)| *o).min().flatten()\<close>: absent progress is less than any progress.\<close>

fun min_committed :: "(string \<times> u64 option) list \<Rightarrow> u64 option" where
  "min_committed [] = None"
| "min_committed [(g, off)] = off"
| "min_committed ((g, off) # gs) =
     (case (off, min_committed gs) of (Some a, Some b) \<Rightarrow> Some (min a b) | _ \<Rightarrow> None)"

fun max_committed :: "(string \<times> u64 option) list \<Rightarrow> u64 option" where
  "max_committed [] = None"
| "max_committed ((g, off) # gs) =
     (case (off, max_committed gs) of
        (Some a, Some b) \<Rightarrow> Some (max a b) | (Some a, None) \<Rightarrow> Some a | (None, r) \<Rightarrow> r)"

section \<open>Frames\<close>

text \<open>The next complete frame of a segment: its offset, its payload and the rest; \<open>None\<close> at a truncated end.\<close>

definition read_frame :: "bytes \<Rightarrow> (u64 \<times> bytes \<times> bytes) option" where
  "read_frame bs =
     (if length bs < 4 then None
      else let len = be_value (take 4 bs); bs1 = drop 4 bs
           in if length bs1 < 8 then None
              else let off = of_nat (be_value (take 8 bs1)); bs2 = drop 8 bs1
                   in if length bs2 < len then None
                      else Some (off, take len bs2, drop len bs2))"

lemma read_frame_shorter: "read_frame bs = Some (off, body, rest) \<Longrightarrow> length rest < length bs"
  by (auto simp: read_frame_def Let_def split: if_splits)

record replay_state =
  rs_mem :: memory
  rs_max_next :: "u64 option"
  rs_max_segment :: "u64 option"
  rs_replayed :: nat
  rs_skipped :: nat

definition note_frame :: "u64 \<Rightarrow> u64 \<Rightarrow> replay_state \<Rightarrow> replay_state" where
  "note_frame seg n st = st\<lparr>rs_max_next := Some (case rs_max_next st of None \<Rightarrow> n | Some m \<Rightarrow> max m n),
     rs_max_segment := Some seg\<rparr>"

function replay_frames ::
  "(bytes \<Rightarrow> message option) \<Rightarrow> u64 option \<Rightarrow> u64 \<Rightarrow> bytes \<Rightarrow> replay_state \<Rightarrow> queue_error + replay_state" where
  "replay_frames deser committed seg bs st =
     (case read_frame bs of
        None \<Rightarrow> Inr st
      | Some (off, body, rest) \<Rightarrow>
          (case deser body of
             None \<Rightarrow> Inl (Persistence ''recovery: malformed complete frame'')
           | Some msg \<Rightarrow>
               (case checked_inc off of
                  None \<Rightarrow> Inl (Persistence ''recovery: offset overflow'')
                | Some n \<Rightarrow>
                    (let st1 = note_frame seg n st
                     in if (case committed of None \<Rightarrow> False | Some c \<Rightarrow> off \<le> c)
                        then replay_frames deser committed seg rest (st1\<lparr>rs_skipped := rs_skipped st1 + 1\<rparr>)
                        else case enqueue_with_offset msg off id (rs_mem st1) of
                               (Inl _, _) \<Rightarrow> Inl (Persistence ''recovery: memory tier full'')
                             | (Inr _, m) \<Rightarrow>
                                 replay_frames deser committed seg rest
                                   (st1\<lparr>rs_mem := m, rs_replayed := rs_replayed st1 + 1\<rparr>)))))"
  by pat_completeness auto
termination
  by (relation "measure (\<lambda>(_, _, _, bs, _). length bs)") (auto dest: read_frame_shorter)

declare replay_frames.simps [simp del]

section \<open>Segments\<close>

type_synonym segment_files = "(u64 \<times> path option \<times> path option) list"

definition add_local :: "path \<Rightarrow> segment_files \<Rightarrow> segment_files" where
  "add_local p segs =
     (case segment_id_of p of
        None \<Rightarrow> segs
      | Some i \<Rightarrow> bt_insert i (Some p, (case map_of segs i of None \<Rightarrow> None | Some (_, a) \<Rightarrow> a)) segs)"

definition add_archive :: "path \<Rightarrow> segment_files \<Rightarrow> segment_files" where
  "add_archive p segs =
     (case segment_id_of p of
        None \<Rightarrow> segs
      | Some i \<Rightarrow> bt_insert i ((case map_of segs i of None \<Rightarrow> None | Some (l, _) \<Rightarrow> l), Some p) segs)"

text \<open>A nonempty local copy is preferred; an empty or missing one falls back to the archive.\<close>

fun segment_bytes ::
  "(path \<Rightarrow> read_io) \<Rightarrow> (path \<Rightarrow> read_io) \<Rightarrow> fs \<Rightarrow> fs \<Rightarrow> path option \<times> path option \<Rightarrow> queue_error + bytes" where
  "segment_bytes rd ard f af (Some p, a) =
     (case fs_read (rd p) p f of
        Inl e \<Rightarrow> Inl e
      | Inr bs \<Rightarrow>
          if bs = [] then (case a of None \<Rightarrow> Inr bs | Some q \<Rightarrow> fs_read (ard q) q af) else Inr bs)"
| "segment_bytes rd ard f af (None, Some q) = fs_read (ard q) q af"
| "segment_bytes rd ard f af (None, None) = Inl (Persistence ''recovery: no local or archive path'')"

fun replay_segments where
  "replay_segments deser rd ard committed f af [] st = Inr st"
| "replay_segments deser rd ard committed f af ((seg, ps) # segs) st =
     (case segment_bytes rd ard f af ps of
        Inl e \<Rightarrow> Inl e
      | Inr bs \<Rightarrow>
          if bs = [] then replay_segments deser rd ard committed f af segs st
          else (case replay_frames deser committed seg bs st of
                  Inl e \<Rightarrow> Inl e
                | Inr st1 \<Rightarrow> replay_segments deser rd ard committed f af segs st1))"

definition replay_partition ::
  "(bytes \<Rightarrow> message option) \<Rightarrow> (path \<Rightarrow> read_io) \<Rightarrow> (path \<Rightarrow> read_io) \<Rightarrow> queue_error + path list \<Rightarrow>
   (queue_error + path list) option \<Rightarrow> queue_error + (string \<times> u64 option) list \<Rightarrow> append_io \<Rightarrow> fs \<Rightarrow>
   memory \<Rightarrow> disk_writer \<Rightarrow> fs \<Rightarrow> (queue_error + nat \<times> memory \<times> disk_writer) \<times> fs" where
  "replay_partition deser rd ard listing archive_listing groups io af mem w f =
     (case listing of
        Inl e \<Rightarrow> (Inl e, f)
      | Inr local_entries \<Rightarrow>
          (case (case archive_listing of
                   None \<Rightarrow> Inr []
                 | Some (Inr es) \<Rightarrow> Inr es
                 | Some (Inl (NotFound _)) \<Rightarrow> Inr []
                 | Some (Inl e) \<Rightarrow> Inl e) of
             Inl e \<Rightarrow> (Inl e, f)
           | Inr archive_entries \<Rightarrow>
               (case groups of
                  Inl e \<Rightarrow> (Inl e, f)
                | Inr gs \<Rightarrow>
                    (case (case max_committed gs of
                             None \<Rightarrow> Inr None
                           | Some c \<Rightarrow>
                               (case checked_inc c of
                                  None \<Rightarrow> Inl (Persistence ''recovery: durable progress exhausted offsets'')
                                | Some n \<Rightarrow> Inr (Some n))) of
                       Inl e \<Rightarrow> (Inl e, f)
                     | Inr max_next \<Rightarrow>
                         (let segs = fold add_archive archive_entries (fold add_local local_entries []);
                              st0 = \<lparr>rs_mem = mem, rs_max_next = max_next, rs_max_segment = None,
                                     rs_replayed = 0, rs_skipped = 0\<rparr>
                          in case replay_segments deser rd ard (min_committed gs) f af segs st0 of
                               Inl e \<Rightarrow> (Inl e, f)
                             | Inr st \<Rightarrow>
                                 (case (case rs_max_segment st of
                                          None \<Rightarrow> (Inr w, f)
                                        | Some i \<Rightarrow> advance_past_recovered_segment i io w f) of
                                    (Inl e, f1) \<Rightarrow> (Inl e, f1)
                                  | (Inr w1, f1) \<Rightarrow>
                                      (Inr (rs_replayed st, rs_mem st,
                                            case rs_max_next st of None \<Rightarrow> w1 | Some n \<Rightarrow> set_next_offset n w1), f1)))))))"

section \<open>The reaper\<close>

definition UPLOADED_MARKER_EXT :: string where "UPLOADED_MARKER_EXT = ''uploaded''"

definition marker_path :: "path \<Rightarrow> path" where
  "marker_path p = butlast p @ [last p @ ''.'' @ UPLOADED_MARKER_EXT]"

function last_offset_loop :: "bytes \<Rightarrow> u64 option \<Rightarrow> u64 option" where
  "last_offset_loop bs acc =
     (case read_frame bs of None \<Rightarrow> acc | Some (off, _, rest) \<Rightarrow> last_offset_loop rest (Some off))"
  by pat_completeness auto
termination
  by (relation "measure (\<lambda>(bs, _). length bs)") (auto dest: read_frame_shorter)

declare last_offset_loop.simps [simp del]

definition last_offset_in_segment :: "read_io \<Rightarrow> path \<Rightarrow> fs \<Rightarrow> queue_error + u64 option" where
  "last_offset_in_segment io p f =
     (case fs_read io p f of
        Inl e \<Rightarrow> Inl e
      | Inr bs \<Rightarrow> if bs = [] then Inr None else Inr (last_offset_loop bs None))"

datatype delete_io = DeleteOk | DeleteErr string

definition fs_delete :: "delete_io \<Rightarrow> path \<Rightarrow> fs \<Rightarrow> (queue_error + unit) \<times> fs" where
  "fs_delete io p f =
     (case io of
        DeleteErr e \<Rightarrow> (Inl (Persistence e), f)
      | DeleteOk \<Rightarrow> if f p = None then (Inl (Persistence ''delete''), f) else (Inr (), f(p := None)))"

text \<open>The two deletions at the end of \<open>maybe_reap\<close>; the result of the second is ignored.\<close>

definition reap_files :: "bool \<Rightarrow> delete_io \<Rightarrow> delete_io \<Rightarrow> path \<Rightarrow> fs \<Rightarrow> (queue_error + unit) \<times> fs" where
  "reap_files archive_configured io mio p f =
     (case fs_delete io p f of
        (Inl e, f1) \<Rightarrow> (Inl e, f1)
      | (Inr _, f1) \<Rightarrow> (Inr (), if archive_configured then snd (fs_delete mio (marker_path p) f1) else f1))"

definition maybe_reap ::
  "bool \<Rightarrow> bool \<Rightarrow> read_io \<Rightarrow> delete_io \<Rightarrow> delete_io \<Rightarrow> path \<Rightarrow> u64 option \<Rightarrow> fs \<Rightarrow> (queue_error + unit) \<times> fs" where
  "maybe_reap archive_configured stat_ok io dio mio p committed f =
     (if archive_configured \<and> \<not> (stat_ok \<and> f (marker_path p) \<noteq> None) then (Inr (), f)
      else case committed of
             None \<Rightarrow> (Inr (), f)
           | Some c \<Rightarrow>
               (case last_offset_in_segment io p f of
                  Inl e \<Rightarrow> (Inl e, f)
                | Inr None \<Rightarrow> reap_files archive_configured dio mio p f
                | Inr (Some l) \<Rightarrow> if c < l then (Inr (), f) else reap_files archive_configured dio mio p f))"

text \<open>One partition of \<open>scan_once\<close>: a failed segment is logged and the scan goes on.\<close>

record reap_io =
  ri_stat :: bool
  ri_read :: read_io
  ri_delete :: delete_io
  ri_marker :: delete_io

definition reap_partition ::
  "bool \<Rightarrow> queue_error + segment list \<Rightarrow> queue_error + (string \<times> u64 option) list \<Rightarrow> (path \<Rightarrow> reap_io) \<Rightarrow>
   disk_writer \<Rightarrow> fs \<Rightarrow> (queue_error + unit) \<times> fs" where
  "reap_partition archive_configured segments groups env w f =
     (let segs = (case segments of Inl _ \<Rightarrow> [] | Inr ss \<Rightarrow> ss)
      in case groups of
           Inl e \<Rightarrow> (Inl e, f)
         | Inr gs \<Rightarrow>
             (Inr (), fold (\<lambda>s f. if active_segment_id w \<le> sg_id s then f
                                  else snd (maybe_reap archive_configured (ri_stat (env (sg_path s)))
                                         (ri_read (env (sg_path s))) (ri_delete (env (sg_path s)))
                                         (ri_marker (env (sg_path s))) (sg_path s) (min_committed gs) f)) segs f))"

section \<open>The uploader\<close>

datatype sync_io = SyncOk | SyncErr string

definition archive_segment_path :: "path \<Rightarrow> string \<Rightarrow> u32 \<Rightarrow> u64 \<Rightarrow> path" where
  "archive_segment_path archive_root topic part i = segment_path (partition_dir archive_root topic part) i"

definition uploading_path :: "path \<Rightarrow> path" where
  "uploading_path dst = butlast dst @ [last dst @ ''.uploading'']"

definition fs_rename :: "sync_io \<Rightarrow> path \<Rightarrow> path \<Rightarrow> fs \<Rightarrow> (queue_error + unit) \<times> fs" where
  "fs_rename io src dst f =
     (case (io, f src) of
        (SyncErr e, _) \<Rightarrow> (Inl (Persistence e), f)
      | (SyncOk, None) \<Rightarrow> (Inl (Persistence ''rename''), f)
      | (SyncOk, Some bs) \<Rightarrow> (Inr (), f(src := None, dst := Some bs)))"

record upload_io =
  ui_stat :: bool
  ui_mkdir :: sync_io
  ui_read :: read_io
  ui_clean :: delete_io
  ui_append :: append_io
  ui_sync :: sync_io
  ui_rename :: sync_io
  ui_marker :: append_io
  ui_marker_sync :: sync_io

text \<open>The copy of the bytes into the archive: a temporary file, synced, then renamed.\<close>

definition archive_copy :: "upload_io \<Rightarrow> path \<Rightarrow> bytes \<Rightarrow> fs \<Rightarrow> (queue_error + unit) \<times> fs" where
  "archive_copy io dst bs af =
     (let tmp = uploading_path dst; af1 = snd (fs_delete (ui_clean io) tmp af)
      in case fs_append (ui_append io) tmp bs af1 of
           (Inl e, af2) \<Rightarrow> (Inl e, af2)
         | (Inr _, af2) \<Rightarrow>
             (case ui_sync io of
                SyncErr e \<Rightarrow> (Inl (Persistence e), af2)
              | SyncOk \<Rightarrow> fs_rename (ui_rename io) tmp dst af2))"

definition upload_segment :: "upload_io \<Rightarrow> path \<Rightarrow> path \<Rightarrow> fs \<times> fs \<Rightarrow> (queue_error + unit) \<times> fs \<times> fs" where
  "upload_segment io disk_path dst s =
     (let (f, af) = s; marker = marker_path disk_path
      in if ui_stat io \<and> f marker \<noteq> None then (Inr (), f, af)
         else case ui_mkdir io of
                SyncErr e \<Rightarrow> (Inl (Persistence e), f, af)
              | SyncOk \<Rightarrow>
                  (case fs_read (ui_read io) disk_path f of
                     Inl e \<Rightarrow> (Inl e, f, af)
                   | Inr bs \<Rightarrow>
                       if bs = [] then (Inr (), f, af)
                       else (case archive_copy io dst bs af of
                               (Inl e, af1) \<Rightarrow> (Inl e, f, af1)
                             | (Inr _, af1) \<Rightarrow>
                                 (case fs_append (ui_marker io) marker [] f of
                                    (Inl e, f1) \<Rightarrow> (Inl e, f1, af1)
                                  | (Inr _, f1) \<Rightarrow>
                                      (case ui_marker_sync io of
                                         SyncErr e \<Rightarrow> (Inl (Persistence e), f1, af1)
                                       | SyncOk \<Rightarrow> (Inr (), f1, af1))))))"

section \<open>Replaying frames\<close>

text \<open>A logged frame: offset, message and payload bytes.\<close>

type_synonym logged = "u64 \<times> message \<times> bytes"

definition logged_ok :: "(bytes \<Rightarrow> message option) \<Rightarrow> logged \<Rightarrow> bool" where
  "logged_ok deser = (\<lambda>(off, msg, body). deser body = Some msg \<and> off \<noteq> - 1 \<and> length body < 2 ^ 32)"

definition log_bytes :: "logged list \<Rightarrow> bytes" where
  "log_bytes ls = concat (map (\<lambda>(off, msg, body). frame off body) ls)"

definition uncommitted :: "u64 option \<Rightarrow> u64 \<Rightarrow> bool" where
  "uncommitted committed off \<longleftrightarrow> (case committed of None \<Rightarrow> True | Some c \<Rightarrow> c < off)"

definition entry_of :: "u32 \<Rightarrow> logged \<Rightarrow> memory_entry" where
  "entry_of part = (\<lambda>(off, msg, body). \<lparr>me_message = msg, me_message_id = message_id_new part 0 off, me_offset = off\<rparr>)"

lemma read_frame_frame: "length body < 2 ^ 32 \<Longrightarrow> read_frame (frame off body @ rest) = Some (off, body, rest)"
proof -
  assume "length body < 2 ^ 32"
  then have "be_value (be_bytes 4 (length body)) = length body"
    by (simp add: be_value_be_bytes)
  moreover have "of_nat (be_value (be_bytes 8 (unat off))) = off"
    by (simp add: be_value_unat)
  ultimately show ?thesis
    by (simp add: read_frame_def frame_def Let_def)
qed

lemma log_bytes_simps [simp]:
  "log_bytes [] = []" "log_bytes ((off, msg, body) # ls) = frame off body @ log_bytes ls"
  by (simp_all add: log_bytes_def)

lemma enqueue_fits:
  assumes "length (pm_entries m) < pm_capacity m" "off \<noteq> - 1"
  shows "enqueue_with_offset msg off id m =
    (fst (enqueue_with_offset msg off id m),
     m\<lparr>pm_next_offset := max (pm_next_offset m) (off + 1),
       pm_entries := bt_insert off (entry_of (pm_partition m) (off, msg, body)) (pm_entries m)\<rparr>)"
    and "\<exists>x. fst (enqueue_with_offset msg off id m) = Inr x"
  using assms by (simp_all add: enqueue_with_offset_def enqueue_at_def Let_def checked_inc_def entry_of_def)

text \<open>The effect of one complete frame, without the errors.\<close>

definition replay_one :: "u64 option \<Rightarrow> u64 \<times> logged \<Rightarrow> replay_state \<Rightarrow> replay_state" where
  "replay_one committed = (\<lambda>(seg, l) st.
     let off = fst l; st1 = note_frame seg (off + 1) st; m = rs_mem st
     in if uncommitted committed off
        then st1\<lparr>rs_mem := m\<lparr>pm_next_offset := max (pm_next_offset m) (off + 1),
                             pm_entries := bt_insert off (entry_of (pm_partition m) l) (pm_entries m)\<rparr>,
                 rs_replayed := rs_replayed st1 + 1\<rparr>
        else st1\<lparr>rs_skipped := rs_skipped st1 + 1\<rparr>)"

lemma note_frame_mem [simp]:
  "rs_mem (note_frame seg n st) = rs_mem st" "rs_replayed (note_frame seg n st) = rs_replayed st"
  "rs_skipped (note_frame seg n st) = rs_skipped st"
  by (simp_all add: note_frame_def)

definition fits :: "nat \<Rightarrow> replay_state \<Rightarrow> bool" where
  "fits n st \<longleftrightarrow> length (pm_entries (rs_mem st)) + n \<le> pm_capacity (rs_mem st)"

definition count_uncommitted :: "u64 option \<Rightarrow> (u64 \<times> logged) list \<Rightarrow> nat" where
  "count_uncommitted committed L = length (filter (\<lambda>(seg, l). uncommitted committed (fst l)) L)"

lemma count_uncommitted_simps [simp]:
  "count_uncommitted committed [] = 0"
  "count_uncommitted committed ((seg, l) # L) = (if uncommitted committed (fst l) then 1 else 0) + count_uncommitted committed L"
  "count_uncommitted committed (L @ L') = count_uncommitted committed L + count_uncommitted committed L'"
  by (simp_all add: count_uncommitted_def)

lemma fits_replay_one:
  "fits (count_uncommitted committed [(seg, l)] + n) st \<Longrightarrow> fits n (replay_one committed (seg, l) st)"
  using length_bt_insert(1) [of "fst l" "entry_of (pm_partition (rs_mem st)) l" "pm_entries (rs_mem st)"]
  by (auto simp: fits_def replay_one_def Let_def split: if_splits)

lemma replay_frames_one:
  assumes "logged_ok deser (off, msg, body)" "fits (count_uncommitted committed [(seg, (off, msg, body))]) st"
  shows "replay_frames deser committed seg (frame off body @ rest) st =
    replay_frames deser committed seg rest (replay_one committed (seg, (off, msg, body)) st)"
proof -
  have ok: "deser body = Some msg" "checked_inc off = Some (off + 1)" "read_frame (frame off body @ rest) = Some (off, body, rest)" "off \<noteq> - 1"
    using assms(1) by (simp_all add: logged_ok_def checked_inc_def read_frame_frame)
  show ?thesis
  proof (cases "uncommitted committed off")
    case False
    with ok show ?thesis
      by (subst replay_frames.simps) (auto simp: replay_one_def uncommitted_def Let_def split: option.splits)
  next
    case True
    then have room: "length (pm_entries (rs_mem st)) < pm_capacity (rs_mem st)"
      using assms(2) by (simp add: fits_def)
    obtain x where "enqueue_with_offset msg off id (rs_mem st) = (Inr x, (rs_mem st)\<lparr>
        pm_next_offset := max (pm_next_offset (rs_mem st)) (off + 1),
        pm_entries := bt_insert off (entry_of (pm_partition (rs_mem st)) (off, msg, body)) (pm_entries (rs_mem st))\<rparr>)"
      using enqueue_fits(1) [OF room ok(4), of msg body] enqueue_fits(2) [OF room ok(4), of msg] by metis
    with ok True show ?thesis
      by (subst replay_frames.simps) (auto simp: replay_one_def uncommitted_def Let_def split: option.splits)
  qed
qed

lemma replay_frames_log:
  assumes "list_all (logged_ok deser) ls" "fits (count_uncommitted committed (map (Pair seg) ls)) st" "read_frame torn = None"
  shows "replay_frames deser committed seg (log_bytes ls @ torn) st = Inr (fold (replay_one committed) (map (Pair seg) ls) st)"
  using assms(1,2)
proof (induction ls arbitrary: st)
  case Nil
  then show ?case
    by (subst replay_frames.simps) (simp add: assms(3))
next
  case (Cons l ls)
  obtain off msg body where l: "l = (off, msg, body)"
    by (cases l)
  have "fits (count_uncommitted committed [(seg, l)]) st"
    using Cons.prems(2) by (simp add: fits_def)
  with Cons.prems(1) have "replay_frames deser committed seg (log_bytes (l # ls) @ torn) st =
      replay_frames deser committed seg (log_bytes ls @ torn) (replay_one committed (seg, l) st)"
    using replay_frames_one l by simp
  moreover have "fits (count_uncommitted committed (map (Pair seg) ls)) (replay_one committed (seg, l) st)"
    using Cons.prems(2) by (intro fits_replay_one) simp
  ultimately show ?case
    using Cons by simp
qed

definition all_logged :: "(u64 \<Rightarrow> logged list) \<Rightarrow> u64 list \<Rightarrow> (u64 \<times> logged) list" where
  "all_logged frames is = concat (map (\<lambda>i. map (Pair i) (frames i)) is)"

lemma all_logged_simps [simp]:
  "all_logged frames [] = []" "all_logged frames (i # is) = map (Pair i) (frames i) @ all_logged frames is"
  by (simp_all add: all_logged_def)

lemma set_all_logged [simp]: "(i, l) \<in> set (all_logged frames is) \<longleftrightarrow> i \<in> set is \<and> l \<in> set (frames i)"
  by (auto simp: all_logged_def)

definition segment_file :: "(bytes \<Rightarrow> message option) \<Rightarrow> fs \<Rightarrow> path \<Rightarrow> logged list \<Rightarrow> bool" where
  "segment_file deser f p ls \<longleftrightarrow>
     list_all (logged_ok deser) ls \<and> (\<exists>torn. f p = Some (log_bytes ls @ torn) \<and> read_frame torn = None)"

lemma fits_fold: "fits (count_uncommitted committed L + n) st \<Longrightarrow> fits n (fold (replay_one committed) L st)"
proof (induction L arbitrary: st)
  case (Cons x L)
  obtain seg l where x: "x = (seg, l)"
    by (cases x)
  have "fits (count_uncommitted committed [(seg, l)] + (count_uncommitted committed L + n)) st"
    using Cons.prems x by (simp add: ac_simps)
  then have "fits (count_uncommitted committed L + n) (replay_one committed (seg, l) st)"
    by (rule fits_replay_one)
  from Cons.IH [OF this] x show ?case
    by simp
qed simp

lemma replay_segments_log:
  assumes "\<forall>i \<in> set is. segment_file deser f (pth i) (frames i)"
    and "fits (count_uncommitted committed (all_logged frames is)) st"
  shows "replay_segments deser (\<lambda>_. ReadOk) ard committed f af (map (\<lambda>i. (i, Some (pth i), None)) is) st =
    Inr (fold (replay_one committed) (all_logged frames is) st)"
  using assms
proof (induction "is" arbitrary: st)
  case (Cons i "is")
  obtain torn where torn: "f (pth i) = Some (log_bytes (frames i) @ torn)" "read_frame torn = None"
    and ok: "list_all (logged_ok deser) (frames i)"
    using Cons.prems(1) by (auto simp: segment_file_def)
  let ?L = "map (Pair i) (frames i)"
  have fit: "fits (count_uncommitted committed ?L + count_uncommitted committed (all_logged frames is)) st"
    using Cons.prems(2) by simp
  then have here: "fits (count_uncommitted committed ?L) st"
    by (simp add: fits_def)
  have empty: "frames i = []" if "log_bytes (frames i) @ torn = []"
    using that by (cases "frames i") auto
  note replay_frames_log [OF ok here torn(2)]
  moreover from Cons.IH [OF _ fits_fold [OF fit]] Cons.prems(1)
  have "replay_segments deser (\<lambda>_. ReadOk) ard committed f af (map (\<lambda>i. (i, Some (pth i), None)) is)
      (fold (replay_one committed) ?L st) = Inr (fold (replay_one committed) (all_logged frames (i # is)) st)"
    by simp
  ultimately show ?case
    using torn(1) empty by (auto simp: fs_read_def)
qed simp

lemma add_local_listing:
  assumes "\<forall>p \<in> set ps. segment_id_of p = None \<or> (\<exists>i. p = segment_path dir i)"
    and "bt_ok segs" "\<forall>(i, ps) \<in> set segs. ps = (Some (segment_path dir i), None)"
  shows "bt_ok (fold add_local ps segs) \<and>
    (\<forall>(i, ps) \<in> set (fold add_local ps segs). ps = (Some (segment_path dir i), None)) \<and>
    fst ` set (fold add_local ps segs) = fst ` set segs \<union> {i. segment_path dir i \<in> set ps}"
  using assms
proof (induction ps arbitrary: segs)
  case (Cons p ps)
  show ?case
  proof (cases "segment_id_of p")
    case None
    then have "\<And>i. segment_path dir i \<noteq> p"
      by auto
    with None Cons show ?thesis
      by (auto simp: add_local_def)
  next
    case (Some i)
    then have p: "p = segment_path dir i"
      using Cons.prems(1) by auto
    have old: "(case map_of segs i of None \<Rightarrow> None | Some (_, a) \<Rightarrow> a) = None"
      using Cons.prems(3) by (auto split: option.split dest!: map_of_SomeD)
    let ?segs = "bt_insert i (Some p, None) segs"
    have "bt_ok ?segs \<and> (\<forall>(i, ps) \<in> set ?segs. ps = (Some (segment_path dir i), None))"
      using Cons.prems(2,3) p by (auto simp: btree_facts)
    moreover have "fst ` set ?segs = insert i (fst ` set segs)"
      using Cons.prems(2) by (auto simp: btree_facts image_iff)
    moreover have "add_local p segs = ?segs"
      using Some old by (simp add: add_local_def)
    ultimately show ?thesis
      using Cons.IH [of ?segs] Cons.prems(1) p by auto
  qed
qed simp

section \<open>What recovery restores\<close>

lemma replay_one_mem_ok:
  assumes "mem_ok (rs_mem st)" "fits (count_uncommitted committed [(seg, l)]) st" "fst l \<noteq> - 1"
  shows "mem_ok (rs_mem (replay_one committed (seg, l) st))"
proof (cases "uncommitted committed (fst l)")
  case False
  with assms(1) show ?thesis
    by (simp add: replay_one_def Let_def)
next
  case True
  obtain off msg body where l: "l = (off, msg, body)"
    by (cases l)
  have room: "length (pm_entries (rs_mem st)) < pm_capacity (rs_mem st)"
    using assms(2) True by (simp add: fits_def)
  from mem_ok_enqueue_with_offset [OF assms(1) _ enqueue_fits(1) [OF room, of off msg body]] True assms(3) l
  show ?thesis
    by (simp add: replay_one_def Let_def)
qed

lemma replay_one_fields [simp]:
  "pm_partition (rs_mem (replay_one committed x st)) = pm_partition (rs_mem st)"
  "pm_capacity (rs_mem (replay_one committed x st)) = pm_capacity (rs_mem st)"
  by (simp_all add: replay_one_def Let_def split: prod.split)

definition put_logged :: "u32 \<Rightarrow> u64 option \<Rightarrow> u64 \<times> logged \<Rightarrow> (u64 \<rightharpoonup> memory_entry) \<Rightarrow> (u64 \<rightharpoonup> memory_entry)" where
  "put_logged part committed x M =
     (if uncommitted committed (fst (snd x)) then M(fst (snd x) \<mapsto> entry_of part (snd x)) else M)"

lemma retained_replay_one:
  "mem_ok (rs_mem st) \<Longrightarrow>
   retained (rs_mem (replay_one committed x st)) = put_logged (pm_partition (rs_mem st)) committed x (retained (rs_mem st))"
  by (simp add: replay_one_def put_logged_def Let_def btree_facts mem_ok_def split: prod.split)

lemma replay_fold_mem:
  assumes "mem_ok (rs_mem st)" "fits (count_uncommitted committed L) st" "\<forall>x \<in> set L. fst (snd x) \<noteq> - 1"
  defines "m' \<equiv> rs_mem (fold (replay_one committed) L st)"
  shows "mem_ok m' \<and> retained m' = fold (put_logged (pm_partition (rs_mem st)) committed) L (retained (rs_mem st))"
  using assms(1-3) unfolding m'_def
proof (induction L arbitrary: st)
  case (Cons x L)
  obtain seg l where x: "x = (seg, l)"
    by (cases x)
  have fit: "fits (count_uncommitted committed [(seg, l)] + count_uncommitted committed L) st"
    using Cons.prems(2) x by simp
  then have here: "fits (count_uncommitted committed [(seg, l)]) st"
    by (simp add: fits_def)
  have ok: "mem_ok (rs_mem (replay_one committed (seg, l) st))"
    using replay_one_mem_ok [OF Cons.prems(1) here] Cons.prems(3) x by simp
  from Cons.IH [OF ok fits_replay_one [OF fit]] Cons.prems(1,3) show ?case
    by (simp add: x retained_replay_one)
qed simp

lemma fold_put_logged_Some:
  "fold (put_logged part committed) L M k = Some e \<Longrightarrow>
   M k = Some e \<or> (\<exists>x \<in> set L. uncommitted committed k \<and> fst (snd x) = k \<and> e = entry_of part (snd x))"
  by (induction L arbitrary: M) (fastforce simp: put_logged_def split: if_splits)+

lemma fold_put_logged_keeps: "M k \<noteq> None \<Longrightarrow> fold (put_logged part committed) L M k \<noteq> None"
proof (induction L arbitrary: M)
  case (Cons x L)
  then have "put_logged part committed x M k \<noteq> None"
    by (auto simp: put_logged_def)
  then show ?case
    using Cons.IH [of "put_logged part committed x M"] by simp
qed simp

lemma fold_put_logged_in:
  "x \<in> set L \<Longrightarrow> uncommitted committed (fst (snd x)) \<Longrightarrow> fold (put_logged part committed) L M (fst (snd x)) \<noteq> None"
proof (induction L arbitrary: M)
  case (Cons y L)
  show ?case
  proof (cases "x = y")
    case True
    have "put_logged part committed x M (fst (snd x)) \<noteq> None"
      using Cons.prems(2) by (simp add: put_logged_def)
    with True fold_put_logged_keeps [of "put_logged part committed x M" "fst (snd x)"] show ?thesis
      by simp
  next
    case False
    with Cons show ?thesis by simp
  qed
qed simp

text \<open>The bounds recovery leaves for the writer.\<close>

lemma replay_one_next:
  "rs_max_next (replay_one committed x st) =
   Some (case rs_max_next st of None \<Rightarrow> fst (snd x) + 1 | Some m \<Rightarrow> max m (fst (snd x) + 1))"
  by (cases x) (simp add: replay_one_def note_frame_def Let_def split: option.split)

lemma replay_fold_next:
  assumes "\<forall>x \<in> set L. fst (snd x) \<noteq> - 1"
  shows "(\<forall>m. rs_max_next st = Some m \<longrightarrow> (\<exists>n. rs_max_next (fold (replay_one committed) L st) = Some n \<and> m \<le> n)) \<and>
    (\<forall>x \<in> set L. \<exists>n. rs_max_next (fold (replay_one committed) L st) = Some n \<and> fst (snd x) < n)"
  using assms
proof (induction L arbitrary: st)
  case (Cons x L)
  let ?st = "replay_one committed x st"
  obtain n0 where n0: "rs_max_next ?st = Some n0" "\<forall>m. rs_max_next st = Some m \<longrightarrow> m \<le> n0" "fst (snd x) + 1 \<le> n0"
    by (cases "rs_max_next st") (auto simp: replay_one_next)
  then have lt: "fst (snd x) < n0"
    using Cons.prems by (auto simp: word_less_nat_alt word_le_nat_alt word_facts)
  from Cons.IH [of ?st] Cons.prems n0(1) obtain n where
    n: "rs_max_next (fold (replay_one committed) L ?st) = Some n" "n0 \<le> n"
    by auto
  with Cons.IH [of ?st] Cons.prems lt n0(2) show ?case
    by (auto intro: less_le_trans order_trans)
qed simp

lemma replay_fold_segment:
  "rs_max_segment (fold (replay_one committed) L st) = (if L = [] then rs_max_segment st else Some (fst (last L)))"
  by (induction L arbitrary: st) (auto simp: replay_one_def note_frame_def Let_def split: prod.split)

lemma all_logged_last:
  "sorted_wrt (<) is \<Longrightarrow> x \<in> set (all_logged frames is) \<Longrightarrow> fst x \<le> fst (last (all_logged frames is))"
proof (induction "is")
  case (Cons i "is")
  show ?case
  proof (cases "all_logged frames is = []")
    case True
    moreover from this Cons.prems(2) have "frames i \<noteq> []" "fst x = i"
      by auto
    ultimately show ?thesis
      by (simp add: last_map)
  next
    case False
    then have "last (all_logged frames is) \<in> set (all_logged frames is)"
      by simp
    then have "fst (last (all_logged frames is)) \<in> set is"
      by (metis prod.collapse set_all_logged)
    with False Cons show ?thesis
      by (auto intro: less_imp_le)
  qed
qed simp

lemma max_committed_ge: "(g, Some c) \<in> set gs \<Longrightarrow> \<exists>m. max_committed gs = Some m \<and> c \<le> m"
  by (induction gs rule: max_committed.induct) (auto split: option.splits simp: max_def)

lemma advance_Inr:
  assumes "i \<noteq> - 1"
  shows "\<exists>w'. fst (advance_past_recovered_segment i AppendOk w f) = Inr w' \<and> i < active_segment_id w' \<and>
    dw_next_offset w' = dw_next_offset w"
  using assms
  by (auto simp: advance_past_recovered_segment_def checked_inc_def activate_def word_less_nat_alt word_facts)

lemma local_listing:
  assumes "\<forall>p \<in> set ps. segment_id_of p = None \<or> (\<exists>i. p = segment_path dir i)"
  obtains "is" where "sorted_wrt (<) is" "set is = {i. segment_path dir i \<in> set ps}"
    "fold add_local ps [] = map (\<lambda>i. (i, Some (segment_path dir i), None)) is"
proof -
  let ?segs = "fold add_local ps []"
  note listing = add_local_listing [OF assms, of "[]", simplified]
  have "map (\<lambda>x. (fst x, Some (segment_path dir (fst x)), None)) ?segs = ?segs"
    by (rule map_idI) (use listing in force)
  with listing that [of "map fst ?segs"] show ?thesis
    by (simp add: bt_ok_def comp_def)
qed

lemma advance_recovered:
  assumes "sorted_wrt (<) is" "\<forall>i \<in> set is. i \<noteq> - 1"
    and "mx = (if all_logged frames is = [] then None else Some (fst (last (all_logged frames is))))"
  obtains w1 f1 where
    "(case mx of None \<Rightarrow> (Inr w, f) | Some i \<Rightarrow> advance_past_recovered_segment i AppendOk w f) = (Inr w1, f1)"
    "\<forall>x \<in> set (all_logged frames is). fst x < active_segment_id w1"
proof (cases "all_logged frames is = []")
  case True
  with assms(3) that show ?thesis by simp
next
  case False
  have "fst (last (all_logged frames is)) \<in> set is"
    using last_in_set [OF False] by (metis prod.collapse set_all_logged)
  with assms(2) have "fst (last (all_logged frames is)) \<noteq> - 1"
    by blast
  from advance_Inr [OF this, of w f] obtain w1 f1 where
    "advance_past_recovered_segment (fst (last (all_logged frames is))) AppendOk w f = (Inr w1, f1)"
    "fst (last (all_logged frames is)) < active_segment_id w1"
    by (metis prod.collapse)
  moreover from this(2) have "\<forall>x \<in> set (all_logged frames is). fst x < active_segment_id w1"
    using all_logged_last [OF assms(1), of _ frames] le_less_trans by blast
  ultimately show ?thesis
    using False assms(3) that by simp
qed

abbreviation recovery_start :: "memory \<Rightarrow> (string \<times> u64 option) list \<Rightarrow> replay_state" where
  "recovery_start mem gs \<equiv> \<lparr>rs_mem = mem, rs_max_next = map_option (\<lambda>c. c + 1) (max_committed gs),
     rs_max_segment = None, rs_replayed = 0, rs_skipped = 0\<rparr>"

text \<open>
  Recovery over a partition whose local segments hold complete frames and possibly a truncated end
  each, with no archive, is the fold of its frames.
\<close>

lemma replay_partition_log:
  assumes "\<forall>p \<in> set ps. segment_id_of p = None \<or> (\<exists>i. p = segment_path dir i \<and> i \<noteq> - 1 \<and> segment_file deser f p (frames i))"
    and "max_committed gs \<noteq> Some (- 1)"
    and "\<And>is. distinct is \<Longrightarrow> set is = {i. segment_path dir i \<in> set ps} \<Longrightarrow>
      fits (count_uncommitted (min_committed gs) (all_logged frames is)) (recovery_start mem gs)"
  obtains "is" st w' f' where "set is = {i. segment_path dir i \<in> set ps}"
    "fits (count_uncommitted (min_committed gs) (all_logged frames is)) (recovery_start mem gs)"
    "st = fold (replay_one (min_committed gs)) (all_logged frames is) (recovery_start mem gs)"
    "replay_partition deser (\<lambda>_. ReadOk) ard (Inr ps) None (Inr gs) AppendOk af mem w f = (Inr (rs_replayed st, rs_mem st, w'), f')"
    "\<forall>n. rs_max_next st = Some n \<longrightarrow> dw_next_offset w' = n"
    "\<forall>x \<in> set (all_logged frames is). fst x < active_segment_id w'"
proof -
  have "\<forall>p \<in> set ps. segment_id_of p = None \<or> (\<exists>i. p = segment_path dir i)"
    using assms(1) by blast
  then obtain "is" where listing: "sorted_wrt (<) is" "set is = {i. segment_path dir i \<in> set ps}"
    "fold add_local ps [] = map (\<lambda>i. (i, Some (segment_path dir i), None)) is"
    by (rule local_listing)
  have files: "\<forall>i \<in> set is. i \<noteq> - 1 \<and> segment_file deser f (segment_path dir i) (frames i)"
    using assms(1) listing(2) by (auto dest!: bspec)
  have fit: "fits (count_uncommitted (min_committed gs) (all_logged frames is)) (recovery_start mem gs)"
    using assms(3) [OF _ listing(2)] listing(1) by (simp add: strict_sorted_iff)
  define st where "st = fold (replay_one (min_committed gs)) (all_logged frames is) (recovery_start mem gs)"
  have replay: "replay_segments deser (\<lambda>_. ReadOk) ard (min_committed gs) f af (fold add_local ps []) (recovery_start mem gs) = Inr st"
    unfolding listing(3) st_def using files by (intro replay_segments_log fit) blast
  have "rs_max_segment st = (if all_logged frames is = [] then None else Some (fst (last (all_logged frames is))))"
    by (simp add: st_def replay_fold_segment)
  with listing(1) files obtain w1 f1 where
    w1: "(case rs_max_segment st of None \<Rightarrow> (Inr w, f) | Some i \<Rightarrow> advance_past_recovered_segment i AppendOk w f) = (Inr w1, f1)"
      "\<forall>x \<in> set (all_logged frames is). fst x < active_segment_id w1"
    by (metis advance_recovered)
  let ?w' = "case rs_max_next st of None \<Rightarrow> w1 | Some n \<Rightarrow> set_next_offset n w1"
  have "replay_partition deser (\<lambda>_. ReadOk) ard (Inr ps) None (Inr gs) AppendOk af mem w f = (Inr (rs_replayed st, rs_mem st, ?w'), f1)"
    using replay w1(1) assms(2)
    by (cases "max_committed gs") (simp_all add: replay_partition_def checked_inc_def)
  moreover have "\<forall>n. rs_max_next st = Some n \<longrightarrow> dw_next_offset ?w' = n" "active_segment_id ?w' = active_segment_id w1"
    by (auto simp: set_next_offset_def split: option.splits)
  ultimately show ?thesis
    using that [OF listing(2) fit st_def, of ?w' f1] w1(2) by simp
qed

lemma count_all_logged:
  "distinct is \<Longrightarrow> count_uncommitted c (all_logged frames is) = (\<Sum>i \<in> set is. length (filter (\<lambda>l. uncommitted c (fst l)) (frames i)))"
proof (induction "is")
  case (Cons i "is")
  have "count_uncommitted c (map (Pair i) (frames i)) = length (filter (\<lambda>l. uncommitted c (fst l)) (frames i))"
    by (simp add: count_uncommitted_def filter_map comp_def)
  with Cons show ?case
    by simp
qed simp

lemma logged_ok_offsets:
  assumes "\<forall>p \<in> set ps. segment_id_of p = None \<or> (\<exists>i. p = segment_path dir i \<and> i \<noteq> - 1 \<and> segment_file deser f p (frames i))"
    and "set is = {i. segment_path dir i \<in> set ps}"
  shows "\<forall>x \<in> set (all_logged frames is). fst (snd x) \<noteq> - 1"
proof
  fix x
  assume "x \<in> set (all_logged frames is)"
  then have "segment_path dir (fst x) \<in> set ps" "snd x \<in> set (frames (fst x))"
    using assms(2) by (metis (no_types, lifting) mem_Collect_eq prod.collapse set_all_logged)+
  moreover from this(1) assms(1) have "list_all (logged_ok deser) (frames (fst x))"
    by (auto simp: segment_file_def dest!: bspec)
  ultimately show "fst (snd x) \<noteq> - 1"
    by (auto simp: list_all_iff logged_ok_def dest!: bspec)
qed

lemma recovered_entries:
  assumes "retained m' = fold (put_logged part c) L Map.empty"
    and "\<And>x y. x \<in> set L \<Longrightarrow> y \<in> set L \<Longrightarrow> fst (snd x) = fst (snd y) \<Longrightarrow> fst (snd (snd x)) = fst (snd (snd y))"
  shows "retained m' k = Some e \<longleftrightarrow> (\<exists>x \<in> set L. uncommitted c k \<and> fst (snd x) = k \<and> e = entry_of part (snd x))"
proof
  assume "retained m' k = Some e"
  with fold_put_logged_Some [of part c L Map.empty k e] assms(1)
  show "\<exists>x \<in> set L. uncommitted c k \<and> fst (snd x) = k \<and> e = entry_of part (snd x)"
    by simp
next
  assume "\<exists>x \<in> set L. uncommitted c k \<and> fst (snd x) = k \<and> e = entry_of part (snd x)"
  then obtain x where x: "x \<in> set L" "uncommitted c (fst (snd x))" "k = fst (snd x)" "e = entry_of part (snd x)"
    by blast
  then obtain e' where e': "retained m' k = Some e'"
    using fold_put_logged_in [of x L c part Map.empty] assms(1) by auto
  with fold_put_logged_Some [of part c L Map.empty k e'] assms(1) obtain y where
    y: "y \<in> set L" "fst (snd y) = k" "e' = entry_of part (snd y)"
    by auto
  with assms(2) [of x y] x have "entry_of part (snd x) = entry_of part (snd y)"
    by (simp add: entry_of_def case_prod_beta)
  with e' x(4) y(3) show "retained m' k = Some e"
    by simp
qed

definition one_message_per_offset :: "path \<Rightarrow> path list \<Rightarrow> (u64 \<Rightarrow> logged list) \<Rightarrow> bool" where
  "one_message_per_offset dir ps frames \<longleftrightarrow>
     (\<forall>i j. segment_path dir i \<in> set ps \<and> segment_path dir j \<in> set ps \<longrightarrow>
        (\<forall>l \<in> set (frames i). \<forall>l' \<in> set (frames j). fst l = fst l' \<longrightarrow> fst (snd l) = fst (snd l')))"

text \<open>An offset is awaited when there is no group, or some group has committed nothing or only less.\<close>

definition awaited :: "(string \<times> u64 option) list \<Rightarrow> u64 \<Rightarrow> bool" where
  "awaited gs k \<longleftrightarrow> gs = [] \<or>
     (\<exists>g off. (g, off) \<in> set gs \<and> (case off of None \<Rightarrow> True | Some c \<Rightarrow> c < k))"

lemma min_committed_le:
  "min_committed gs = Some c \<Longrightarrow> (g, off) \<in> set gs \<Longrightarrow> \<exists>c'. off = Some c' \<and> c \<le> c'"
proof (induction gs arbitrary: c rule: min_committed.induct)
  case (3 g0 off0 x gs)
  then show ?case
    by (fastforce split: option.split_asm simp: min_def)
qed auto

lemma min_committed_attained:
  "gs \<noteq> [] \<Longrightarrow> \<exists>g. (g, min_committed gs) \<in> set gs"
proof (induction gs rule: min_committed.induct)
  case (3 g0 off0 x gs)
  then obtain g where "(g, min_committed (x # gs)) \<in> set (x # gs)"
    by auto
  then show ?case
    by (cases off0; cases "min_committed (x # gs)") (auto simp: min_def)
qed auto

lemma uncommitted_min: "uncommitted (min_committed gs) k = awaited gs k"
proof (cases "gs = []")
  case False
  then obtain g where g: "(g, min_committed gs) \<in> set gs"
    using min_committed_attained by blast
  show ?thesis
  proof
    assume "uncommitted (min_committed gs) k"
    with g False show "awaited gs k"
      by (auto simp: uncommitted_def awaited_def)
  next
    assume "awaited gs k"
    with False min_committed_le show "uncommitted (min_committed gs) k"
      by (fastforce simp: uncommitted_def awaited_def split: option.split option.split_asm)
  qed
qed (simp add: uncommitted_def awaited_def)


section \<open>A torn frame at the start of a segment\<close>

lemma read_frame_short: "length bs < 12 \<Longrightarrow> read_frame bs = None"
  by (cases "length bs < 4") (simp_all add: read_frame_def Let_def less_diff_conv2)

lemma take_frame: "take (12 + k) (frame off body) = be_bytes 4 (length body) @ be_bytes 8 (unat off) @ take k body"
  by (simp add: frame_def)

lemma read_frame_torn:
  assumes "length body < 2 ^ 32" "n < 12 + length body"
  shows "read_frame (take n (frame off body)) = None"
proof (cases "n < 12")
  case True
  then show ?thesis
    by (intro read_frame_short) simp
next
  case False
  then obtain k where "n = 12 + k"
    using le_Suc_ex not_less by blast
  moreover have "be_value (be_bytes 4 (length body)) = length body"
    using assms(1) by (simp add: be_value_be_bytes)
  ultimately show ?thesis
    using assms(2) by (simp add: take_frame read_frame_def Let_def)
qed

lemma read_frame_mixed:
  assumes "length b0 < 2 ^ 32" "k < length b0" "length b0 \<le> k + length tail"
  shows "read_frame (take (12 + k) (frame off b0) @ tail) =
    Some (off, take k b0 @ take (length b0 - k) tail, drop (length b0 - k) tail)"
proof -
  have "be_value (be_bytes 4 (length b0)) = length b0"
    using assms(1) by (simp add: be_value_be_bytes)
  moreover have "of_nat (be_value (be_bytes 8 (unat off))) = off"
    by (simp add: be_value_unat)
  ultimately show ?thesis
    using assms by (simp add: take_frame read_frame_def Let_def)
qed

lemma single_segment_listing: "add_local (segment_path dir i) [] = [(i, Some (segment_path dir i), None)]"
  by (simp add: add_local_def)

lemma replay_single_segment:
  assumes "f (segment_path dir i) = Some bs" "bs \<noteq> []"
  shows "replay_partition deser (\<lambda>_. ReadOk) ard (Inr [segment_path dir i]) None (Inr []) AppendOk af mem w f =
    (case replay_frames deser None i bs (recovery_start mem []) of
       Inl e \<Rightarrow> (Inl e, f)
     | Inr st \<Rightarrow>
         (case (case rs_max_segment st of None \<Rightarrow> (Inr w, f) | Some i \<Rightarrow> advance_past_recovered_segment i AppendOk w f) of
            (Inl e, f1) \<Rightarrow> (Inl e, f1)
          | (Inr w1, f1) \<Rightarrow>
              (Inr (rs_replayed st, rs_mem st, case rs_max_next st of None \<Rightarrow> w1 | Some n \<Rightarrow> set_next_offset n w1), f1)))"
  using assms by (simp add: replay_partition_def single_segment_listing fs_read_def split: sum.split)


section \<open>Witnesses\<close>

definition sample_deser :: "bytes \<Rightarrow> message option" where
  "sample_deser b = (if length b = 1 then Some (message_new ''t'' ''a'' b 0) else None)"

definition sample_frames :: "u64 \<Rightarrow> logged list" where
  "sample_frames i = (if i = 0 then [(0, message_new ''t'' ''a'' [1] 0, [1]), (1, message_new ''t'' ''a'' [2] 0, [2])] else [])"

definition sample_writer :: disk_writer where
  "sample_writer = \<lparr>dw_topic = ''t'', dw_partition = 0, dw_root = [''q''], dw_config = topic_config_default,
     active_segment_id = 0, active_segment_path = segment_path [''d''] 0, active_segment_size = 26, dw_next_offset = 0\<rparr>"



end
