(* ===== verification/Queue_Retention.thy ===== *)
theory Queue_Retention
  imports Queue_Recovery
begin

text \<open>
  Retention of sealed segments: the reaper deletes a segment when every group has committed its last
  frame, the uploader archives it first when an archive is configured. The theorems say what the two
  keep: no uncommitted frame is deleted from a segment whose offsets ascend, and under any
  interleaving of uploads and reaping a sealed segment stays readable on disk or in the archive.
\<close>

section \<open>The reaper\<close>

lemma last_offset_loop_log:
  assumes "list_all (logged_ok deser) ls" "read_frame torn = None"
  shows "last_offset_loop (log_bytes ls @ torn) acc = (if ls = [] then acc else Some (fst (last ls)))"
  using assms(1)
proof (induction ls arbitrary: acc)
  case Nil
  then show ?case
    by (subst last_offset_loop.simps) (simp add: assms(2))
next
  case (Cons l ls)
  obtain off msg body where l: "l = (off, msg, body)"
    by (cases l)
  with Cons.prems have "read_frame (log_bytes (l # ls) @ torn) = Some (off, body, log_bytes ls @ torn)"
    by (simp add: logged_ok_def read_frame_frame)
  then have "last_offset_loop (log_bytes (l # ls) @ torn) acc = last_offset_loop (log_bytes ls @ torn) (Some off)"
    by (subst last_offset_loop.simps) simp
  with Cons l show ?case
    by simp
qed

lemma last_offset_in_segment_log:
  assumes "segment_file deser f p ls" "last_offset_in_segment io p f = Inr r"
  shows "r = (if ls = [] then None else Some (fst (last ls)))"
proof -
  obtain torn where torn: "list_all (logged_ok deser) ls" "f p = Some (log_bytes ls @ torn)" "read_frame torn = None"
    using assms(1) by (auto simp: segment_file_def)
  have "ls = []" if "log_bytes ls @ torn = []"
    using that by (cases ls) auto
  with torn assms(2) show ?thesis
    by (auto simp: last_offset_in_segment_def fs_read_def last_offset_loop_log
        split: read_io.split_asm if_split_asm)
qed

lemma maybe_reap_deletes:
  assumes "maybe_reap archived st io dio mio p committed f = (r, f')" "f p \<noteq> None" "f' p = None"
  shows "archived \<longrightarrow> f (marker_path p) \<noteq> None"
    and "\<exists>c l. committed = Some c \<and> last_offset_in_segment io p f = Inr l \<and> (\<forall>k. l = Some k \<longrightarrow> k \<le> c)"
  using assms by (auto simp: maybe_reap_def split: if_split_asm option.split_asm sum.split_asm)

text \<open>
  C21: the reaper only deletes what every group has consumed. When it deletes a segment whose frames are
  in ascending order, every group of the partition has committed every offset in it; and with an
  archive configured the segment has its upload marker.
\<close>

theorem reap_only_consumed:
  assumes "segment_file deser f p ls" "sorted_wrt (<) (map fst ls)"
    and "maybe_reap archived st io dio mio p (min_committed gs) f = (r, f')" "f p \<noteq> None" "f' p = None"
  shows "(\<forall>l \<in> set ls. \<forall>(g, off) \<in> set gs. \<exists>c. off = Some c \<and> fst l \<le> c) \<and> (archived \<longrightarrow> f (marker_path p) \<noteq> None)"
proof -
  obtain c l where c: "min_committed gs = Some c" "last_offset_in_segment io p f = Inr l" "\<forall>k. l = Some k \<longrightarrow> k \<le> c"
    using maybe_reap_deletes(2) [OF assms(3-5)] by blast
  have "fst x \<le> c" if x: "x \<in> set ls" for x
  proof -
    have "l = Some (fst (last ls))" "ls \<noteq> []"
      using last_offset_in_segment_log [OF assms(1) c(2)] x by auto
    moreover have "fst x \<le> fst (last ls)"
      using assms(2) x \<open>ls \<noteq> []\<close>
      by (induction ls) (auto simp: less_imp_le split: if_splits)
    ultimately show ?thesis
      using c(3) by auto
  qed
  with min_committed_le [OF c(1)] maybe_reap_deletes(1) [OF assms(3-5)] show ?thesis
    by (fastforce intro: order_trans)
qed


definition sample_log :: "logged list" where
  "sample_log = [(0, message_new ''t'' ''a'' [1] 0, [1]), (1, message_new ''t'' ''a'' [2] 0, [2])]"

theorem reap_only_consumed_witness:
  "let f = [[''s''] \<mapsto> log_bytes sample_log];
       (r, f') = maybe_reap False True ReadOk DeleteOk DeleteOk [''s''] (min_committed [(''g'', Some 1), (''h'', Some 3)]) f
   in f [''s''] \<noteq> None \<and> f' [''s''] = None \<and>
      (\<forall>l \<in> set sample_log. \<forall>(g, off) \<in> set [(''g'', Some 1), (''h'', Some 3)]. \<exists>c. off = Some c \<and> fst l \<le> c)"
proof -
  let ?f = "[[''s''] \<mapsto> log_bytes sample_log]"
  let ?gs = "[(''g'', Some 1), (''h'', Some 3)] :: (string \<times> u64 option) list"
  have ok: "list_all (logged_ok sample_deser) sample_log" "read_frame [] = None"
    by (simp_all add: sample_log_def logged_ok_def sample_deser_def read_frame_short)
  then have held: "segment_file sample_deser ?f [''s''] sample_log"
    by (auto simp: segment_file_def intro: exI [of _ "[]"])
  have sorted: "sorted_wrt (<) (map fst sample_log)"
    by (simp add: sample_log_def)
  have "log_bytes sample_log \<noteq> []"
    by (simp add: sample_log_def)
  then have "last_offset_in_segment ReadOk [''s''] ?f = Inr (Some 1)"
    using last_offset_loop_log [OF ok, of None] by (simp add: last_offset_in_segment_def fs_read_def sample_log_def)
  then have reap: "maybe_reap False True ReadOk DeleteOk DeleteOk [''s''] (min_committed ?gs) ?f = (Inr (), ?f([''s''] := None))"
    by (simp add: maybe_reap_def reap_files_def fs_delete_def)
  from reap_only_consumed [OF held sorted reap] reap show ?thesis
    by (simp add: Let_def)
qed


section \<open>Uploads and reaping\<close>

text \<open>
  Any sequence of uploads and reaping of the sealed segments of a partition, with any I/O failures
  except a failed deletion of a left-over temporary file, which the uploader ignores.
\<close>

inductive retention_step :: "path \<Rightarrow> path \<Rightarrow> fs \<times> fs \<Rightarrow> fs \<times> fs \<Rightarrow> bool" for dir adir where
  upload: "ui_clean io = DeleteOk \<Longrightarrow> upload_segment io (segment_path dir i) (segment_path adir i) s = (r, s') \<Longrightarrow>
    retention_step dir adir s s'"
| reap: "maybe_reap True st io dio mio (segment_path dir i) committed f = (r, f') \<Longrightarrow>
    retention_step dir adir (f, af) (f', af)"

definition kept :: "path \<Rightarrow> path \<Rightarrow> u64 \<Rightarrow> bytes \<Rightarrow> fs \<times> fs \<Rightarrow> bool" where
  "kept dir adir i bs s \<longleftrightarrow>
     (let p = segment_path dir i; q = segment_path adir i
      in (fst s p = Some bs \<or> fst s p = None) \<and> (fst s p = Some bs \<or> snd s q = Some bs) \<and>
         (fst s (marker_path p) \<noteq> None \<longrightarrow> snd s q = Some bs))"

lemma path_names [simp]:
  "marker_path (segment_path dir i) \<noteq> segment_path dir j" "segment_path dir j \<noteq> marker_path (segment_path dir i)"
  "uploading_path (segment_path dir i) \<noteq> segment_path dir j" "segment_path dir j \<noteq> uploading_path (segment_path dir i)"
  "marker_path (segment_path dir i) = marker_path (segment_path dir j) \<longleftrightarrow> i = j"
proof -
  have d: "drop (length n - 5) n = ''.qseg''" if "n = last (segment_path dir j)" for n dir j
    using that by (simp add: segment_path_def SEGMENT_EXT_def)
  have m: "drop (length n - 5) n = ''oaded''" if "n = last (marker_path (segment_path dir j))" for n dir j
    using that by (simp add: marker_path_def UPLOADED_MARKER_EXT_def)
  have u: "drop (length n - 5) n = ''ading''" if "n = last (uploading_path (segment_path dir j))" for n dir j
    using that by (simp add: uploading_path_def)
  show "marker_path (segment_path dir i) \<noteq> segment_path dir j" "segment_path dir j \<noteq> marker_path (segment_path dir i)"
    using m [OF refl, of dir i] d [OF refl, of dir j] by auto
  show "uploading_path (segment_path dir i) \<noteq> segment_path dir j" "segment_path dir j \<noteq> uploading_path (segment_path dir i)"
    using u [OF refl, of dir i] d [OF refl, of dir j] by auto
  show "marker_path (segment_path dir i) = marker_path (segment_path dir j) \<longleftrightarrow> i = j"
    by (metis (no_types, lifting) append_same_eq last_snoc marker_path_def butlast_snoc append_butlast_last_id segment_id_path option.inject
        snoc_eq_iff_butlast segment_path_def)
qed

lemma fs_delete_ok: "snd (fs_delete DeleteOk p f) = f(p := None)"
  by (auto simp: fs_delete_def)

lemma archive_copy_result:
  assumes "ui_clean io = DeleteOk" "archive_copy io (segment_path adir i) bs af = (r, af')"
  shows "(\<forall>j. j \<noteq> i \<longrightarrow> af' (segment_path adir j) = af (segment_path adir j)) \<and>
    (af' (segment_path adir i) = af (segment_path adir i) \<or> af' (segment_path adir i) = Some bs) \<and>
    (\<not> isl r \<longrightarrow> af' (segment_path adir i) = Some bs)"
  using assms
  by (cases "ui_append io"; cases "ui_sync io"; cases "ui_rename io")
    (auto simp: archive_copy_def Let_def fs_delete_ok fs_rename_def contents_def)

lemma upload_segment_result:
  assumes "ui_clean io = DeleteOk"
    and "upload_segment io (segment_path dir i) (segment_path adir i) (f, af) = (r, f', af')"
  shows "(f', af') = (f, af) \<or>
    (\<exists>bs r2. f (segment_path dir i) = Some bs \<and> archive_copy io (segment_path adir i) bs af = (r2, af') \<and>
       (f' = f \<or> \<not> isl r2 \<and> (\<exists>m. f' = f(marker_path (segment_path dir i) \<mapsto> m))))"
proof -
  have appended: "f2 = f \<or> (\<exists>m. f2 = f(p \<mapsto> m))" if "fs_append mio p [] f = (x, f2)" for mio p x f2
    using that by (cases mio) auto
  show ?thesis
    using assms(2)
    by (auto simp: upload_segment_def Let_def dest!: fs_read_Inr appended
        split: if_split_asm sync_io.split_asm sum.split_asm prod.split_asm)
qed

lemma reap_files_result:
  "reap_files archived dio mio p f = (r, f') \<Longrightarrow>
   f' = f \<or> f' = f(p := None) \<or> f' = f(p := None, marker_path p := None)"
  by (auto simp: reap_files_def fs_delete_def split: delete_io.split_asm if_split_asm)

lemma retention_step_kept:
  assumes "retention_step dir adir s s'" "kept dir adir i bs s"
  shows "kept dir adir i bs s'"
  using assms(1)
proof cases
  case (upload io j r)
  obtain f af where s: "s = (f, af)" by (cases s)
  obtain f' af' where s': "s' = (f', af')" by (cases s')
  consider (same) "f' = f" "af' = af"
    | (copied) bs' r2 where "f (segment_path dir j) = Some bs'" "archive_copy io (segment_path adir j) bs' af = (r2, af')"
        "f' = f \<or> \<not> isl r2 \<and> (\<exists>m. f' = f(marker_path (segment_path dir j) \<mapsto> m))"
    using upload_segment_result [OF upload(1) upload(2) [unfolded s s']] by blast
  then show ?thesis
  proof cases
    case same
    with assms(2) s s' show ?thesis by simp
  next
    case (copied bs' r2)
    have "j = i \<Longrightarrow> bs' = bs"
      using assms(2) copied(1) s by (auto simp: kept_def Let_def)
    with archive_copy_result [OF upload(1) copied(2)] copied(3) assms(2) show ?thesis
      by (cases "j = i") (auto simp: kept_def s s' Let_def)
  qed
next
  case (reap st io dio mio j committed f r f' af)
  have "f' = f \<or> (f' = f(segment_path dir j := None) \<or>
      f' = f(segment_path dir j := None, marker_path (segment_path dir j) := None)) \<and> f (marker_path (segment_path dir j)) \<noteq> None"
    using reap(3)
    by (auto simp: maybe_reap_def dest: reap_files_result split: if_split_asm option.split_asm sum.split_asm)
  with assms(2) reap(1,2) show ?thesis
    by (cases "j = i") (auto simp: kept_def Let_def)
qed


definition sample_upload :: upload_io where
  "sample_upload = \<lparr>ui_stat = True, ui_mkdir = SyncOk, ui_read = ReadOk, ui_clean = DeleteOk, ui_append = AppendOk,
     ui_sync = SyncOk, ui_rename = SyncOk, ui_marker = AppendOk, ui_marker_sync = SyncOk\<rparr>"


text \<open>
  The hypothesis on left-over files is needed: the uploader ignores a failed deletion of the temporary
  file of an interrupted upload and appends to it, so the archive gets the old bytes in front of the
  segment, and the marker that lets the reaper delete the local copy is written.
\<close>

lemma stale_upload_archived:
  assumes "f p = Some bs" "bs \<noteq> []" "f (marker_path p) = None" "af (uploading_path q) = Some junk"
  shows "let (r, f', af') = upload_segment (sample_upload\<lparr>ui_clean := DeleteErr e\<rparr>) p q (f, af)
    in r = Inr () \<and> f' (marker_path p) \<noteq> None \<and> af' q = Some (junk @ bs)"
  using assms
  by (auto simp: upload_segment_def archive_copy_def sample_upload_def fs_read_def fs_delete_def contents_def fs_rename_def Let_def)

end
