(* ===== verification/Queue_Client.thy ===== *)
theory Queue_Client
  imports Queue_Retention
begin

text \<open>
  The queue client (\<^verbatim>\<open>lib.rs\<close>), the producer (\<^verbatim>\<open>producer.rs\<close>) and topic routing (\<^verbatim>\<open>topic.rs\<close>): the table of
  topics with a memory buffer and a disk writer per partition, creation of topics, recovery at opening,
  and sending. A send is two steps, \<open>send_append\<close> (up to the durable append) and \<open>send_publish\<close> (the
  insertion into memory and the fsync), between which other producers and consumers run. The hash of
  the tenant id, clocks, identifiers and I/O outcomes are arguments. Metrics and logging are left out.
\<close>

section \<open>Topics\<close>

record topic_state =
  ts_config :: topic_config
  ts_memory :: "memory list"
  ts_writers :: "disk_writer list"

record client =
  cl_root :: path
  cl_default_sync :: sync_mode
  cl_topics :: "string \<rightharpoonup> topic_state"
  cl_closed :: bool

text \<open>A remainder by zero panics in the source.\<close>

definition partition_for :: "(string \<Rightarrow> u64) \<Rightarrow> string \<Rightarrow> u32 \<Rightarrow> u32 option" where
  "partition_for hash tenant cnt =
     (if cnt = 0 then None else Some (of_nat (unat (hash tenant) mod unat cnt)))"

record open_env =
  oe_mkdir :: "queue_error + unit"
  oe_listing :: "queue_error + path list"
  oe_io :: append_io

fun open_writers ::
  "string \<Rightarrow> path \<Rightarrow> topic_config \<Rightarrow> (nat \<Rightarrow> open_env) \<Rightarrow> nat list \<Rightarrow> fs \<Rightarrow> (queue_error + disk_writer list) \<times> fs" where
  "open_writers topic rt cfg env [] f = (Inr [], f)"
| "open_writers topic rt cfg env (p # ps) f =
     (case writer_open topic (of_nat p) rt cfg (oe_mkdir (env p)) (oe_listing (env p)) (oe_io (env p)) f of
        (Inl e, f1) \<Rightarrow> (Inl e, f1)
      | (Inr w, f1) \<Rightarrow>
          (case open_writers topic rt cfg env ps f1 of
             (Inl e, f2) \<Rightarrow> (Inl e, f2)
           | (Inr ws, f2) \<Rightarrow> (Inr (w # ws), f2)))"

text \<open>\<open>others\<close> is what happens before the write lock of the topic table is taken; a topic created meanwhile wins.\<close>

definition ensure_topic_async ::
  "string \<Rightarrow> topic_config \<Rightarrow> queue_error + unit \<Rightarrow> (nat \<Rightarrow> open_env) \<Rightarrow> (client \<times> fs \<Rightarrow> client \<times> fs) \<Rightarrow>
   client \<Rightarrow> fs \<Rightarrow> (queue_error + topic_state) \<times> client \<times> fs" where
  "ensure_topic_async topic cfg directory env others cl f =
     (case validate_topic topic of
        Inl e \<Rightarrow> (Inl e, cl, f)
      | Inr _ \<Rightarrow>
          (case cl_topics cl topic of
             Some existing \<Rightarrow> (Inr existing, cl, f)
           | None \<Rightarrow>
               (case directory of
                  Inl e \<Rightarrow> (Inl e, cl, f)
                | Inr _ \<Rightarrow>
                    (case open_writers topic (cl_root cl) cfg env [0..<unat (partition_count cfg)] f of
                       (Inl e, f1) \<Rightarrow> (Inl e, cl, f1)
                     | (Inr ws, f1) \<Rightarrow>
                         (let ms = map (\<lambda>p. memory_new (of_nat p) (memory_capacity cfg)) [0..<unat (partition_count cfg)];
                              st = \<lparr>ts_config = cfg, ts_memory = ms, ts_writers = ws\<rparr>;
                              (cl2, f2) = others (cl, f1)
                          in case cl_topics cl2 topic of
                               Some existing \<Rightarrow> (Inr existing, cl2, f2)
                             | None \<Rightarrow> (Inr st, cl2\<lparr>cl_topics := (cl_topics cl2)(topic \<mapsto> st)\<rparr>, f2))))))"

section \<open>Recovery at opening\<close>

record part_env =
  pe_listing :: "queue_error + path list"
  pe_archive :: "(queue_error + path list) option"
  pe_groups :: "queue_error + (string \<times> u64 option) list"
  pe_rd :: "path \<Rightarrow> read_io"
  pe_ard :: "path \<Rightarrow> read_io"
  pe_io :: append_io

text \<open>The partitions of a topic, in order; a partition without memory or writer is an error.\<close>

fun recover_partitions ::
  "(bytes \<Rightarrow> message option) \<Rightarrow> (nat \<Rightarrow> part_env) \<Rightarrow> fs \<Rightarrow> string \<Rightarrow> nat list \<Rightarrow> topic_state \<Rightarrow> fs \<Rightarrow> nat \<Rightarrow>
   (queue_error + nat \<times> topic_state) \<times> fs" where
  "recover_partitions deser env af topic [] st f cnt = (Inr (cnt, st), f)"
| "recover_partitions deser env af topic (p # ps) st f cnt =
     (if length (ts_memory st) \<le> p \<or> length (ts_writers st) \<le> p
      then (Inl (PartitionNotFound topic (of_nat p)), f)
      else case replay_partition deser (pe_rd (env p)) (pe_ard (env p)) (pe_listing (env p)) (pe_archive (env p))
                  (pe_groups (env p)) (pe_io (env p)) af (ts_memory st ! p) (ts_writers st ! p) f of
             (Inl e, f1) \<Rightarrow> (Inl e, f1)
           | (Inr (n, m, w), f1) \<Rightarrow>
               recover_partitions deser env af topic ps
                 (st\<lparr>ts_memory := (ts_memory st)[p := m], ts_writers := (ts_writers st)[p := w]\<rparr>) f1 (cnt + n))"

text \<open>\<open>topics\<close> lists the registered topics in the order the hash map yields them.\<close>

fun recover ::
  "(bytes \<Rightarrow> message option) \<Rightarrow> (string \<Rightarrow> nat \<Rightarrow> part_env) \<Rightarrow> fs \<Rightarrow> string list \<Rightarrow> client \<Rightarrow> fs \<Rightarrow> nat \<Rightarrow>
   (queue_error + nat \<times> client) \<times> fs" where
  "recover deser env af [] cl f cnt = (Inr (cnt, cl), f)"
| "recover deser env af (topic # topics) cl f cnt =
     (case cl_topics cl topic of
        None \<Rightarrow> recover deser env af topics cl f cnt
      | Some st \<Rightarrow>
          (case recover_partitions deser (env topic) af topic [0..<unat (partition_count (ts_config st))] st f cnt of
             (Inl e, f1) \<Rightarrow> (Inl e, f1)
           | (Inr (n, st1), f1) \<Rightarrow>
               recover deser env af topics (cl\<lparr>cl_topics := (cl_topics cl)(topic \<mapsto> st1)\<rparr>) f1 n))"

section \<open>Sending\<close>

record send_env =
  se_directory :: "queue_error + unit"
  se_open :: "nat \<Rightarrow> open_env"
  se_rotate :: append_io
  se_append :: append_io

record send_ticket =
  tk_topic :: string
  tk_partition :: u32
  tk_message :: message
  tk_outcome :: append_outcome

abbreviation set_partition :: "string \<Rightarrow> nat \<Rightarrow> memory \<Rightarrow> disk_writer \<Rightarrow> client \<Rightarrow> client" where
  "set_partition topic p m w cl \<equiv>
     (case cl_topics cl topic of
        None \<Rightarrow> cl
      | Some st \<Rightarrow> cl\<lparr>cl_topics := (cl_topics cl)(topic \<mapsto>
          st\<lparr>ts_memory := (ts_memory st)[p := m], ts_writers := (ts_writers st)[p := w]\<rparr>)\<rparr>)"

text \<open>Up to the durable append: topic lookup or creation, routing, the check of hard pressure, the append.\<close>

definition send_append ::
  "(message \<Rightarrow> bytes option) \<Rightarrow> (string \<Rightarrow> u64) \<Rightarrow> send_env \<Rightarrow> message \<Rightarrow> client \<Rightarrow> fs \<Rightarrow>
   (queue_error + send_ticket) \<times> client \<times> fs" where
  "send_append ser hash env msg cl f =
     (case (case cl_topics cl (msg_topic msg) of
              Some st \<Rightarrow> (Inr st, cl, f)
            | None \<Rightarrow> ensure_topic_async (msg_topic msg) topic_config_default (se_directory env) (se_open env) id cl f) of
        (Inl e, cl1, f1) \<Rightarrow> (Inl e, cl1, f1)
      | (Inr st, cl1, f1) \<Rightarrow>
          (case partition_for hash (tenant_id msg) (partition_count (ts_config st)) of
             None \<Rightarrow> (Inl (OtherError ''panic: remainder with a divisor of zero''), cl1, f1)
           | Some part \<Rightarrow>
               (let p = unat part
                in if length (ts_memory st) \<le> p \<or> length (ts_writers st) \<le> p
                   then (Inl (PartitionNotFound (msg_topic msg) part), cl1, f1)
                   else let m = ts_memory st ! p; w = ts_writers st ! p
                        in case pressure m of
                             Some (Hard pct) \<Rightarrow> (Inl (Backpressure pct 100), cl1, f1)
                           | _ \<Rightarrow>
                               (case disk_append ser (se_rotate env) (se_append env) id msg w f1 of
                                  (Inl e, w1, f2) \<Rightarrow> (Inl e, set_partition (msg_topic msg) p m w1 cl1, f2)
                                | (Inr oc, w1, f2) \<Rightarrow>
                                    (Inr \<lparr>tk_topic = msg_topic msg, tk_partition = part, tk_message = msg, tk_outcome = oc\<rparr>,
                                     set_partition (msg_topic msg) p m w1 cl1, f2)))))"

record message_receipt =
  rc_message_id :: message_id
  rc_partition :: u32
  rc_offset :: u64
  rc_fsynced_at :: "nat option"
  rc_hint :: "backpressure_hint option"

text \<open>The insertion into memory, and in strict mode the wait for the group fsync.\<close>

definition send_publish ::
  "queue_error + unit \<Rightarrow> nat \<Rightarrow> send_ticket \<Rightarrow> client \<Rightarrow> (queue_error + message_receipt) \<times> client" where
  "send_publish fsync now t cl =
     (case cl_topics cl (tk_topic t) of
        None \<Rightarrow> (Inl (TopicNotFound (tk_topic t)), cl)
      | Some st \<Rightarrow>
          (let p = unat (tk_partition t)
           in case enqueue_with_offset (tk_message t) (ao_offset (tk_outcome t)) id (ts_memory st ! p) of
                (Inl _, m) \<Rightarrow> (Inl (Backpressure (depth m, pm_capacity m) 100), set_partition (tk_topic t) p m (ts_writers st ! p) cl)
              | (Inr (entry, hint), m) \<Rightarrow>
                  (let cl1 = set_partition (tk_topic t) p m (ts_writers st ! p) cl;
                       mode = (case sync_mode_override (ts_config st) of Some s \<Rightarrow> s | None \<Rightarrow> cl_default_sync cl);
                       receipt = (\<lambda>ts. \<lparr>rc_message_id = en_message_id entry, rc_partition = tk_partition t,
                                        rc_offset = en_offset entry, rc_fsynced_at = ts, rc_hint = hint\<rparr>)
                   in case mode of
                        Lazy \<Rightarrow> (Inr (receipt None), cl1)
                      | Strict \<Rightarrow>
                          (case fsync of
                             Inl e \<Rightarrow> (Inl e, cl1)
                           | Inr _ \<Rightarrow> (Inr (receipt (Some now)), cl1)))))"

definition producer_send ::
  "(message \<Rightarrow> bytes option) \<Rightarrow> (string \<Rightarrow> u64) \<Rightarrow> send_env \<Rightarrow> (client \<times> fs \<Rightarrow> client \<times> fs) \<Rightarrow> queue_error + unit \<Rightarrow> nat \<Rightarrow>
   message \<Rightarrow> client \<Rightarrow> fs \<Rightarrow> (queue_error + message_receipt) \<times> client \<times> fs" where
  "producer_send ser hash env others fsync now msg cl f =
     (case send_append ser hash env msg cl f of
        (Inl e, cl1, f1) \<Rightarrow> (Inl e, cl1, f1)
      | (Inr t, cl1, f1) \<Rightarrow>
          (let (cl2, f2) = others (cl1, f1); (r, cl3) = send_publish fsync now t cl2 in (r, cl3, f2)))"

fun send_batch where
  "send_batch ser hash env others fsync now [] cl f = (Inr [], cl, f)"
| "send_batch ser hash env others fsync now (m # ms) cl f =
     (case producer_send ser hash env others fsync now m cl f of
        (Inl e, cl1, f1) \<Rightarrow> (Inl e, cl1, f1)
      | (Inr r, cl1, f1) \<Rightarrow>
          (case send_batch ser hash env others fsync now ms cl1 f1 of
             (Inl e, cl2, f2) \<Rightarrow> (Inl e, cl2, f2)
           | (Inr rs, cl2, f2) \<Rightarrow> (Inr (r # rs), cl2, f2)))"

end
