(* ===== verification/Queue_Fencing.thy ===== *)
theory Queue_Fencing
  imports Queue_Store
begin

text \<open>
  Any number of processes work on the coordination files of the queue at once. Each iteration of a retry
  loop of \<open>Queue_Store\<close> is two or three steps: it observes files and decides (and then holds a
  publication), and later the conditional replacement runs, with any outcome. \<open>queue_step\<close> interleaves
  them; \<open>update_loop_steps\<close> and its siblings show that the loops of the code are runs of it. A lease is
  displaced only after its expiry, and offsets only move forward, at the hand of the current holder.
\<close>

section \<open>Interleaving\<close>

datatype publication =
    PubLease queue_key string lease_update nat "bytes option" bytes
  | PubRelease queue_key string bytes bytes
  | OwnOffset queue_key string u64 bytes
  | PubOffset queue_key string u64 bytes "bytes option" bytes

record codec =
  ser_lease :: "lease_meta \<Rightarrow> bytes option"
  deser_lease :: "bytes \<Rightarrow> lease_meta option"
  ser_offset :: "offset_meta \<Rightarrow> bytes option"
  deser_offset :: "bytes \<Rightarrow> offset_meta option"

inductive queue_step :: "codec \<Rightarrow> fs \<times> publication list \<Rightarrow> fs \<times> publication list \<Rightarrow> bool" for c where
  observe_lease: "lease_decide (ser_lease c) (deser_lease c) k h upd now (f (key_lease k)) = Inr bs \<Longrightarrow>
    queue_step c (f, P) (f, PubLease k h upd now (f (key_lease k)) bs # P)"
| observe_release: "f (key_lease k) = Some b \<Longrightarrow> release_decide (ser_lease c) (deser_lease c) h b = Inr bs \<Longrightarrow>
    queue_step c (f, P) (f, PubRelease k h b bs # P)"
| observe_owner: "owned_bytes (deser_lease c) k h io (Some now) f = Inr (lp, lb) \<Longrightarrow>
    queue_step c (f, P) (f, OwnOffset k h off lb # P)"
| observe_offset: "OwnOffset k h off lb \<in> set P \<Longrightarrow>
    offset_decide (ser_offset c) (deser_offset c) (k_group k) off (f (key_meta k)) = Inr bs \<Longrightarrow>
    queue_step c (f, P) (f, PubOffset k h off lb (f (key_meta k)) bs # remove1 (OwnOffset k h off lb) P)"
| publish_lease: "PubLease k h upd now obs bs \<in> set P \<Longrightarrow>
    compare_exchange io (key_lease k) obs bs [] f = (r, f') \<Longrightarrow>
    queue_step c (f, P) (f', remove1 (PubLease k h upd now obs bs) P)"
| publish_release: "PubRelease k h b bs \<in> set P \<Longrightarrow>
    compare_exchange io (key_lease k) (Some b) bs [] f = (r, f') \<Longrightarrow>
    queue_step c (f, P) (f', remove1 (PubRelease k h b bs) P)"
| publish_offset: "PubOffset k h off lb obs bs \<in> set P \<Longrightarrow>
    compare_exchange io (key_meta k) obs bs [(key_lease k, Some lb)] f = (r, f') \<Longrightarrow>
    queue_step c (f, P) (f', remove1 (PubOffset k h off lb obs bs) P)"
| give_up: "queue_step c (f, P) (f, remove1 x P)"

inductive_cases queue_stepE: "queue_step c (f, P) (f', P')"

text \<open>Every publication under way was decided on the bytes it expects.\<close>

fun decided :: "codec \<Rightarrow> publication \<Rightarrow> bool" where
  "decided c (PubLease k h upd now obs bs) \<longleftrightarrow>
     lease_decide (ser_lease c) (deser_lease c) k h upd now obs = Inr bs"
| "decided c (PubRelease k h b bs) \<longleftrightarrow> release_decide (ser_lease c) (deser_lease c) h b = Inr bs"
| "decided c (OwnOffset k h off lb) \<longleftrightarrow> map_option holder_id (deser_lease c lb) = Some h"
| "decided c (PubOffset k h off lb obs bs) \<longleftrightarrow> map_option holder_id (deser_lease c lb) = Some h \<and>
     offset_decide (ser_offset c) (deser_offset c) (k_group k) off obs = Inr bs"

lemma owned_bytes_Inr:
  "owned_bytes deser k h io now f = Inr (lp, lb) \<Longrightarrow>
   lp = key_lease k \<and> f (key_lease k) = Some lb \<and>
   (\<exists>l t. deser lb = Some l \<and> holder_id l = h \<and> now = Some t \<and> t < expires_at_unix_nanos l)"
  by (auto simp: owned_bytes_def dest: fs_read_Inr split: sum.split_asm option.split_asm if_split_asm)

lemma list_all_remove1 [intro]: "list_all Q P \<Longrightarrow> list_all Q (remove1 x P)"
  by (induction P) auto

lemma decided_in: "list_all (decided c) P \<Longrightarrow> x \<in> set P \<Longrightarrow> decided c x"
  by (simp add: list_all_iff)

lemma decided_step:
  assumes "queue_step c (f, P) (f', P')" "list_all (decided c) P"
  shows "list_all (decided c) P'"
  using assms(1)
proof cases
  case (observe_owner k h io now lp lb off)
  with assms(2) show ?thesis
    by (auto dest!: owned_bytes_Inr)
next
  case (observe_offset k h off lb bs)
  with assms(2) decided_in [OF assms(2) observe_offset(3)] show ?thesis
    by auto
qed (use assms(2) in auto)

lemma decided_run:
  "(queue_step c)\<^sup>*\<^sup>* (f, P) (f', P') \<Longrightarrow> list_all (decided c) P \<Longrightarrow> list_all (decided c) P'"
  by (induction rule: rtranclp_induct2) (auto intro: decided_step)

text \<open>A conditional replacement changes nothing, or its target, whose expected bytes were there.\<close>

lemma compare_exchange_cases:
  assumes "compare_exchange io p obs bs guards f = (r, f')"
  shows "f' = f \<and> r \<noteq> Inr True \<or> f p = obs \<and> f' = f(p \<mapsto> bs) \<and> list_all (\<lambda>(c, e). f c = e) guards"
  using assms unfolding compare_exchange_def
  by (cases "list_all (\<lambda>(c, _). cas_candidate_ok p c) ((p, obs) # guards)"; cases "f p = obs";
      cases "list_all (\<lambda>(c, e). f c = e) guards"; cases io) auto

lemma compare_exchange_True:
  "compare_exchange io p obs bs guards f = (Inr True, f') \<Longrightarrow> f' = f(p \<mapsto> bs)"
  using compare_exchange_cases by blast

lemma lease_not_meta [simp]: "key_lease k \<noteq> key_meta k'" "key_meta k' \<noteq> key_lease k"
  by (auto simp: lease_path_def meta_path_def LEASE_FILE_def META_FILE_def)

lemma meta_path_group: "key_meta k = key_meta k' \<Longrightarrow> k_group k = k_group k'"
  by (simp add: meta_path_def)

section \<open>Leases\<close>

text \<open>What the code relies on of the JSON codec: it reads back what it has written.\<close>

definition codec_sound :: "codec \<Rightarrow> bool" where
  "codec_sound c \<longleftrightarrow> (\<forall>l bs. ser_lease c l = Some bs \<longrightarrow> deser_lease c bs = Some l) \<and>
     (\<forall>m bs. ser_offset c m = Some bs \<longrightarrow> deser_offset c bs = Some m)"

lemma lease_publish_Inr:
  "lease_publish ser h d now = Inr bs \<longleftrightarrow>
   now + d < 2 ^ 128 \<and> ser \<lparr>holder_id = h, expires_at_unix_nanos = now + d\<rparr> = Some bs"
  by (auto simp: lease_publish_def split: option.splits)

lemma lease_decide_bytes:
  "lease_decide ser deser k h upd now obs = Inr bs \<Longrightarrow>
   ser \<lparr>holder_id = h, expires_at_unix_nanos = now + fst (lease_terms upd)\<rparr> = Some bs"
  by (cases upd) (simp_all add: lease_decide_def lease_publish_Inr Let_def split: option.split_asm if_split_asm)

lemma lease_decide_takeover:
  "lease_decide ser deser k h upd now (Some b) = Inr bs \<Longrightarrow> \<exists>l. deser b = Some l \<and>
     (holder_id l = h \<or> (\<exists>d. upd = LeaseAcquire d) \<and> expires_at_unix_nanos l \<le> now)"
  by (cases upd) (simp_all add: lease_decide_def not_less Let_def split: option.split_asm if_split_asm)

lemma release_decide_Inr:
  "release_decide ser deser h b = Inr bs \<Longrightarrow>
   \<exists>l. deser b = Some l \<and> holder_id l = h \<and> ser (l\<lparr>expires_at_unix_nanos := 0\<rparr>) = Some bs"
  by (auto simp: release_decide_def split: option.splits if_splits)

lemma lease_step:
  assumes "queue_step c (f, P) (f', P')" "f' (key_lease k) \<noteq> f (key_lease k)"
  obtains (lease) k' h upd now bs where "PubLease k' h upd now (f (key_lease k)) bs \<in> set P"
      "f' (key_lease k) = Some bs"
  | (release) k' h b bs where "PubRelease k' h b bs \<in> set P" "f (key_lease k) = Some b"
      "f' (key_lease k) = Some bs"
  using assms(1)
proof cases
  case (publish_lease k' h upd now obs bs io r)
  with compare_exchange_cases [OF publish_lease(3)] assms(2) show ?thesis
    by (auto intro: lease split: if_splits)
next
  case (publish_release k' h b bs io r)
  with compare_exchange_cases [OF publish_release(3)] assms(2) show ?thesis
    by (auto intro: release split: if_splits)
next
  case (publish_offset k' h off lb obs bs io r)
  with compare_exchange_cases [OF publish_offset(3)] assms(2) show ?thesis
    by auto
qed (use assms(2) in auto)

text \<open>
  C3: a lease is displaced only after its expiry. Any number of processes acquire, renew, release and
  commit at once, with any clocks and any I/O outcomes. When a step changes the lease file of a group,
  the file then holds a lease; and if it held one before, either the holder is the same, or the new
  holder acquired it by a replacement of exactly the old bytes, decided at a reading of its clock at
  or after the expiry of the old lease.
\<close>

theorem lease_displaced_after_expiry:
  assumes "codec_sound c" and "(queue_step c)\<^sup>*\<^sup>* (f0, []) (f, P)" and "queue_step c (f, P) (f', P')"
    and "f' (key_lease k) \<noteq> f (key_lease k)"
  shows "\<exists>b' l'. f' (key_lease k) = Some b' \<and> deser_lease c b' = Some l' \<and>
    (case f (key_lease k) of None \<Rightarrow> True
     | Some b \<Rightarrow> \<exists>l. deser_lease c b = Some l \<and> (holder_id l' = holder_id l \<or>
         (\<exists>k' d now. PubLease k' (holder_id l') (LeaseAcquire d) now (Some b) b' \<in> set P \<and>
            expires_at_unix_nanos l \<le> now \<and> expires_at_unix_nanos l' = now + d)))"
proof -
  have P: "list_all (decided c) P"
    using decided_run [OF assms(2)] by simp
  show ?thesis
    using assms(3,4)
  proof (cases rule: lease_step)
    case (lease k' h upd now bs)
    note d = decided_in [OF P lease(1), unfolded decided.simps]
    have l': "deser_lease c bs = Some \<lparr>holder_id = h, expires_at_unix_nanos = now + fst (lease_terms upd)\<rparr>"
      using assms(1) lease_decide_bytes [OF d] by (simp add: codec_sound_def)
    show ?thesis
    proof (cases "f (key_lease k)")
      case None
      with lease l' show ?thesis by simp
    next
      case (Some b)
      from lease_decide_takeover [OF d [unfolded Some]] lease l' Some show ?thesis
        by auto blast
    qed
  next
    case (release k' h b bs)
    from release_decide_Inr [OF decided_in [OF P release(1), unfolded decided.simps]] assms(1) release
    show ?thesis
      by (auto simp: codec_sound_def)
  qed
qed

text \<open>A codec for the witnesses: the text, a zero byte, and the number in unary.\<close>

definition enc :: "string \<Rightarrow> nat \<Rightarrow> bytes option" where
  "enc s n = (if list_all (\<lambda>ch. of_char ch \<noteq> (0 :: u8)) s then Some (map of_char s @ 0 # replicate n 1) else None)"

definition dec :: "bytes \<Rightarrow> string \<times> nat" where
  "dec bs = (map (\<lambda>b. char_of (unat b)) (takeWhile (\<lambda>b. b \<noteq> 0) bs), length (dropWhile (\<lambda>b. b \<noteq> 0) bs) - 1)"

lemma unat_of_char_u8: "unat (of_char ch :: u8) = of_char ch"
proof -
  have "of_char ch < (256 :: nat)"
    by simp
  then have "unat (of_nat (of_char ch) :: u8) = of_char ch"
    by (simp add: unsigned_of_nat take_bit_nat_eq_self)
  then show ?thesis
    by (simp add: of_nat_of_char)
qed

lemma dec_enc: "enc s n = Some bs \<Longrightarrow> dec bs = (s, n)"
proof -
  assume "enc s n = Some bs"
  then have "bs = map of_char s @ 0 # replicate n 1" "\<forall>b \<in> set (map of_char s :: bytes). b \<noteq> 0"
    by (auto simp: enc_def list_all_iff split: if_splits)
  moreover have "char_of (unat (of_char ch :: u8)) = ch" for ch
    by (simp add: unat_of_char_u8)
  ultimately show ?thesis
    by (simp add: dec_def takeWhile_append dropWhile_append comp_def)
qed

definition sample_codec :: codec where
  "sample_codec = \<lparr>ser_lease = \<lambda>l. enc (holder_id l) (expires_at_unix_nanos l),
     deser_lease = \<lambda>bs. Some \<lparr>holder_id = fst (dec bs), expires_at_unix_nanos = snd (dec bs)\<rparr>,
     ser_offset = \<lambda>m. enc (om_group m) (unat (committed_offset m)),
     deser_offset = \<lambda>bs. Some \<lparr>om_group = fst (dec bs), committed_offset = of_nat (snd (dec bs))\<rparr>\<rparr>"

lemma sample_codec_sound: "codec_sound sample_codec"
  by (auto simp: codec_sound_def sample_codec_def dest!: dec_enc)

definition sample_key :: queue_key where
  "sample_key = \<lparr>k_root = [''q''], k_topic = ''t'', k_partition = 0, k_group = ''g''\<rparr>"

definition lease_bytes :: "string \<Rightarrow> nat \<Rightarrow> bytes" where
  "lease_bytes h e = map of_char h @ 0 # replicate e 1"

lemma sample_cas_ok: "compare_exchange CasOk (key_lease sample_key) (f (key_lease sample_key)) bs [] f =
    (Inr True, f(key_lease sample_key \<mapsto> bs))"
  by (simp add: compare_exchange_def cas_candidate_ok_def lease_path_def sample_key_def LEASE_FILE_def
      is_coordination_lock_file_def eq_ignore_ascii_case_def ascii_lower_def Let_def)

lemma sample_lease:
  assumes "f (key_lease sample_key) = None \<or> f (key_lease sample_key) = Some (lease_bytes h e) \<and>
      enc h e \<noteq> None \<and> h \<noteq> [] \<and> e \<le> now"
    and "enc h' (now + d) \<noteq> None" and "now + d < 2 ^ 128"
  shows "lease_decide (ser_lease sample_codec) (deser_lease sample_codec) sample_key h' (LeaseAcquire d) now
    (f (key_lease sample_key)) = Inr (lease_bytes h' (now + d))"
proof -
  have enc: "enc s n = Some (lease_bytes s n)" if "enc s n \<noteq> None" for s n
    using that by (auto simp: enc_def lease_bytes_def split: if_splits)
  have "dec (lease_bytes s n) = (s, n)" if "enc s n \<noteq> None" for s n
    using dec_enc enc that by blast
  with assms enc [OF assms(2)] show ?thesis
    by (auto simp: lease_decide_def lease_publish_def sample_codec_def Let_def)
qed

lemma rtranclp_three: "r a b \<Longrightarrow> r b c \<Longrightarrow> r c d \<Longrightarrow> r\<^sup>*\<^sup>* a d"
  by (simp add: converse_rtranclp_into_rtranclp)

theorem lease_displaced_after_expiry_witness:
  "let f = [key_lease sample_key \<mapsto> lease_bytes ''a'' 15];
       p = PubLease sample_key ''b'' (LeaseAcquire 9) 16 (Some (lease_bytes ''a'' 15)) (lease_bytes ''b'' 25)
   in (queue_step sample_codec)\<^sup>*\<^sup>* (Map.empty, []) (f, [p]) \<and>
      queue_step sample_codec (f, [p]) (f(key_lease sample_key \<mapsto> lease_bytes ''b'' 25), []) \<and>
      (\<exists>k' d now. PubLease k' ''b'' (LeaseAcquire d) now (Some (lease_bytes ''a'' 15)) (lease_bytes ''b'' 25) \<in> set [p] \<and>
         15 \<le> now)"
proof -
  let ?f = "[key_lease sample_key \<mapsto> lease_bytes ''a'' 15]"
  let ?p = "PubLease sample_key ''b'' (LeaseAcquire 9) 16 (Some (lease_bytes ''a'' 15)) (lease_bytes ''b'' 25)"
  let ?f' = "?f(key_lease sample_key \<mapsto> lease_bytes ''b'' 25)"
  let ?q = "PubLease sample_key ''a'' (LeaseAcquire 5) 10 None (lease_bytes ''a'' 15)"
  have e: "enc ''a'' 15 \<noteq> None" "enc ''b'' 25 \<noteq> None"
    by (simp_all add: enc_def of_char_eq_iff)
  have d: "dec (lease_bytes ''a'' 15) = (''a'', 15)" "dec (lease_bytes ''b'' 25) = (''b'', 25)"
    using e dec_enc [of "''a''" 15] dec_enc [of "''b''" 25] by (auto simp: enc_def lease_bytes_def split: if_splits)
  have s1: "queue_step sample_codec (Map.empty, []) (Map.empty, [?q])"
    using observe_lease [of sample_codec sample_key "''a''" "LeaseAcquire 5" 10 Map.empty "lease_bytes ''a'' 15" "[]"]
      sample_lease [of Map.empty "[]" 0 10 "''a''" 5] e by simp
  have s2: "queue_step sample_codec (Map.empty, [?q]) (?f, [])"
    using publish_lease [of sample_key "''a''" "LeaseAcquire 5" 10 None "lease_bytes ''a'' 15" "[?q]" CasOk]
      sample_cas_ok [of Map.empty] by simp
  have s3: "queue_step sample_codec (?f, []) (?f, [?p])"
    using observe_lease [of sample_codec sample_key "''b''" "LeaseAcquire 9" 16 ?f "lease_bytes ''b'' 25" "[]"]
      sample_lease [of ?f "''a''" 15 16 "''b''" 9] e by simp
  have s4: "queue_step sample_codec (?f, [?p]) (?f', [])"
    using publish_lease [of sample_key "''b''" "LeaseAcquire 9" 16 "Some (lease_bytes ''a'' 15)" "lease_bytes ''b'' 25" "[?p]" CasOk]
      sample_cas_ok [of ?f] by simp
  have run: "(queue_step sample_codec)\<^sup>*\<^sup>* (Map.empty, []) (?f, [?p])"
    by (rule rtranclp_three [of "queue_step sample_codec", OF s1 s2 s3])
  have "dec (lease_bytes ''a'' 15) \<noteq> dec (lease_bytes ''b'' 25)"
    by (simp add: d)
  then have changed: "?f' (key_lease sample_key) \<noteq> ?f (key_lease sample_key)"
    by auto
  have "\<exists>k' d now. PubLease k' ''b'' (LeaseAcquire d) now (Some (lease_bytes ''a'' 15)) (lease_bytes ''b'' 25) \<in> set [?p] \<and>
      15 \<le> now"
    using lease_displaced_after_expiry [OF sample_codec_sound run s4 changed]
    by (simp add: sample_codec_def d)
  with run s4 show ?thesis
    unfolding Let_def by (intro conjI)
qed

section \<open>Committed offsets\<close>

lemma offset_decide_Inr:
  assumes "offset_decide oser odeser g off obs = Inr bs"
  shows "case obs of
      None \<Rightarrow> oser \<lparr>om_group = g, committed_offset = off\<rparr> = Some bs
    | Some b \<Rightarrow> \<exists>v. offset_decode odeser g b = Inr v \<and> oser \<lparr>om_group = g, committed_offset = max v off\<rparr> = Some bs"
  using assms by (auto simp: offset_decide_def split: option.splits sum.splits)

lemma meta_path_lease: "key_meta k = key_meta k' \<Longrightarrow> key_lease k = key_lease k'"
  by (simp add: meta_path_def lease_path_def group_dir_name_def)

lemma offset_step:
  assumes "queue_step c (f, P) (f', P')" "f' (key_meta k) \<noteq> f (key_meta k)"
  obtains k' h off lb bs where "PubOffset k' h off lb (f (key_meta k)) bs \<in> set P"
    "f' (key_meta k) = Some bs" "f (key_lease k) = Some lb" "k_group k' = k_group k"
  using assms(1)
proof cases
  case (publish_lease k' h upd now obs bs io r)
  with compare_exchange_cases [OF publish_lease(3)] assms(2) show ?thesis
    by auto
next
  case (publish_release k' h b bs io r)
  with compare_exchange_cases [OF publish_release(3)] assms(2) show ?thesis
    by auto
next
  case (publish_offset k' h off lb obs bs io r)
  with compare_exchange_cases [OF publish_offset(3)] assms(2)
  have *: "f (key_meta k') = obs" "f' = f(key_meta k' \<mapsto> bs)" "f (key_lease k') = Some lb"
    by auto
  with assms(2) have "key_meta k = key_meta k'"
    by (auto split: if_splits)
  with * publish_offset meta_path_lease [OF this] meta_path_group [OF this] show ?thesis
    using that by auto
qed (use assms(2) in auto)

text \<open>
  C4: committed offsets are fenced by the lease. Whatever processes run, a step that changes the offset
  file of a group replaces it while the lease file holds exactly the bytes of a lease of the committing
  holder; what is written is for that group, is at least what was committed before, and is the old
  value or the value that holder commits, whichever is greater.
\<close>

theorem offset_fenced:
  assumes "codec_sound c" and "(queue_step c)\<^sup>*\<^sup>* (f0, []) (f, P)" and "queue_step c (f, P) (f', P')"
    and "f' (key_meta k) \<noteq> f (key_meta k)"
  shows "\<exists>b' m' lb l off. f' (key_meta k) = Some b' \<and> deser_offset c b' = Some m' \<and> om_group m' = k_group k \<and>
    f (key_lease k) = Some lb \<and> deser_lease c lb = Some l \<and>
    (\<exists>k'. PubOffset k' (holder_id l) off lb (f (key_meta k)) b' \<in> set P) \<and>
    (case f (key_meta k) of None \<Rightarrow> committed_offset m' = off
     | Some b \<Rightarrow> \<exists>v. offset_decode (deser_offset c) (k_group k) b = Inr v \<and> committed_offset m' = max v off)"
proof -
  have P: "list_all (decided c) P"
    using decided_run [OF assms(2)] by simp
  from assms(3,4) obtain k' h off lb bs where
    *: "PubOffset k' h off lb (f (key_meta k)) bs \<in> set P" "f' (key_meta k) = Some bs"
       "f (key_lease k) = Some lb" "k_group k' = k_group k"
    by (rule offset_step)
  from decided_in [OF P *(1)] *(4) have
    d: "map_option holder_id (deser_lease c lb) = Some h"
       "offset_decide (ser_offset c) (deser_offset c) (k_group k) off (f (key_meta k)) = Inr bs"
    by simp_all
  from offset_decide_Inr [OF d(2)] d(1) * assms(1) show ?thesis
    by (cases "f (key_meta k)") (auto simp: codec_sound_def, blast)
qed

lemma offset_read_Inr:
  "offset_read odeser k ReadOk f = Inr (Some v) \<longleftrightarrow>
   validate_key k = Inr () \<and> (\<exists>b. f (key_meta k) = Some b \<and> offset_decode odeser (k_group k) b = Inr v)"
  by (auto simp: offset_read_def read_bytes_def fs_read_def split: sum.splits option.splits)

lemma offset_step_forward:
  assumes "codec_sound c" "list_all (decided c) P" "queue_step c (f, P) (f', P')"
    and "offset_read (deser_offset c) k ReadOk f = Inr (Some v)"
  shows "\<exists>v'. offset_read (deser_offset c) k ReadOk f' = Inr (Some v') \<and> v \<le> v'"
proof (cases "f' (key_meta k) = f (key_meta k)")
  case True
  with assms(4) show ?thesis
    by (auto simp: offset_read_Inr)
next
  case False
  with assms(3) obtain k' h off lb bs where
    *: "PubOffset k' h off lb (f (key_meta k)) bs \<in> set P" "f' (key_meta k) = Some bs" "k_group k' = k_group k"
    by (rule offset_step)
  from decided_in [OF assms(2) *(1)] *(3)
  have "offset_decide (ser_offset c) (deser_offset c) (k_group k) off (f (key_meta k)) = Inr bs"
    by simp
  from offset_decide_Inr [OF this] assms(1,4) *(2) show ?thesis
    by (auto simp: offset_read_Inr codec_sound_def offset_decode_def split: option.splits if_splits)
qed

text \<open>
  C7: a committed offset never goes back. Whatever processes acquire, renew, release and commit, in
  whatever order and with whatever I/O failures: once a group has a committed offset, every later read
  returns one, at least as great.
\<close>

theorem offset_never_regresses:
  assumes "codec_sound c" and "(queue_step c)\<^sup>*\<^sup>* (f0, []) (f, P)" and "(queue_step c)\<^sup>*\<^sup>* (f, P) (f', P')"
    and "offset_read (deser_offset c) k ReadOk f = Inr (Some v)"
  shows "\<exists>v'. offset_read (deser_offset c) k ReadOk f' = Inr (Some v') \<and> v \<le> v'"
  using assms(3)
proof (induction rule: rtranclp_induct2)
  case refl
  from assms(4) show ?case by blast
next
  case (step f1 P1 f2 P2)
  from step.IH obtain v1 where v1: "offset_read (deser_offset c) k ReadOk f1 = Inr (Some v1)" "v \<le> v1"
    by blast
  have "list_all (decided c) P1"
    using decided_run [OF step.hyps(1) decided_run [OF assms(2)]] by simp
  from offset_step_forward [OF assms(1) this step.hyps(2) v1(1)] v1(2) show ?case
    using order_trans by blast
qed

section \<open>The retry loops are runs\<close>

text \<open>What others do between two accesses of a loop: steps that leave the publications under way as they are.\<close>

definition others :: "codec \<Rightarrow> (fs \<Rightarrow> fs) \<Rightarrow> bool" where
  "others c e \<longleftrightarrow> (\<forall>f P. (queue_step c)\<^sup>*\<^sup>* (f, P) (e f, P))"

definition env_ok :: "codec \<Rightarrow> attempt \<Rightarrow> bool" where
  "env_ok c a \<longleftrightarrow> others c (before a) \<and> others c (meanwhile a) \<and> others c (meanwhile2 a)"

lemma othersD: "others c e \<Longrightarrow> (queue_step c)\<^sup>*\<^sup>* (f, P) (e f, P)"
  by (simp add: others_def)

lemma env_okD: "env_ok c a \<Longrightarrow> others c (before a) \<and> others c (meanwhile a) \<and> others c (meanwhile2 a)"
  by (simp add: env_ok_def)

lemma read_bytes_Inr: "read_bytes io p f = Inr obs \<Longrightarrow> f p = obs"
  by (auto simp: read_bytes_def fs_read_def split: sum.splits queue_error.splits read_io.splits option.splits)

lemma lease_attempt_run:
  assumes "others c e" "lease_decide (ser_lease c) (deser_lease c) k h upd now (f (key_lease k)) = Inr bs"
    and "compare_exchange io (key_lease k) (f (key_lease k)) bs [] (e f) = (r, f')"
  shows "(queue_step c)\<^sup>*\<^sup>* (f, P) (f', P)"
proof -
  let ?p = "PubLease k h upd now (f (key_lease k)) bs"
  have "queue_step c (f, P) (f, ?p # P)"
    by (rule observe_lease) (rule assms(2))
  also have "(queue_step c)\<^sup>*\<^sup>* (f, ?p # P) (e f, ?p # P)"
    by (rule othersD [OF assms(1)])
  also have "queue_step c (e f, ?p # P) (f', remove1 ?p (?p # P))"
    by (rule publish_lease [OF _ assms(3)]) simp
  finally show ?thesis
    by simp
qed

lemma update_loop_steps:
  assumes "list_all (env_ok c) as" "update_loop (ser_lease c) (deser_lease c) k h upd as f = (r, f')"
  shows "(queue_step c)\<^sup>*\<^sup>* (f, P) (f', P)"
  using assms
proof (induction as arbitrary: f)
  case (Cons a as)
  let ?f1 = "before a f"
  have e: "others c (before a)" "others c (meanwhile a)" "list_all (env_ok c) as"
    using Cons.prems(1) by (auto dest: env_okD)
  note start = othersD [OF e(1), of f P]
  show ?case
  proof (cases "read_bytes (rd_io a) (key_lease k) ?f1")
    case (Inl x)
    with Cons.prems(2) start show ?thesis by (simp add: Let_def)
  next
    case obs: (Inr obs)
    note seen = read_bytes_Inr [OF obs]
    show ?thesis
    proof (cases "clock a")
      case None
      with obs Cons.prems(2) start show ?thesis by (simp add: Let_def)
    next
      case now: (Some now)
      show ?thesis
      proof (cases "lease_decide (ser_lease c) (deser_lease c) k h upd now obs")
        case (Inl x)
        with now obs Cons.prems(2) start show ?thesis by (simp add: Let_def)
      next
        case bs: (Inr bs)
        obtain r2 f2 where cas: "compare_exchange (cs_io a) (key_lease k) obs bs [] (meanwhile a ?f1) = (r2, f2)"
          by (meson surj_pair)
        have "(queue_step c)\<^sup>*\<^sup>* (f, P) (f2, P)"
          using start lease_attempt_run [OF e(2), of k h upd now ?f1 bs "cs_io a" r2 f2 P] bs cas seen
          by (simp add: rtranclp_trans)
        moreover have "f' = f2 \<or> update_loop (ser_lease c) (deser_lease c) k h upd as f2 = (r, f')"
          using Cons.prems(2) obs now bs cas by (auto simp: Let_def split: sum.splits bool.splits)
        ultimately show ?thesis
          using Cons.IH [OF e(3)] by (metis rtranclp_trans)
      qed
    qed
  qed
qed simp

lemma release_attempt_run:
  assumes "others c e" "f (key_lease k) = Some b" "release_decide (ser_lease c) (deser_lease c) h b = Inr bs"
    and "compare_exchange io (key_lease k) (Some b) bs [] (e f) = (r, f')"
  shows "(queue_step c)\<^sup>*\<^sup>* (f, P) (f', P)"
proof -
  let ?p = "PubRelease k h b bs"
  have "queue_step c (f, P) (f, ?p # P)"
    by (rule observe_release) (rule assms(2,3))+
  also have "(queue_step c)\<^sup>*\<^sup>* (f, ?p # P) (e f, ?p # P)"
    by (rule othersD [OF assms(1)])
  also have "queue_step c (e f, ?p # P) (f', remove1 ?p (?p # P))"
    by (rule publish_release [OF _ assms(4)]) simp
  finally show ?thesis
    by simp
qed

lemma release_loop_steps:
  assumes "list_all (env_ok c) as" "release_loop (ser_lease c) (deser_lease c) k h as f = (r, f')"
  shows "(queue_step c)\<^sup>*\<^sup>* (f, P) (f', P)"
  using assms
proof (induction as arbitrary: f)
  case (Cons a as)
  let ?f1 = "before a f"
  have e: "others c (before a)" "others c (meanwhile a)" "list_all (env_ok c) as"
    using Cons.prems(1) by (auto dest: env_okD)
  note start = othersD [OF e(1), of f P]
  consider "f' = ?f1"
    | b bs r2 f2 where "?f1 (key_lease k) = Some b" "release_decide (ser_lease c) (deser_lease c) h b = Inr bs"
        "compare_exchange (cs_io a) (key_lease k) (Some b) bs [] (meanwhile a ?f1) = (r2, f2)"
        "f' = f2 \<or> release_loop (ser_lease c) (deser_lease c) k h as f2 = (r, f')"
    using Cons.prems(2)
    by (auto simp: Let_def dest!: read_bytes_Inr split: sum.split_asm option.split_asm prod.split_asm bool.split_asm)
  then show ?case
  proof cases
    case 1
    with start show ?thesis by simp
  next
    case (2 b bs r2 f2)
    from start release_attempt_run [OF e(2) 2(1-3), of P] have "(queue_step c)\<^sup>*\<^sup>* (f, P) (f2, P)"
      by (rule rtranclp_trans)
    with 2(4) Cons.IH [OF e(3)] show ?thesis
      by (metis rtranclp_trans)
  qed
qed simp

lemma offset_attempt_run:
  assumes "others c e" "others c e2" "owned_bytes (deser_lease c) k h io (Some now) f = Inr (lp, lb)"
    and "offset_decide (ser_offset c) (deser_offset c) (k_group k) off (e f (key_meta k)) = Inr bs"
    and "compare_exchange cio (key_meta k) (e f (key_meta k)) bs [(key_lease k, Some lb)] (e2 (e f)) = (r, f')"
  shows "(queue_step c)\<^sup>*\<^sup>* (f, P) (f', P)"
proof -
  let ?o = "OwnOffset k h off lb"
  let ?p = "PubOffset k h off lb (e f (key_meta k)) bs"
  have "queue_step c (f, P) (f, ?o # P)"
    by (rule observe_owner [OF assms(3)])
  also have "(queue_step c)\<^sup>*\<^sup>* (f, ?o # P) (e f, ?o # P)"
    by (rule othersD [OF assms(1)])
  also have "queue_step c (e f, ?o # P) (e f, ?p # remove1 ?o (?o # P))"
    by (rule observe_offset) (use assms(4) in simp_all)
  also have "(queue_step c)\<^sup>*\<^sup>* (e f, ?p # remove1 ?o (?o # P)) (e2 (e f), ?p # P)"
    using othersD [OF assms(2), of "e f" "?p # P"] by simp
  also have "queue_step c (e2 (e f), ?p # P) (f', remove1 ?p (?p # P))"
    by (rule publish_offset [OF _ assms(5)]) simp
  finally show ?thesis
    by simp
qed

lemma offset_loop_steps:
  assumes "list_all (env_ok c) as"
    and "offset_loop (ser_offset c) (deser_offset c) (deser_lease c) k h off as f = (r, f')"
  shows "(queue_step c)\<^sup>*\<^sup>* (f, P) (f', P)"
  using assms
proof (induction as arbitrary: f)
  case (Cons a as)
  let ?f1 = "before a f"
  let ?f2 = "meanwhile a ?f1"
  have e: "others c (before a)" "others c (meanwhile a)" "others c (meanwhile2 a)" "list_all (env_ok c) as"
    using Cons.prems(1) by (auto dest: env_okD)
  note start = othersD [OF e(1), of f P]
  show ?case
  proof (cases "owned_bytes (deser_lease c) k h (rd_io a) (clock a) ?f1")
    case (Inl x)
    with Cons.prems(2) start show ?thesis by (simp add: Let_def)
  next
    case own: (Inr lease)
    obtain lb now where lb: "lease = (key_lease k, lb)" "clock a = Some now"
      using owned_bytes_Inr [of _ _ _ _ _ _ "fst lease" "snd lease"] own by (metis prod.collapse)
    consider "f' = ?f2"
      | bs r3 f3 where "offset_decide (ser_offset c) (deser_offset c) (k_group k) off (?f2 (key_meta k)) = Inr bs"
          "compare_exchange (cs_io a) (key_meta k) (?f2 (key_meta k)) bs [(key_lease k, Some lb)] (meanwhile2 a ?f2) = (r3, f3)"
          "f' = f3 \<or> offset_loop (ser_offset c) (deser_offset c) (deser_lease c) k h off as f3 = (r, f')"
      using Cons.prems(2) own lb(1)
      by (auto simp: Let_def dest!: read_bytes_Inr split: sum.split_asm prod.split_asm bool.split_asm)
    then show ?thesis
    proof cases
      case 1
      with start othersD [OF e(2), of ?f1 P] show ?thesis by simp
    next
      case (2 bs r3 f3)
      from start offset_attempt_run [OF e(2,3) own [unfolded lb] 2(1,2), of P] have "(queue_step c)\<^sup>*\<^sup>* (f, P) (f3, P)"
        by (rule rtranclp_trans)
      with 2(3) Cons.IH [OF e(4)] show ?thesis
        by (metis rtranclp_trans)
    qed
  qed
qed simp

text \<open>
  C18: the operations of the code refine the interleaving. When what the other processes do before and
  between the accesses of a retry loop are steps of theirs, then acquiring, renewing and releasing a
  lease and committing an offset, with any clocks, I/O outcomes and number of retries, take the files
  from state to state by steps of \<open>queue_step\<close>; so the theorems on its runs hold of the operations.
\<close>

theorem coordination_refines_steps:
  assumes "\<forall>i < 8. env_ok c (env i)"
  shows "(queue_step c)\<^sup>*\<^sup>* (f, P) (snd (try_acquire (ser_lease c) (deser_lease c) k h d dir env f), P) \<and>
     (queue_step c)\<^sup>*\<^sup>* (f, P) (snd (renew (ser_lease c) (deser_lease c) k h d dir env f), P) \<and>
     (queue_step c)\<^sup>*\<^sup>* (f, P) (snd (lease_release (ser_lease c) (deser_lease c) k h env f), P) \<and>
     (queue_step c)\<^sup>*\<^sup>* (f, P)
      (snd (offset_commit (ser_offset c) (deser_offset c) (deser_lease c) k h off env f), P)"
proof (intro conjI)
  have e: "list_all (env_ok c) (map env [0..<8])"
    using assms by (simp add: list_all_iff)
  have upd: "(queue_step c)\<^sup>*\<^sup>* (f, P) (snd (lease_update_op (ser_lease c) (deser_lease c) k h u dir env f), P)" for u
    using update_loop_steps [OF e surjective_pairing]
    by (auto simp: lease_update_op_def simp del: upt_rec_numeral split: sum.split)
  show "(queue_step c)\<^sup>*\<^sup>* (f, P) (snd (try_acquire (ser_lease c) (deser_lease c) k h d dir env f), P)"
    unfolding try_acquire_def by (rule upd)
  show "(queue_step c)\<^sup>*\<^sup>* (f, P) (snd (renew (ser_lease c) (deser_lease c) k h d dir env f), P)"
    unfolding renew_def by (rule upd)
  show "(queue_step c)\<^sup>*\<^sup>* (f, P) (snd (lease_release (ser_lease c) (deser_lease c) k h env f), P)"
    using release_loop_steps [OF e surjective_pairing]
    by (auto simp: lease_release_def simp del: upt_rec_numeral split: sum.split)
  show "(queue_step c)\<^sup>*\<^sup>* (f, P)
      (snd (offset_commit (ser_offset c) (deser_offset c) (deser_lease c) k h off env f), P)"
    using offset_loop_steps [OF e surjective_pairing]
    by (auto simp: offset_commit_def simp del: upt_rec_numeral split: sum.split)
qed

section \<open>Witnesses\<close>

definition sample_env :: "nat \<Rightarrow> attempt" where
  "sample_env i = \<lparr>before = id, rd_io = ReadOk, rd2_io = ReadOk, clock = Some 10,
     meanwhile = id, meanwhile2 = id, cs_io = CasOk\<rparr>"

theorem coordination_refines_steps_witness:
  "env_ok sample_codec (sample_env 0) \<and>
   (queue_step sample_codec)\<^sup>*\<^sup>* (Map.empty, [])
     (snd (try_acquire (ser_lease sample_codec) (deser_lease sample_codec) sample_key ''a'' 5 (Inr ()) sample_env Map.empty), [])"
proof -
  have e: "env_ok sample_codec (sample_env i)" for i
    by (simp add: env_ok_def others_def sample_env_def)
  then have "\<forall>i < 8. env_ok sample_codec (sample_env i)"
    by simp
  from e conjunct1 [OF coordination_refines_steps [OF this]] show ?thesis
    by simp
qed

text \<open>The file after \<open>a\<close> has acquired until 15, and a commit of \<open>a\<close> at time 12.\<close>

definition sample_leased :: fs where
  "sample_leased = [key_lease sample_key \<mapsto> lease_bytes ''a'' 15]"

definition sample_committed :: "nat \<Rightarrow> fs" where
  "sample_committed n = sample_leased(key_meta sample_key \<mapsto> lease_bytes ''g'' n)"

lemma enc_lease_bytes: "enc s n \<noteq> None \<Longrightarrow> enc s n = Some (lease_bytes s n)"
  by (auto simp: enc_def lease_bytes_def split: if_splits)

lemma enc_sample: "enc ''a'' n = Some (lease_bytes ''a'' n)" "enc ''g'' n = Some (lease_bytes ''g'' n)"
  by (simp_all add: enc_def lease_bytes_def)

lemmas dec_sample [simp] = enc_sample [THEN dec_enc]

lemma sample_valid: "validate_key sample_key = Inr ()"
  by (simp add: validate_key_def validate_group_def validate_topic_def sample_key_def name_char_def
      is_ascii_alphanumeric_def Let_def)

lemma sample_leased_run: "(queue_step sample_codec)\<^sup>*\<^sup>* (Map.empty, []) (sample_leased, [])"
proof -
  have "lease_decide (ser_lease sample_codec) (deser_lease sample_codec) sample_key ''a'' (LeaseAcquire 5) 10
      (Map.empty (key_lease sample_key)) = Inr (lease_bytes ''a'' 15)"
    using sample_lease [of Map.empty "[]" 0 10 "''a''" 5] by (simp add: enc_sample)
  from lease_attempt_run [OF _ this, of id CasOk "Inr True" sample_leased "[]"] sample_cas_ok [of Map.empty]
  show ?thesis
    by (simp add: others_def sample_leased_def)
qed

lemma sample_commit_steps:
  assumes "f (key_lease sample_key) = Some (lease_bytes ''a'' 15)"
    and "offset_decide (ser_offset sample_codec) (deser_offset sample_codec) ''g'' off (f (key_meta sample_key)) = Inr bs"
  defines "p \<equiv> PubOffset sample_key ''a'' off (lease_bytes ''a'' 15) (f (key_meta sample_key)) bs"
  shows "(queue_step sample_codec)\<^sup>*\<^sup>* (f, []) (f, [p]) \<and>
    queue_step sample_codec (f, [p]) (f(key_meta sample_key \<mapsto> bs), [])"
proof
  let ?o = "OwnOffset sample_key ''a'' off (lease_bytes ''a'' 15)"
  have "owned_bytes (deser_lease sample_codec) sample_key ''a'' ReadOk (Some 12) f =
      Inr (key_lease sample_key, lease_bytes ''a'' 15)"
    by (simp add: owned_bytes_def sample_valid fs_read_def assms(1) sample_codec_def)
  then have "(queue_step sample_codec)\<^sup>*\<^sup>* (f, []) (f, [?o])"
    by (intro r_into_rtranclp observe_owner)
  also have "queue_step sample_codec (f, [?o]) (f, p # remove1 ?o [?o])"
    unfolding p_def by (rule observe_offset) (use assms(2) in \<open>simp_all add: sample_key_def\<close>)
  finally show "(queue_step sample_codec)\<^sup>*\<^sup>* (f, []) (f, [p])"
    by simp
  have "compare_exchange CasOk (key_meta sample_key) (f (key_meta sample_key)) bs
      [(key_lease sample_key, Some (lease_bytes ''a'' 15))] f = (Inr True, f(key_meta sample_key \<mapsto> bs))"
    by (simp add: compare_exchange_def cas_candidate_ok_def lease_path_def meta_path_def sample_key_def LEASE_FILE_def
        META_FILE_def is_coordination_lock_file_def eq_ignore_ascii_case_def ascii_lower_def Let_def
        group_dir_name_def assms(1) [unfolded sample_key_def lease_path_def LEASE_FILE_def group_dir_name_def, simplified])
  then have "queue_step sample_codec (f, [p]) (f(key_meta sample_key \<mapsto> bs), remove1 p [p])"
    unfolding p_def by (rule publish_offset [rotated]) simp
  then show "queue_step sample_codec (f, [p]) (f(key_meta sample_key \<mapsto> bs), [])"
    by simp
qed

lemma sample_offset_decide:
  "offset_decide (ser_offset sample_codec) (deser_offset sample_codec) ''g'' 7 None = Inr (lease_bytes ''g'' 7)"
  "offset_decide (ser_offset sample_codec) (deser_offset sample_codec) ''g'' 3 (Some (lease_bytes ''g'' 7)) =
    Inr (lease_bytes ''g'' 7)"
  by (simp_all add: offset_decide_def offset_decode_def sample_codec_def enc_sample max_def)

lemma sample_committed_run:
  shows "(queue_step sample_codec)\<^sup>*\<^sup>* (Map.empty, [])
      (sample_leased, [PubOffset sample_key ''a'' 7 (lease_bytes ''a'' 15) None (lease_bytes ''g'' 7)]) \<and>
    queue_step sample_codec
      (sample_leased, [PubOffset sample_key ''a'' 7 (lease_bytes ''a'' 15) None (lease_bytes ''g'' 7)])
      (sample_committed 7, [])"
  using sample_leased_run sample_commit_steps [of sample_leased 7 "lease_bytes ''g'' 7"] sample_offset_decide(1)
  by (simp add: sample_leased_def sample_committed_def rtranclp_trans)

theorem offset_fenced_witness:
  "sample_committed 7 (key_meta sample_key) \<noteq> sample_leased (key_meta sample_key) \<and>
   (\<exists>b' m' lb l. sample_committed 7 (key_meta sample_key) = Some b' \<and> deser_offset sample_codec b' = Some m' \<and>
      sample_leased (key_lease sample_key) = Some lb \<and> deser_lease sample_codec lb = Some l \<and>
      holder_id l = ''a'' \<and> committed_offset m' = 7)"
proof -
  have changed: "sample_committed 7 (key_meta sample_key) \<noteq> sample_leased (key_meta sample_key)"
    by (simp add: sample_committed_def sample_leased_def)
  from offset_fenced [OF sample_codec_sound conjunct1 [OF sample_committed_run] conjunct2 [OF sample_committed_run] changed]
    changed
  show ?thesis
    by (auto simp: sample_leased_def)
qed

theorem offset_never_regresses_witness:
  "offset_read (deser_offset sample_codec) sample_key ReadOk (sample_committed 7) = Inr (Some 7) \<and>
   (\<exists>f' v'. (queue_step sample_codec)\<^sup>*\<^sup>* (sample_committed 7, [])
        (f', [PubOffset sample_key ''a'' 3 (lease_bytes ''a'' 15) (Some (lease_bytes ''g'' 7)) (lease_bytes ''g'' 7)]) \<and>
      offset_read (deser_offset sample_codec) sample_key ReadOk f' = Inr (Some v') \<and> 7 \<le> v')"
proof -
  have run: "(queue_step sample_codec)\<^sup>*\<^sup>* (Map.empty, []) (sample_committed 7, [])"
    by (rule rtranclp.rtrancl_into_rtrancl, rule conjunct1 [OF sample_committed_run], rule conjunct2 [OF sample_committed_run])
  have run': "(queue_step sample_codec)\<^sup>*\<^sup>* (sample_committed 7, []) (sample_committed 7,
      [PubOffset sample_key ''a'' 3 (lease_bytes ''a'' 15) (Some (lease_bytes ''g'' 7)) (lease_bytes ''g'' 7)])"
    using sample_commit_steps [of "sample_committed 7" 3 "lease_bytes ''g'' 7"] sample_offset_decide(2)
    by (simp add: sample_committed_def sample_leased_def)
  have read: "offset_read (deser_offset sample_codec) sample_key ReadOk (sample_committed 7) = Inr (Some 7)"
    by (simp add: offset_read_Inr sample_valid sample_committed_def offset_decode_def sample_codec_def)
      (simp add: sample_key_def)
  from offset_never_regresses [OF sample_codec_sound run run' read] read run' show ?thesis
    by (intro conjI exI [of _ "sample_committed 7"]) simp_all
qed

end
