(* ===== verification/Queue_Consumer.thy ===== *)
theory Queue_Consumer
  imports Queue_Client Queue_Fencing
begin

text \<open>
  The consumer (\<^verbatim>\<open>consumer.rs\<close>): it owns partitions through leases, polls their memory buffers from its
  cursors, keeps what it has delivered until it is acknowledged, and commits the contiguous
  acknowledged prefix. The operations of one consumer are serialized by its mutex; files can change
  between their accesses (the \<open>attempt\<close> records). A poll and a nack take the files and the buffers as they
  are when each partition is visited: partitions have files and buffers of their own, so one argument
  stands for all visits. Cancellation of an operation is the step \<open>cancel\<close>. The renewal task of a
  subscription is the operation \<open>renew_tick\<close>, and \<open>shutdown\<close> ends the tasks that still run.
\<close>

section \<open>State\<close>

record pending =
  pd_memo :: memory_entry
  acknowledged :: bool
  retry :: bool

record subscription =
  sb_topic :: string
  sb_partition :: u32
  sb_pending :: "pending list"
  next_read_offset :: u64

text \<open>A renewal task; \<open>rn_result\<close> is what it returned, once it has ended.\<close>

record renewer =
  rn_topic :: string
  rn_partition :: u32
  rn_ttl :: nat
  rn_result :: "(queue_error + unit) option"

record consumer =
  cn_group :: string
  cn_holder :: string
  usable :: bool
  subscriptions :: "subscription list"
  renewers :: "renewer list"

text \<open>What an operation on the files of one partition meets: the ownership check, then the commit loop.\<close>

record access =
  ac_read :: read_io
  ac_clock :: "nat option"
  ac_attempts :: "nat \<Rightarrow> attempt"

definition consumer_new :: "string \<Rightarrow> string \<Rightarrow> consumer" where
  "consumer_new grp holder =
     \<lparr>cn_group = grp, cn_holder = holder, usable = True, subscriptions = [], renewers = []\<rparr>"

definition unusable_error :: queue_error where
  "unusable_error = Persistence ''consumer ownership lost, closed or cancelled; create a new consumer''"

definition check_usable :: "client \<Rightarrow> consumer \<Rightarrow> bool" where
  "check_usable cl c \<longleftrightarrow> usable c \<and> \<not> cl_closed cl"

abbreviation sub_key :: "client \<Rightarrow> consumer \<Rightarrow> subscription \<Rightarrow> queue_key" where
  "sub_key cl c s \<equiv> \<lparr>k_root = cl_root cl, k_topic = sb_topic s, k_partition = sb_partition s, k_group = cn_group c\<rparr>"

text \<open>\<open>validate_owner\<close>: any failure of the ownership check makes the consumer unusable.\<close>

definition validate_owner :: "codec \<Rightarrow> access \<Rightarrow> client \<Rightarrow> fs \<Rightarrow> consumer \<Rightarrow> subscription \<Rightarrow> (queue_error + unit) \<times> bool" where
  "validate_owner cd a cl f c s =
     (if \<not> check_usable cl c then (Inl unusable_error, usable c)
      else case owned_bytes (deser_lease cd) (sub_key cl c s) (cn_holder c) (ac_read a) (ac_clock a) f of
             Inl e \<Rightarrow> (Inl e, False)
           | Inr _ \<Rightarrow> (Inr (), usable c))"

definition cancel :: "consumer \<Rightarrow> consumer" where
  "cancel c = c\<lparr>usable := False\<rparr>"

section \<open>Polling\<close>

definition deliver :: "memory_entry \<Rightarrow> delivery" where
  "deliver e = \<lparr>dl_message_id = me_message_id e, dl_message = me_message e\<rparr>"

fun redeliver :: "nat \<Rightarrow> delivery list \<Rightarrow> pending list \<Rightarrow> (queue_error + delivery list) \<times> pending list" where
  "redeliver mx out [] = (Inr out, [])"
| "redeliver mx out (p # ps) =
     (if \<not> retry p then (let (r, ps') = redeliver mx out ps in (r, p # ps'))
      else if length out = mx then (Inr out, p # ps)
      else let e = pd_memo p
           in case checked_inc (attempt_count (me_message e)) of
                None \<Rightarrow> (Inl (Persistence ''delivery attempt count overflow''), p # ps)
              | Some n \<Rightarrow>
                  (let e' = e\<lparr>me_message := (me_message e)\<lparr>attempt_count := n\<rparr>\<rparr>;
                       (r, ps') = redeliver mx (out @ [deliver e']) ps
                   in (r, p\<lparr>pd_memo := e', retry := False\<rparr> # ps')))"

fun absorb :: "delivery list \<Rightarrow> subscription \<Rightarrow> memory_entry list \<Rightarrow> (queue_error + delivery list) \<times> subscription" where
  "absorb out s [] = (Inr out, s)"
| "absorb out s (e # es) =
     (case checked_inc (me_offset e) of
        None \<Rightarrow> (Inl (Persistence ''delivery offset overflow''), s)
      | Some n \<Rightarrow>
          absorb (out @ [deliver e])
            (s\<lparr>next_read_offset := n,
               sb_pending := sb_pending s @ [\<lparr>pd_memo = e, acknowledged = False, retry = False\<rparr>]\<rparr>) es)"

text \<open>The memory buffer of a subscription, if its topic is loaded and has the partition.\<close>

definition sub_memory :: "client \<Rightarrow> subscription \<Rightarrow> memory option" where
  "sub_memory cl s =
     (case cl_topics cl (sb_topic s) of
        None \<Rightarrow> None
      | Some st \<Rightarrow>
          if unat (sb_partition s) < length (ts_memory st) then Some (ts_memory st ! unat (sb_partition s)) else None)"

definition poll_sub :: "client \<Rightarrow> nat \<Rightarrow> delivery list \<Rightarrow> subscription \<Rightarrow> (queue_error + delivery list) \<times> subscription" where
  "poll_sub cl mx out s =
     (case redeliver mx out (sb_pending s) of
        (Inl e, ps) \<Rightarrow> (Inl e, s\<lparr>sb_pending := ps\<rparr>)
      | (Inr out1, ps) \<Rightarrow>
          (let s1 = s\<lparr>sb_pending := ps\<rparr>
           in case sub_memory cl s of
                None \<Rightarrow> (Inr out1, s1)
              | Some m \<Rightarrow> absorb out1 s1 (read_from (next_read_offset s1) (mx - length out1) m)))"

fun poll_locked ::
  "codec \<Rightarrow> (subscription \<Rightarrow> access) \<Rightarrow> client \<Rightarrow> fs \<Rightarrow> nat \<Rightarrow> consumer \<Rightarrow> delivery list \<Rightarrow> subscription list \<Rightarrow>
   (queue_error + delivery list) \<times> bool \<times> subscription list" where
  "poll_locked cd env cl f mx c out [] = (Inr out, usable c, [])"
| "poll_locked cd env cl f mx c out (s # ss) =
     (if length out = mx then (Inr out, usable c, s # ss)
      else case validate_owner cd (env s) cl f c s of
             (Inl e, u) \<Rightarrow> (Inl e, u, s # ss)
           | (Inr _, u) \<Rightarrow>
               (case poll_sub cl mx out s of
                  (Inl e, s') \<Rightarrow> (Inl e, usable c, s' # ss)
                | (Inr out1, s') \<Rightarrow>
                    (let (r, u, ss') = poll_locked cd env cl f mx c out1 ss in (r, u, s' # ss'))))"

text \<open>One round of \<open>poll\<close>; the source repeats it until something is delivered or the deadline has passed.\<close>

definition poll_once ::
  "codec \<Rightarrow> (subscription \<Rightarrow> access) \<Rightarrow> client \<Rightarrow> fs \<Rightarrow> nat \<Rightarrow> consumer \<Rightarrow> (queue_error + delivery list) \<times> consumer" where
  "poll_once cd env cl f mx c =
     (if \<not> check_usable cl c then (Inl unusable_error, c)
      else let (r, u, ss) = poll_locked cd env cl f mx c [] (subscriptions c)
           in (r, c\<lparr>usable := u, subscriptions := ss\<rparr>))"

section \<open>Acknowledging\<close>

definition targeted :: "message_id list \<Rightarrow> pending \<Rightarrow> bool" where
  "targeted ids p \<longleftrightarrow> me_message_id (pd_memo p) \<in> set ids"

definition acked_prefix :: "message_id list \<Rightarrow> pending list \<Rightarrow> nat" where
  "acked_prefix ids ps = length (takeWhile (\<lambda>p. acknowledged p \<or> targeted ids p) ps)"

definition mark_acked :: "message_id list \<Rightarrow> pending \<Rightarrow> pending" where
  "mark_acked ids p = (if targeted ids p then p\<lparr>acknowledged := True, retry := False\<rparr> else p)"

definition ack_sub ::
  "codec \<Rightarrow> access \<Rightarrow> client \<Rightarrow> message_id list \<Rightarrow> consumer \<Rightarrow> subscription \<Rightarrow> fs \<Rightarrow>
   (queue_error + unit) \<times> bool \<times> subscription \<times> fs" where
  "ack_sub cd a cl ids c s f =
     (if \<not> list_ex (targeted ids) (sb_pending s) then (Inr (), usable c, s, f)
      else case validate_owner cd a cl f c s of
             (Inl e, u) \<Rightarrow> (Inl e, u, s, f)
           | (Inr _, u) \<Rightarrow>
               (let n = acked_prefix ids (sb_pending s);
                    s' = s\<lparr>sb_pending := drop n (map (mark_acked ids) (sb_pending s))\<rparr>
                in if n = 0 then (Inr (), u, s', f)
                   else case offset_commit (ser_offset cd) (deser_offset cd) (deser_lease cd) (sub_key cl c s) (cn_holder c)
                               (me_offset (pd_memo (sb_pending s ! (n - 1)))) (ac_attempts a) f of
                          (Inl e, f1) \<Rightarrow> (Inl e, u, s, f1)
                        | (Inr _, f1) \<Rightarrow> (Inr (), u, s', f1)))"

fun ack_locked ::
  "codec \<Rightarrow> (subscription \<Rightarrow> access) \<Rightarrow> client \<Rightarrow> message_id list \<Rightarrow> consumer \<Rightarrow> subscription list \<Rightarrow> fs \<Rightarrow>
   (queue_error + unit) \<times> bool \<times> subscription list \<times> fs" where
  "ack_locked cd env cl ids c [] f = (Inr (), usable c, [], f)"
| "ack_locked cd env cl ids c (s # ss) f =
     (case ack_sub cd (env s) cl ids c s f of
        (Inl e, u, s', f1) \<Rightarrow> (Inl e, u, s' # ss, f1)
      | (Inr _, u, s', f1) \<Rightarrow>
          (let (r, u', ss', f2) = ack_locked cd env cl ids c ss f1 in (r, u', s' # ss', f2)))"

text \<open>The errors of an acknowledgement after which the consumer is unusable.\<close>

definition lost :: "queue_error + unit \<Rightarrow> bool" where
  "lost r \<longleftrightarrow> (case r of Inl (LeaseConflict _ _ _) \<Rightarrow> True | Inl (PublicationIndeterminate _) \<Rightarrow> True | _ \<Rightarrow> False)"

definition ack ::
  "codec \<Rightarrow> (subscription \<Rightarrow> access) \<Rightarrow> client \<Rightarrow> message_id list \<Rightarrow> consumer \<Rightarrow> fs \<Rightarrow> (queue_error + unit) \<times> consumer \<times> fs" where
  "ack cd env cl ids c f =
     (if \<not> check_usable cl c then (Inl unusable_error, c, f)
      else let (r, u, ss, f1) = ack_locked cd env cl ids c (subscriptions c) f
           in (r, c\<lparr>usable := u \<and> \<not> lost r, subscriptions := ss\<rparr>, f1))"

definition mark_nacked :: "message_id list \<Rightarrow> pending \<Rightarrow> pending" where
  "mark_nacked ids p = (if targeted ids p then p\<lparr>acknowledged := False, retry := True\<rparr> else p)"

fun nack_locked ::
  "codec \<Rightarrow> (subscription \<Rightarrow> access) \<Rightarrow> client \<Rightarrow> fs \<Rightarrow> message_id list \<Rightarrow> consumer \<Rightarrow> subscription list \<Rightarrow>
   (queue_error + unit) \<times> bool \<times> subscription list" where
  "nack_locked cd env cl f ids c [] = (Inr (), usable c, [])"
| "nack_locked cd env cl f ids c (s # ss) =
     (if \<not> list_ex (targeted ids) (sb_pending s)
      then (let (r, u, ss') = nack_locked cd env cl f ids c ss in (r, u, s # ss'))
      else case validate_owner cd (env s) cl f c s of
             (Inl e, u) \<Rightarrow> (Inl e, u, s # ss)
           | (Inr _, u) \<Rightarrow>
               (let (r, u', ss') = nack_locked cd env cl f ids c ss
                in (r, u', s\<lparr>sb_pending := map (mark_nacked ids) (sb_pending s)\<rparr> # ss')))"

definition nack ::
  "codec \<Rightarrow> (subscription \<Rightarrow> access) \<Rightarrow> client \<Rightarrow> fs \<Rightarrow> message_id list \<Rightarrow> consumer \<Rightarrow> (queue_error + unit) \<times> consumer" where
  "nack cd env cl f ids c =
     (if \<not> check_usable cl c then (Inl unusable_error, c)
      else let (r, u, ss) = nack_locked cd env cl f ids c (subscriptions c)
           in (r, c\<lparr>usable := u, subscriptions := ss\<rparr>))"

text \<open>
  \<open>poll\<close>: the rounds before the deadline, each woken by a notification, and the round at which the
  deadline has passed. A round is the client, the files and the accesses it meets.
\<close>

type_synonym poll_round = "client \<times> fs \<times> (subscription \<Rightarrow> access)"

fun poll :: "codec \<Rightarrow> bool \<Rightarrow> nat \<Rightarrow> poll_round list \<Rightarrow> poll_round \<Rightarrow> consumer \<Rightarrow> (queue_error + delivery list) \<times> consumer" where
  "poll cd deadline_overflow mx [] (cl, f, env) c =
     (if deadline_overflow then (Inl (Persistence ''poll deadline overflow''), c)
      else poll_once cd env cl f mx c)"
| "poll cd deadline_overflow mx ((cl, f, env) # rs) fin c =
     (if deadline_overflow then (Inl (Persistence ''poll deadline overflow''), c)
      else case poll_once cd env cl f mx c of
             (Inl e, c1) \<Rightarrow> (Inl e, c1)
           | (Inr out, c1) \<Rightarrow>
               if out \<noteq> [] \<or> mx = 0 then (Inr out, c1)
               else (case subscriptions c1 of
                       [] \<Rightarrow> (Inr out, c1)
                     | s # _ \<Rightarrow>
                         (case sub_memory cl s of
                            None \<Rightarrow> (Inr out, c1)
                          | Some _ \<Rightarrow> poll cd False mx rs fin c1)))"

section \<open>Subscribing\<close>

record sub_env =
  su_access :: access
  su_directory :: "queue_error + unit"
  su_acquire :: "nat \<Rightarrow> attempt"
  su_offset :: read_io
  su_release :: "nat \<Rightarrow> attempt"

text \<open>Opening of the topic, when it is not loaded yet.\<close>

record topic_env =
  te_directory :: "queue_error + unit"
  te_open :: "nat \<Rightarrow> open_env"
  te_others :: "client \<times> fs \<Rightarrow> client \<times> fs"

definition consumer_validate_topic :: "string \<Rightarrow> consumer \<Rightarrow> queue_error + unit" where
  "consumer_validate_topic topic c =
     (if list_ex (\<lambda>s. sb_topic s \<noteq> topic) (subscriptions c)
      then Inl (Persistence ''MessageId has no topic identity; use one topic per consumer'') else Inr ())"

definition next_after :: "queue_error + u64 option \<Rightarrow> queue_error + u64" where
  "next_after r =
     (case r of
        Inl e \<Rightarrow> Inl e
      | Inr None \<Rightarrow> Inr 0
      | Inr (Some v) \<Rightarrow>
          (case checked_inc v of None \<Rightarrow> Inl (Persistence ''consumer offset overflow'') | Some n \<Rightarrow> Inr n))"

definition subscribe_partition ::
  "codec \<Rightarrow> sub_env \<Rightarrow> client \<Rightarrow> string \<Rightarrow> nat \<Rightarrow> u32 \<Rightarrow> consumer \<Rightarrow> fs \<Rightarrow> (queue_error + unit) \<times> consumer \<times> fs" where
  "subscribe_partition cd env cl topic ttl p c f =
     (case find (\<lambda>s. sb_topic s = topic \<and> sb_partition s = p) (subscriptions c) of
        Some s \<Rightarrow> (let (r, u) = validate_owner cd (su_access env) cl f c s in (r, c\<lparr>usable := u\<rparr>, f))
      | None \<Rightarrow>
          (let k = \<lparr>k_root = cl_root cl, k_topic = topic, k_partition = p, k_group = cn_group c\<rparr>
           in case try_acquire (ser_lease cd) (deser_lease cd) k (cn_holder c) ttl (su_directory env) (su_acquire env) f of
                (Inl e, f1) \<Rightarrow> (Inl e, c, f1)
              | (Inr _, f1) \<Rightarrow>
                  (case next_after (offset_read (deser_offset cd) k (su_offset env) f1) of
                     Inl e \<Rightarrow>
                       (Inl e, c, snd (lease_release (ser_lease cd) (deser_lease cd) k (cn_holder c) (su_release env) f1))
                   | Inr n \<Rightarrow>
                       (Inr (),
                        c\<lparr>subscriptions := subscriptions c @
                            [\<lparr>sb_topic = topic, sb_partition = p, sb_pending = [], next_read_offset = n\<rparr>],
                          renewers := renewers c @
                            [\<lparr>rn_topic = topic, rn_partition = p, rn_ttl = ttl, rn_result = None\<rparr>]\<rparr>, f1))))"

fun subscribe_each where
  "subscribe_each cd env cl topic ttl [] c f = (Inr (), c, f)"
| "subscribe_each cd env cl topic ttl (p # ps) c f =
     (case subscribe_partition cd (env p) cl topic ttl p c f of
        (Inl e, c1, f1) \<Rightarrow> (Inl e, c1, f1)
      | (Inr _, c1, f1) \<Rightarrow> subscribe_each cd env cl topic ttl ps c1 f1)"

definition subscribe_locked ::
  "codec \<Rightarrow> topic_env \<Rightarrow> (u32 \<Rightarrow> sub_env) \<Rightarrow> string \<Rightarrow> u32 list \<Rightarrow> consumer \<Rightarrow> client \<Rightarrow> fs \<Rightarrow>
   (queue_error + unit) \<times> consumer \<times> client \<times> fs" where
  "subscribe_locked cd te env topic parts c cl f =
     (case ensure_topic_async topic topic_config_default (te_directory te) (te_open te) (te_others te) cl f of
        (Inl e, cl1, f1) \<Rightarrow> (Inl e, c, cl1, f1)
      | (Inr st, cl1, f1) \<Rightarrow>
          (let ttl = lease_duration (ts_config st)
           in if ttl < 2 then (Inl (Persistence ''consumer lease interval must be positive''), c, cl1, f1)
              else case find (\<lambda>p. length (ts_memory st) \<le> unat p) parts of
                     Some p \<Rightarrow> (Inl (PartitionNotFound topic p), c, cl1, f1)
                   | None \<Rightarrow>
                       (let (r, c1, f2) = subscribe_each cd env cl1 topic ttl parts c f1 in (r, c1, cl1, f2))))"

definition subscribe_all_locked where
  "subscribe_all_locked cd te env topic c cl f =
     (case ensure_topic_async topic topic_config_default (te_directory te) (te_open te) (te_others te) cl f of
        (Inl e, cl1, f1) \<Rightarrow> (Inl e, c, cl1, f1)
      | (Inr st, cl1, f1) \<Rightarrow>
          subscribe_locked cd te env topic (map of_nat [0..<length (ts_memory st)]) c cl1 f1)"

text \<open>The guards of both entry points, and that any failure past them is terminal.\<close>

definition subscribe_guarded where
  "subscribe_guarded body topic c cl f =
     (if \<not> check_usable cl c then (Inl unusable_error, c, cl, f)
      else case validate_group (cn_group c) of
             Inl e \<Rightarrow> (Inl e, c, cl, f)
           | Inr _ \<Rightarrow>
               (case consumer_validate_topic topic c of
                  Inl e \<Rightarrow> (Inl e, c, cl, f)
                | Inr _ \<Rightarrow>
                    (case body c cl f of
                       (Inl e, c1, cl1, f1) \<Rightarrow> (Inl e, c1\<lparr>usable := False\<rparr>, cl1, f1)
                     | (Inr _, c1, cl1, f1) \<Rightarrow> (Inr (), c1, cl1, f1))))"

definition subscribe where
  "subscribe cd te env topic parts = subscribe_guarded (subscribe_locked cd te env topic parts) topic"

definition subscribe_all where
  "subscribe_all cd te env topic = subscribe_guarded (subscribe_all_locked cd te env topic) topic"

section \<open>Renewal and shutdown\<close>

definition renewer_release where
  "renewer_release cd env cl c rn f =
     lease_release (ser_lease cd) (deser_lease cd)
       \<lparr>k_root = cl_root cl, k_topic = rn_topic rn, k_partition = rn_partition rn, k_group = cn_group c\<rparr> (cn_holder c) env f"

text \<open>A renewal task wakes up after half of the lease; after a failed renewal it releases and ends.\<close>

definition renew_tick ::
  "codec \<Rightarrow> sub_env \<Rightarrow> client \<Rightarrow> nat \<Rightarrow> consumer \<Rightarrow> fs \<Rightarrow> consumer \<times> fs" where
  "renew_tick cd env cl i c f =
     (if length (renewers c) \<le> i \<or> rn_result (renewers c ! i) \<noteq> None then (c, f)
      else let rn = renewers c ! i;
               stop = (\<lambda>c f. let (r, f') = renewer_release cd (su_release env) cl c rn f
                             in (c\<lparr>renewers := (renewers c)[i := rn\<lparr>rn_result := Some r\<rparr>]\<rparr>, f'))
           in if \<not> usable c then stop c f
              else case renew (ser_lease cd) (deser_lease cd)
                          \<lparr>k_root = cl_root cl, k_topic = rn_topic rn, k_partition = rn_partition rn, k_group = cn_group c\<rparr>
                          (cn_holder c) (rn_ttl rn) (su_directory env) (su_acquire env) f of
                     (Inl e, f1) \<Rightarrow> stop (c\<lparr>usable := False\<rparr>) f1
                   | (Inr _, f1) \<Rightarrow> (c, f1))"

text \<open>The tasks are awaited from the last one on; the first error met is returned.\<close>

fun join_renewers where
  "join_renewers cd env cl c [] f err = (err, f)"
| "join_renewers cd env cl c (rn # rns) f err =
     (let (r, f1) = (case rn_result rn of Some r \<Rightarrow> (r, f) | None \<Rightarrow> renewer_release cd (env rn) cl c rn f);
          err1 = (case err of Some e \<Rightarrow> Some e | None \<Rightarrow> (case r of Inl e \<Rightarrow> Some e | Inr _ \<Rightarrow> None))
      in join_renewers cd env cl c rns f1 err1)"

definition shutdown ::
  "codec \<Rightarrow> (renewer \<Rightarrow> nat \<Rightarrow> attempt) \<Rightarrow> client \<Rightarrow> consumer \<Rightarrow> fs \<Rightarrow> (queue_error + unit) \<times> consumer \<times> fs" where
  "shutdown cd env cl c f =
     (let (err, f1) = join_renewers cd env cl c (rev (renewers c)) f None
      in (case err of Some e \<Rightarrow> Inl e | None \<Rightarrow> Inr (), c\<lparr>usable := False, renewers := []\<rparr>, f1))"

section \<open>Offset files are left alone\<close>

text \<open>
  \<open>meta_same\<close>: no offset file of the group differs. \<open>quiet\<close>: in an attempt, other processes leave those files
  alone; \<open>Queue_Fencing\<close> shows that only the holder of the lease can change them.
\<close>

definition meta_same :: "path \<Rightarrow> string \<Rightarrow> fs \<Rightarrow> fs \<Rightarrow> bool" where
  "meta_same rt g f f' \<longleftrightarrow> (\<forall>topic p. f' (meta_path rt topic p g) = f (meta_path rt topic p g))"

definition quiet :: "path \<Rightarrow> string \<Rightarrow> attempt \<Rightarrow> bool" where
  "quiet rt g a \<longleftrightarrow>
     (\<forall>f. meta_same rt g f (before a f) \<and> meta_same rt g f (meanwhile a f) \<and> meta_same rt g f (meanwhile2 a f))"

lemma meta_same_refl [simp, intro]: "meta_same rt g f f"
  by (simp add: meta_same_def)

lemma meta_same_trans: "meta_same rt g f f1 \<Longrightarrow> meta_same rt g f1 f2 \<Longrightarrow> meta_same rt g f f2"
  by (simp add: meta_same_def)

lemma meta_path_inject [simp]:
  "meta_path rt t p g = meta_path rt t' p' g \<longleftrightarrow> t = t' \<and> p = p'"
  by (auto simp: meta_path_def word_unat_eq_iff)

lemma lease_path_not_meta [simp]: "lease_path r t p g \<noteq> meta_path r' t' p' g'" "meta_path r' t' p' g' \<noteq> lease_path r t p g"
  by (auto simp: lease_path_def meta_path_def LEASE_FILE_def META_FILE_def)

lemma meta_same_lease [simp]: "meta_same rt g f (f(key_lease k := x))"
  by (simp add: meta_same_def)

lemma quietD:
  "quiet rt g a \<Longrightarrow> meta_same rt g f (before a f)" "quiet rt g a \<Longrightarrow> meta_same rt g f (meanwhile a f)"
  "quiet rt g a \<Longrightarrow> meta_same rt g f (meanwhile2 a f)"
  by (simp_all add: quiet_def)

lemma compare_exchange_lease_same:
  "compare_exchange io (key_lease k) obs bs gs f = (r, f') \<Longrightarrow> meta_same rt g f f'"
  by (drule compare_exchange_cases) auto

lemma update_loop_same:
  "update_loop ser deser k h upd as f = (r, f') \<Longrightarrow> list_all (quiet rt g) as \<Longrightarrow> meta_same rt g f f'"
proof (induction as arbitrary: f)
  case (Cons a as)
  note q = quietD [of rt g a]
  from Cons show ?case
    by (auto simp: Let_def split: sum.split_asm option.split_asm prod.split_asm bool.split_asm
        intro: q meta_same_trans [OF q(1)] meta_same_trans [OF q(2)]
        dest!: compare_exchange_lease_same [of _ _ _ _ _ _ _ _ rt g])
      (meson q meta_same_trans)+
qed simp

lemma release_loop_same:
  "release_loop ser deser k h as f = (r, f') \<Longrightarrow> list_all (quiet rt g) as \<Longrightarrow> meta_same rt g f f'"
proof (induction as arbitrary: f)
  case (Cons a as)
  note q = quietD [of rt g a]
  from Cons show ?case
    by (auto simp: Let_def split: sum.split_asm option.split_asm prod.split_asm bool.split_asm
        intro: q meta_same_trans [OF q(1)] meta_same_trans [OF q(2)]
        dest!: compare_exchange_lease_same [of _ _ _ _ _ _ _ _ rt g])
      (meson q meta_same_trans)+
qed simp

lemma lease_update_op_same:
  "lease_update_op ser deser k h upd dir env f = (r, f') \<Longrightarrow> \<forall>i. quiet rt g (env i) \<Longrightarrow> meta_same rt g f f'"
  by (auto simp: lease_update_op_def list_all_iff split: sum.split_asm if_split_asm intro!: update_loop_same)

lemma lease_release_same:
  "lease_release ser deser k h env f = (r, f') \<Longrightarrow> \<forall>i. quiet rt g (env i) \<Longrightarrow> meta_same rt g f f'"
  by (auto simp: lease_release_def list_all_iff split: sum.split_asm intro!: release_loop_same)

text \<open>A commit changes the offset file of its own partition only, and only as \<open>offset_decide\<close> says.\<close>

definition commit_effect :: "codec \<Rightarrow> string \<Rightarrow> u64 \<Rightarrow> path \<Rightarrow> queue_error + unit \<Rightarrow> fs \<Rightarrow> fs \<Rightarrow> bool" where
  "commit_effect cd g off p r f f' \<longleftrightarrow>
     f' p = f p \<and> r \<noteq> Inr () \<or>
     (case r of Inr _ \<Rightarrow> True | Inl (PublicationIndeterminate _) \<Rightarrow> True | _ \<Rightarrow> False) \<and>
     (\<exists>bs. offset_decide (ser_offset cd) (deser_offset cd) g off (f p) = Inr bs \<and> f' p = Some bs)"

lemma commit_effect_cong: "f1 p = f p \<Longrightarrow> commit_effect cd g off p r f1 f' = commit_effect cd g off p r f f'"
  by (simp add: commit_effect_def)

text \<open>An attempt ends the loop with such an effect, or leaves the offset files alone and the loop goes on.\<close>

lemma offset_loop_attempt:
  assumes "offset_loop (ser_offset cd) (deser_offset cd) deser k h off (a # as) f = (r, f')"
    and "quiet (k_root k) (k_group k) a"
  shows "(\<exists>f4. meta_same (k_root k) (k_group k) f f4 \<and>
      (offset_loop (ser_offset cd) (deser_offset cd) deser k h off as f4 = (r, f') \<or>
       f' = f4 \<and> r \<noteq> Inr () \<or>
       (case r of Inr _ \<Rightarrow> True | Inl (PublicationIndeterminate _) \<Rightarrow> True | _ \<Rightarrow> False) \<and>
       (\<exists>bs. offset_decide (ser_offset cd) (deser_offset cd) (k_group k) off (f (key_meta k)) = Inr bs \<and>
          f' = f4(key_meta k \<mapsto> bs))))"
proof -
  let ?f1 = "before a f"
  let ?f2 = "meanwhile a ?f1"
  let ?f3 = "meanwhile2 a ?f2"
  have same: "meta_same (k_root k) (k_group k) f ?f1" "meta_same (k_root k) (k_group k) f ?f2"
    "meta_same (k_root k) (k_group k) f ?f3"
    using assms(2) by (simp_all add: quiet_def meta_same_def)
  have seen: "observed = f (key_meta k)" if "read_bytes (rd2_io a) (key_meta k) ?f2 = Inr observed" for observed
    using that same(2) by (auto simp: read_bytes_def fs_read_def meta_same_def split: read_io.split_asm option.split_asm)
  have stay: "f4 = ?f3" if "compare_exchange (cs_io a) (key_meta k) obs bs gs ?f3 = (Inr False, f4)" for obs bs gs f4
    using that by (auto simp: compare_exchange_def split: cas_io.split_asm if_split_asm)
  from assms(1) consider e where "r = Inl e" "f' = ?f1" | e where "r = Inl e" "f' = ?f2"
    | lp lb bs cr f4 where "offset_decide (ser_offset cd) (deser_offset cd) (k_group k) off (f (key_meta k)) = Inr bs"
        "compare_exchange (cs_io a) (key_meta k) (f (key_meta k)) bs [(lp, Some lb)] ?f3 = (cr, f4)"
        "(case cr of Inl e \<Rightarrow> r = Inl (PublicationIndeterminate (persistence_text e)) \<and> f' = f4
          | Inr b \<Rightarrow> if b then r = Inr () \<and> f' = f4
              else offset_loop (ser_offset cd) (deser_offset cd) deser k h off as f4 = (r, f'))"
    by (auto simp: Let_def dest: seen split: sum.split_asm prod.split_asm bool.split_asm)
  then show ?thesis
  proof cases
    case 3
    have "cr = Inr False \<Longrightarrow> f4 = ?f3"
      using 3(2) stay by simp
    with compare_exchange_cases [OF 3(2)] 3 same(3) show ?thesis
      by (cases cr) (auto split: if_split_asm)
  qed (use same in auto)
qed

lemma offset_loop_effect:
  assumes "offset_loop (ser_offset cd) (deser_offset cd) deser k h off as f = (r, f')"
    and "list_all (quiet (k_root k) (k_group k)) as"
  shows "commit_effect cd (k_group k) off (key_meta k) r f f' \<and>
    (\<forall>t p. (t, p) \<noteq> (k_topic k, k_partition k) \<longrightarrow>
       f' (meta_path (k_root k) t p (k_group k)) = f (meta_path (k_root k) t p (k_group k)))"
  using assms
proof (induction as arbitrary: f)
  case Nil
  then show ?case by (auto simp: commit_effect_def)
next
  case (Cons a as)
  from Cons.prems(2) have q: "quiet (k_root k) (k_group k) a" "list_all (quiet (k_root k) (k_group k)) as"
    by simp_all
  from offset_loop_attempt [OF Cons.prems(1) q(1)] obtain f4 where
    f4: "\<And>t p. f4 (meta_path (k_root k) t p (k_group k)) = f (meta_path (k_root k) t p (k_group k))" and
    rest: "offset_loop (ser_offset cd) (deser_offset cd) deser k h off as f4 = (r, f') \<or>
       f' = f4 \<and> r \<noteq> Inr () \<or>
       (case r of Inr _ \<Rightarrow> True | Inl (PublicationIndeterminate _) \<Rightarrow> True | _ \<Rightarrow> False) \<and>
       (\<exists>bs. offset_decide (ser_offset cd) (deser_offset cd) (k_group k) off (f (key_meta k)) = Inr bs \<and>
          f' = f4(key_meta k \<mapsto> bs))"
    unfolding meta_same_def by blast
  from rest show ?case
  proof (elim disjE)
    assume "offset_loop (ser_offset cd) (deser_offset cd) deser k h off as f4 = (r, f')"
    from Cons.IH [OF this q(2)] show ?thesis
      by (simp add: f4 commit_effect_def)
  qed (auto simp: f4 commit_effect_def)
qed

lemma offset_commit_effect:
  assumes "offset_commit (ser_offset cd) (deser_offset cd) deser k h off env f = (r, f')"
    and "\<forall>i. quiet (k_root k) (k_group k) (env i)"
  shows "commit_effect cd (k_group k) off (key_meta k) r f f' \<and>
    (\<forall>t p. (t, p) \<noteq> (k_topic k, k_partition k) \<longrightarrow>
       f' (meta_path (k_root k) t p (k_group k)) = f (meta_path (k_root k) t p (k_group k)))"
proof (cases "validate_key k")
  case (Inl e)
  with assms(1) show ?thesis by (auto simp: offset_commit_def commit_effect_def)
next
  case (Inr u)
  with assms show ?thesis
    by (intro offset_loop_effect) (auto simp: offset_commit_def list_all_iff)
qed

section \<open>Trackers\<close>

text \<open>Deliveries in flight are in strictly ascending order of offset, below the read cursor.\<close>

abbreviation pd_offset :: "pending \<Rightarrow> u64" where
  "pd_offset p \<equiv> me_offset (pd_memo p)"

definition tracker_ok :: "subscription \<Rightarrow> bool" where
  "tracker_ok s \<longleftrightarrow> sorted_wrt (<) (map pd_offset (sb_pending s)) \<and> (\<forall>p \<in> set (sb_pending s). pd_offset p < next_read_offset s)"

text \<open>Nothing in flight, and nothing still to be read, is at or below the offset \<open>v\<close>.\<close>

definition behind :: "u64 \<Rightarrow> subscription \<Rightarrow> bool" where
  "behind v s \<longleftrightarrow> v < next_read_offset s \<and> (\<forall>p \<in> set (sb_pending s). v < pd_offset p)"

definition client_ok :: "client \<Rightarrow> bool" where
  "client_ok cl \<longleftrightarrow> (\<forall>topic st. cl_topics cl topic = Some st \<longrightarrow> list_all mem_ok (ts_memory st))"

lemma sub_memory_ok: "client_ok cl \<Longrightarrow> sub_memory cl s = Some m \<Longrightarrow> mem_ok m"
  by (auto simp: client_ok_def sub_memory_def list_all_length split: option.splits if_splits)

lemma redeliver_offsets: "redeliver mx out ps = (r, ps') \<Longrightarrow> map pd_offset ps' = map pd_offset ps"
  by (induction ps arbitrary: out r ps') (auto simp: Let_def split: if_splits option.splits prod.splits)

lemma tracker_ok_offsets:
  "tracker_ok s \<longleftrightarrow> sorted_wrt (<) (map pd_offset (sb_pending s)) \<and>
     (\<forall>x \<in> set (map pd_offset (sb_pending s)). x < next_read_offset s)"
  by (simp add: tracker_ok_def)

lemma behind_offsets:
  "behind v s \<longleftrightarrow> v < next_read_offset s \<and> (\<forall>x \<in> set (map pd_offset (sb_pending s)). v < x)"
  by (simp add: behind_def)

lemma tracker_cong:
  assumes "map pd_offset ps' = map pd_offset (sb_pending s)"
  shows "tracker_ok (s\<lparr>sb_pending := ps'\<rparr>) = tracker_ok s" and "behind v (s\<lparr>sb_pending := ps'\<rparr>) = behind v s"
proof -
  have sel: "sb_pending (s\<lparr>sb_pending := ps'\<rparr>) = ps'" "next_read_offset (s\<lparr>sb_pending := ps'\<rparr>) = next_read_offset s"
    by simp_all
  show "tracker_ok (s\<lparr>sb_pending := ps'\<rparr>) = tracker_ok s" "behind v (s\<lparr>sb_pending := ps'\<rparr>) = behind v s"
    unfolding tracker_ok_offsets behind_offsets sel assms by (rule refl)+
qed

lemma absorb_ok:
  assumes "absorb out s es = (r, s')" and "tracker_ok s"
    and "sorted_wrt (<) (map me_offset es)" and "\<forall>e \<in> set es. next_read_offset s \<le> me_offset e"
  shows "tracker_ok s' \<and> (\<forall>v. behind v s \<longrightarrow> behind v s') \<and> sb_topic s' = sb_topic s \<and> sb_partition s' = sb_partition s"
  using assms
proof (induction es arbitrary: out s)
  case (Cons e es)
  show ?case
  proof (cases "checked_inc (me_offset e)")
    case None
    with Cons.prems show ?thesis by simp
  next
    case (Some n)
    let ?s = "s\<lparr>next_read_offset := n, sb_pending := sb_pending s @ [\<lparr>pd_memo = e, acknowledged = False, retry = False\<rparr>]\<rparr>"
    have n: "me_offset e < n" "\<And>x. me_offset e < x \<Longrightarrow> n \<le> x"
      using Some by (auto simp: checked_inc_Some word_less_nat_alt word_le_nat_alt word_facts)
    have le: "next_read_offset s \<le> me_offset e"
      using Cons.prems(4) by simp
    have "tracker_ok ?s"
      using Cons.prems(2) n(1) le by (fastforce simp: tracker_ok_def sorted_wrt_append)
    moreover have "behind v s \<Longrightarrow> behind v ?s" for v
      using n(1) le by (fastforce simp: behind_def)
    moreover have "absorb (out @ [deliver e]) ?s es = (r, s')"
      using Cons.prems(1) Some by simp
    ultimately show ?thesis
      using Cons.IH [of "out @ [deliver e]" ?s] Cons.prems(3) n(2) by auto
  qed
qed simp

lemma poll_sub_ok:
  assumes "poll_sub cl mx out s = (r, s')" and "client_ok cl" and "tracker_ok s"
  shows "tracker_ok s' \<and> (\<forall>v. behind v s \<longrightarrow> behind v s') \<and> sb_topic s' = sb_topic s \<and> sb_partition s' = sb_partition s"
proof -
  obtain r1 ps where rd: "redeliver mx out (sb_pending s) = (r1, ps)"
    by fastforce
  note same = tracker_cong [OF redeliver_offsets [OF rd]]
  show ?thesis
  proof (cases "\<exists>out1 m. r1 = Inr out1 \<and> sub_memory cl s = Some m")
    case False
    with assms(1,3) rd same show ?thesis
      by (auto simp: poll_sub_def Let_def split: sum.split_asm option.split_asm)
  next
    case True
    then obtain out1 m where m: "r1 = Inr out1" "sub_memory cl s = Some m"
      by blast
    note ok = sub_memory_ok [OF assms(2) m(2)]
    have "absorb out1 (s\<lparr>sb_pending := ps\<rparr>) (read_from (next_read_offset s) (mx - length out1) m) = (r, s')"
      using assms(1) rd m by (simp add: poll_sub_def Let_def)
    from absorb_ok [OF this] same assms(3) mem_log.read_ascending [OF ok] mem_log.read_retained [OF ok] show ?thesis
      by simp
  qed
qed

section \<open>Committed progress\<close>

definition committed_at :: "codec \<Rightarrow> path \<Rightarrow> string \<Rightarrow> string \<times> u32 \<Rightarrow> fs \<Rightarrow> u64 \<Rightarrow> bool" where
  "committed_at cd rt g k f v \<longleftrightarrow>
     (\<exists>b. f (meta_path rt (fst k) (snd k) g) = Some b \<and> offset_decode (deser_offset cd) g b = Inr v)"

abbreviation sb_key :: "subscription \<Rightarrow> string \<times> u32" where
  "sb_key s \<equiv> (sb_topic s, sb_partition s)"

text \<open>A subscription is tracked when the committed offset is behind everything it has in flight.\<close>

definition tracked :: "codec \<Rightarrow> path \<Rightarrow> string \<Rightarrow> fs \<Rightarrow> subscription \<Rightarrow> bool" where
  "tracked cd rt g f s \<longleftrightarrow> tracker_ok s \<and> (\<forall>v. committed_at cd rt g (sb_key s) f v \<longrightarrow> behind v s)"

lemma tracked_cong:
  "f' (meta_path rt (sb_topic s) (sb_partition s) g) = f (meta_path rt (sb_topic s) (sb_partition s) g) \<Longrightarrow>
   tracked cd rt g f' s = tracked cd rt g f s"
  by (simp add: tracked_def committed_at_def)

lemma tracked_same: "meta_same rt g f f' \<Longrightarrow> tracked cd rt g f' s = tracked cd rt g f s"
  by (rule tracked_cong) (simp add: meta_same_def)

lemma offset_decode_ser:
  "codec_sound cd \<Longrightarrow> ser_offset cd \<lparr>om_group = g, committed_offset = v\<rparr> = Some bs \<Longrightarrow>
   offset_decode (deser_offset cd) g bs = Inr v"
  by (simp add: codec_sound_def offset_decode_def)

text \<open>An acknowledged prefix, once committed, is behind what remains.\<close>

lemma acked_prefix_le: "acked_prefix ids ps \<le> length ps"
  by (simp add: acked_prefix_def length_takeWhile_le)

lemma mark_acked_offset [simp]: "pd_offset (mark_acked ids p) = pd_offset p"
  by (simp add: mark_acked_def)

lemma mark_nacked_offset [simp]: "pd_offset (mark_nacked ids p) = pd_offset p"
  by (simp add: mark_nacked_def)

lemma drop_behind:
  assumes "tracker_ok s" and "0 < n" and "n \<le> length (sb_pending s)"
  shows "behind (pd_offset (sb_pending s ! (n - 1))) (s\<lparr>sb_pending := drop n (map (mark_acked ids) (sb_pending s))\<rparr>)"
proof -
  have lt: "i < j \<Longrightarrow> j < length (sb_pending s) \<Longrightarrow> pd_offset (sb_pending s ! i) < pd_offset (sb_pending s ! j)" for i j
    using assms(1) by (auto simp: tracker_ok_def sorted_wrt_iff_nth_less)
  have "pd_offset (sb_pending s ! (n - 1)) < next_read_offset s"
    using assms by (auto simp: tracker_ok_def)
  with lt assms(2,3) show ?thesis
    by (auto simp: behind_def in_set_conv_nth)
qed

lemma drop_tracker:
  "tracker_ok s \<Longrightarrow> tracker_ok (s\<lparr>sb_pending := drop n (map (mark_acked ids) (sb_pending s))\<rparr>)"
  by (auto simp: tracker_ok_def drop_map [symmetric] comp_def sorted_wrt_drop dest!: in_set_dropD)

lemma drop_behind_same:
  "behind v s \<Longrightarrow> behind v (s\<lparr>sb_pending := drop n (map (mark_acked ids) (sb_pending s))\<rparr>)"
  by (auto simp: behind_def dest!: in_set_dropD)

text \<open>After a commit, whatever its outcome, the committed offset is an earlier one or that of the prefix.\<close>

lemma commit_value:
  assumes "codec_sound cd" and "tracked cd rt g f s" and "0 < n" and "n \<le> length (sb_pending s)"
    and "commit_effect cd g (pd_offset (sb_pending s ! (n - 1))) (meta_path rt (sb_topic s) (sb_partition s) g) r f f'"
    and "committed_at cd rt g (sb_key s) f' v"
  shows "committed_at cd rt g (sb_key s) f v \<or> v = pd_offset (sb_pending s ! (n - 1))"
proof -
  let ?p = "meta_path rt (sb_topic s) (sb_partition s) g"
  let ?off = "pd_offset (sb_pending s ! (n - 1))"
  from assms(5) consider "f' ?p = f ?p"
    | bs where "offset_decide (ser_offset cd) (deser_offset cd) g ?off (f ?p) = Inr bs" "f' ?p = Some bs"
    unfolding commit_effect_def by blast
  then show ?thesis
  proof cases
    case 1
    with assms(6) show ?thesis by (simp add: committed_at_def)
  next
    case (2 bs)
    from assms(6) 2(2) have v: "offset_decode (deser_offset cd) g bs = Inr v"
      by (simp add: committed_at_def)
    show ?thesis
    proof (cases "f ?p")
      case None
      with offset_decide_Inr [OF 2(1)] offset_decode_ser [OF assms(1), of g ?off bs] v show ?thesis by simp
    next
      case (Some b)
      with offset_decide_Inr [OF 2(1)] obtain w where w: "offset_decode (deser_offset cd) g b = Inr w"
        "ser_offset cd \<lparr>om_group = g, committed_offset = max w ?off\<rparr> = Some bs" by auto
      then have "v = max w ?off"
        using offset_decode_ser [OF assms(1) w(2)] v by simp
      with Some w(1) show ?thesis by (simp add: committed_at_def max_def split: if_split_asm)
    qed
  qed
qed

lemma commit_tracked:
  assumes "codec_sound cd" and "tracked cd rt g f s" and "0 < n" and "n \<le> length (sb_pending s)"
    and "commit_effect cd g (pd_offset (sb_pending s ! (n - 1))) (meta_path rt (sb_topic s) (sb_partition s) g) r f f'"
  shows "tracked cd rt g f' (s\<lparr>sb_pending := drop n (map (mark_acked ids) (sb_pending s))\<rparr>)"
    and "r = Inl e \<Longrightarrow> \<forall>t. e \<noteq> PublicationIndeterminate t \<Longrightarrow> tracked cd rt g f' s"
proof -
  let ?p = "meta_path rt (sb_topic s) (sb_partition s) g"
  let ?s = "s\<lparr>sb_pending := drop n (map (mark_acked ids) (sb_pending s))\<rparr>"
  have ok: "tracker_ok s" and old: "committed_at cd rt g (sb_key s) f v \<Longrightarrow> behind v s" for v
    using assms(2) unfolding tracked_def by blast+
  have "behind v ?s" if "committed_at cd rt g (sb_key s) f' v" for v
    using commit_value [OF assms that] drop_behind [OF ok assms(3,4)] drop_behind_same old by blast
  then show "tracked cd rt g f' ?s"
    using drop_tracker [OF ok] by (simp add: tracked_def)
  show "tracked cd rt g f' s" if "r = Inl e" "\<forall>t. e \<noteq> PublicationIndeterminate t"
  proof -
    have "f' ?p = f ?p"
      using assms(5) that by (cases e) (simp_all add: commit_effect_def)
    with tracked_cong [of f' rt s g f cd] assms(2) show ?thesis
      by simp
  qed
qed

text \<open>What is neither acknowledged nor targeted is not part of the prefix.\<close>

lemma unacked_kept:
  assumes "p \<in> set ps" and "\<not> acknowledged p" and "\<not> targeted ids p"
  shows "p \<in> set (drop (acked_prefix ids ps) (map (mark_acked ids) ps))"
proof -
  let ?Q = "\<lambda>p. acknowledged p \<or> targeted ids p"
  have "p \<in> set (takeWhile ?Q ps) \<or> p \<in> set (dropWhile ?Q ps)"
    using assms(1) takeWhile_dropWhile_id [of ?Q ps] by (metis Un_iff set_append)
  then have "p \<in> set (dropWhile ?Q ps)"
    using assms(2,3) by (auto dest: set_takeWhileD)
  then have "p \<in> set (drop (acked_prefix ids ps) ps)"
    by (simp add: acked_prefix_def dropWhile_eq_drop)
  moreover have "mark_acked ids p = p"
    using assms(3) by (simp add: mark_acked_def)
  ultimately show ?thesis
    by (simp add: drop_map) (metis image_eqI)
qed

section \<open>The operations keep consumers tracked\<close>

text \<open>Only the offset files of the partitions \<open>K\<close> may differ.\<close>

definition meta_but :: "path \<Rightarrow> string \<Rightarrow> (string \<times> u32) set \<Rightarrow> fs \<Rightarrow> fs \<Rightarrow> bool" where
  "meta_but rt g K f f' \<longleftrightarrow> (\<forall>t p. (t, p) \<notin> K \<longrightarrow> f' (meta_path rt t p g) = f (meta_path rt t p g))"

lemma meta_but_tracked:
  "meta_but rt g K f f' \<Longrightarrow> sb_key s \<notin> K \<Longrightarrow> tracked cd rt g f' s = tracked cd rt g f s"
  by (rule tracked_cong) (simp add: meta_but_def)

lemma meta_but_trans:
  "meta_but rt g K f f1 \<Longrightarrow> meta_but rt g L f1 f2 \<Longrightarrow> meta_but rt g (K \<union> L) f f2"
  by (simp add: meta_but_def)

definition subs_ok :: "codec \<Rightarrow> path \<Rightarrow> string \<Rightarrow> fs \<Rightarrow> subscription list \<Rightarrow> bool" where
  "subs_ok cd rt g f ss \<longleftrightarrow> distinct (map sb_key ss) \<and> list_all (tracked cd rt g f) ss"

lemma validate_owner_usable: "validate_owner cd a cl f c s = (r, u) \<Longrightarrow> u \<Longrightarrow> usable c"
  by (auto simp: validate_owner_def check_usable_def split: if_splits sum.splits)

lemma poll_locked_ok:
  assumes "poll_locked cd env cl f mx c out ss = (r, u, ss')" and "client_ok cl"
    and "list_all (tracked cd rt g f) ss"
  shows "list_all (tracked cd rt g f) ss' \<and> map sb_key ss' = map sb_key ss \<and> (u \<longrightarrow> usable c)"
  using assms(1,3)
proof (induction ss arbitrary: out ss' r u)
  case (Cons s ss)
  obtain r1 s1 where p: "poll_sub cl mx out s = (r1, s1)"
    by fastforce
  have "tracker_ok s"
    using Cons.prems(2) by (simp add: tracked_def)
  from poll_sub_ok [OF p assms(2) this] have s1: "tracked cd rt g f s1" "sb_key s1 = sb_key s"
    using Cons.prems(2) by (simp_all add: tracked_def committed_at_def)
  show ?case
    using Cons.prems p s1 Cons.IH validate_owner_usable
    by (fastforce split: if_splits prod.splits sum.splits)
qed simp

lemma mark_nacked_tracked: "tracked cd rt g f (s\<lparr>sb_pending := map (mark_nacked ids) (sb_pending s)\<rparr>) = tracked cd rt g f s"
  using tracker_cong [of "map (mark_nacked ids) (sb_pending s)" s] by (simp add: tracked_def comp_def)

lemma nack_locked_ok:
  assumes "nack_locked cd env cl f ids c ss = (r, u, ss')" and "list_all (tracked cd rt g f) ss"
  shows "list_all (tracked cd rt g f) ss' \<and> map sb_key ss' = map sb_key ss \<and> (u \<longrightarrow> usable c)"
  using assms
proof (induction ss arbitrary: ss' r u)
  case (Cons s ss)
  then show ?case
    using validate_owner_usable by (fastforce simp: mark_nacked_tracked Let_def split: if_splits prod.splits sum.splits)
qed simp

lemma ack_sub_ok:
  assumes "ack_sub cd a cl ids c s f = (r, u, s', f')" and "codec_sound cd"
    and "\<forall>i. quiet (cl_root cl) (cn_group c) (ac_attempts a i)" and "tracked cd (cl_root cl) (cn_group c) f s"
  shows "(\<not> lost r \<longrightarrow> tracked cd (cl_root cl) (cn_group c) f' s') \<and> sb_key s' = sb_key s \<and> (u \<longrightarrow> usable c) \<and>
    meta_but (cl_root cl) (cn_group c) {sb_key s} f f'"
proof (cases "list_ex (targeted ids) (sb_pending s) \<and> (\<exists>v. fst (validate_owner cd a cl f c s) = Inr v) \<and>
    0 < acked_prefix ids (sb_pending s)")
  case False
  have "tracked cd (cl_root cl) (cn_group c) f (s\<lparr>sb_pending := map (mark_acked ids) (sb_pending s)\<rparr>)"
    using assms(4) drop_tracker [of s 0 ids] drop_behind_same [of _ s 0 ids] by (simp add: tracked_def)
  with False assms(1,4) validate_owner_usable [of cd a cl f c s] show ?thesis
    by (auto simp: ack_sub_def Let_def meta_but_def split: if_splits prod.splits sum.splits)
next
  case True
  then obtain v uo where v: "validate_owner cd a cl f c s = (Inr v, uo)"
    by (metis prod.collapse)
  let ?n = "acked_prefix ids (sb_pending s)"
  obtain cr f1 where cm: "offset_commit (ser_offset cd) (deser_offset cd) (deser_lease cd) (sub_key cl c s) (cn_holder c)
      (pd_offset (sb_pending s ! (?n - 1))) (ac_attempts a) f = (cr, f1)"
    by fastforce
  have out: "r = (case cr of Inl e \<Rightarrow> Inl e | Inr _ \<Rightarrow> Inr ())" "u = uo" "f' = f1"
    "s' = (case cr of Inl e \<Rightarrow> s | Inr _ \<Rightarrow> s\<lparr>sb_pending := drop ?n (map (mark_acked ids) (sb_pending s))\<rparr>)"
    using assms(1) True v cm by (auto simp: ack_sub_def Let_def split: sum.splits)
  have eff: "commit_effect cd (cn_group c) (pd_offset (sb_pending s ! (?n - 1)))
      (meta_path (cl_root cl) (sb_topic s) (sb_partition s) (cn_group c)) cr f f1"
    and rest: "meta_but (cl_root cl) (cn_group c) {sb_key s} f f1"
    using offset_commit_effect [OF cm] assms(3) by (simp_all add: meta_but_def)
  have n: "0 < ?n" "?n \<le> length (sb_pending s)"
    using True acked_prefix_le by simp_all
  note tr = commit_tracked [OF assms(2,4) n eff]
  have "\<not> lost r \<longrightarrow> tracked cd (cl_root cl) (cn_group c) f' s'"
  proof (cases cr)
    case (Inl e)
    then show ?thesis
      using out tr(2) [of e] by (cases e) (simp_all add: lost_def)
  next
    case (Inr x)
    then show ?thesis
      using out tr(1) [of ids] by simp
  qed
  moreover have "sb_key s' = sb_key s"
    using out by (simp split: sum.splits)
  ultimately show ?thesis
    using rest out validate_owner_usable [OF v] by simp
qed

text \<open>The first subscription of a list, and that the others are not affected.\<close>

lemma ack_first:
  assumes "ack_sub cd a cl ids c x f = (r1, u1, x1, f1)" and "codec_sound cd"
    and "\<forall>i. quiet (cl_root cl) (cn_group c) (ac_attempts a i)"
    and "subs_ok cd (cl_root cl) (cn_group c) f (x # ss)"
  shows "tracked cd (cl_root cl) (cn_group c) f x" "sb_key x \<notin> sb_key ` set ss"
    "\<not> lost r1 \<longrightarrow> tracked cd (cl_root cl) (cn_group c) f1 x1" "sb_key x1 = sb_key x" "u1 \<longrightarrow> usable c"
    "meta_but (cl_root cl) (cn_group c) {sb_key x} f f1" "subs_ok cd (cl_root cl) (cn_group c) f1 ss"
proof -
  show x: "tracked cd (cl_root cl) (cn_group c) f x" "sb_key x \<notin> sb_key ` set ss"
    using assms(4) by (simp_all add: subs_ok_def)
  from ack_sub_ok [OF assms(1-3) x(1)] show "\<not> lost r1 \<longrightarrow> tracked cd (cl_root cl) (cn_group c) f1 x1"
    "sb_key x1 = sb_key x" "u1 \<longrightarrow> usable c" and frame: "meta_but (cl_root cl) (cn_group c) {sb_key x} f f1"
    by blast+
  have "y \<in> set ss \<Longrightarrow> sb_key y \<notin> {sb_key x}" for y
    using x(2) by (simp add: image_iff) metis
  then show "subs_ok cd (cl_root cl) (cn_group c) f1 ss"
    using assms(4) meta_but_tracked [OF frame] by (simp add: subs_ok_def list_all_iff)
qed

lemma ack_locked_cases:
  assumes "ack_locked cd env cl ids c (x # ss) f = (r, u, ss', f')"
  obtains x1 e where "ack_sub cd (env x) cl ids c x f = (Inl e, u, x1, f')" "r = Inl e" "ss' = x1 # ss"
  | u1 x1 f1 ss2 where "ack_sub cd (env x) cl ids c x f = (Inr (), u1, x1, f1)"
      "ack_locked cd env cl ids c ss f1 = (r, u, ss2, f')" "ss' = x1 # ss2"
  using assms by (auto split: sum.split_asm prod.split_asm)

lemma ack_locked_ok:
  assumes "ack_locked cd env cl ids c ss f = (r, u, ss', f')" and "codec_sound cd"
    and "\<forall>s i. quiet (cl_root cl) (cn_group c) (ac_attempts (env s) i)"
    and "subs_ok cd (cl_root cl) (cn_group c) f ss"
  shows "(\<not> lost r \<longrightarrow> list_all (tracked cd (cl_root cl) (cn_group c) f') ss') \<and> map sb_key ss' = map sb_key ss \<and>
    (u \<longrightarrow> usable c) \<and> meta_but (cl_root cl) (cn_group c) (sb_key ` set ss) f f'"
  using assms(1,4)
proof (induction ss arbitrary: f ss' r u f')
  case Nil
  then show ?case by (simp add: meta_but_def)
next
  case (Cons s ss)
  have q: "\<forall>i. quiet (cl_root cl) (cn_group c) (ac_attempts (env s) i)"
    using assms(3) by blast
  from Cons.prems(1) show ?case
  proof (cases rule: ack_locked_cases)
    case (1 s1 e)
    from ack_first [OF 1(1) assms(2) q Cons.prems(2)] 1(2,3) show ?thesis
      by (auto simp: subs_ok_def meta_but_def)
  next
    case (2 u1 s1 f1 ss2)
    note one = ack_first [OF 2(1) assms(2) q Cons.prems(2)]
    note two = Cons.IH [OF 2(2) one(7)]
    then have tail: "meta_but (cl_root cl) (cn_group c) (sb_key ` set ss) f1 f'"
      by blast
    have "tracked cd (cl_root cl) (cn_group c) f' s1 = tracked cd (cl_root cl) (cn_group c) f1 s1"
      by (rule meta_but_tracked [OF tail]) (use one(2,4) in simp)
    moreover have "meta_but (cl_root cl) (cn_group c) ({sb_key s} \<union> sb_key ` set ss) f f'"
      by (rule meta_but_trans [OF one(6) tail])
    ultimately show ?thesis
      using two 2(3) one by (simp add: lost_def)
  qed
qed

text \<open>An acknowledgement keeps what it does not target, and commits no offset past it, whatever its outcome.\<close>

lemma ack_sub_keeps:
  assumes "ack_sub cd a cl ids c s f = (r, u, s', f')" and "codec_sound cd"
    and "\<forall>i. quiet (cl_root cl) (cn_group c) (ac_attempts a i)" and "tracked cd (cl_root cl) (cn_group c) f s"
    and "p \<in> set (sb_pending s)" and "\<not> acknowledged p" and "\<not> targeted ids p"
  shows "p \<in> set (sb_pending s') \<and> (\<forall>v. committed_at cd (cl_root cl) (cn_group c) (sb_key s) f' v \<longrightarrow> v < pd_offset p)"
proof -
  let ?n = "acked_prefix ids (sb_pending s)"
  let ?s = "s\<lparr>sb_pending := drop ?n (map (mark_acked ids) (sb_pending s))\<rparr>"
  obtain cr f1 where cm: "offset_commit (ser_offset cd) (deser_offset cd) (deser_lease cd) (sub_key cl c s) (cn_holder c)
      (pd_offset (sb_pending s ! (?n - 1))) (ac_attempts a) f = (cr, f1)"
    by fastforce
  note kept = unacked_kept [OF assms(5-7)]
  have "s' = s \<or> s' = ?s" "f' = f \<or> 0 < ?n \<and> f' = f1"
    using assms(1) cm by (auto simp: ack_sub_def Let_def split: if_split_asm prod.split_asm sum.split_asm)
  moreover have "v < pd_offset p" if "committed_at cd (cl_root cl) (cn_group c) (sb_key s) f v" for v
    using assms(4,5) that by (auto simp: tracked_def behind_def)
  moreover have "v < pd_offset p" if n: "0 < ?n" and v: "committed_at cd (cl_root cl) (cn_group c) (sb_key s) f1 v" for v
  proof -
    have eff: "commit_effect cd (cn_group c) (pd_offset (sb_pending s ! (?n - 1)))
        (meta_path (cl_root cl) (sb_topic s) (sb_partition s) (cn_group c)) cr f f1"
      using offset_commit_effect [OF cm] assms(3) by simp
    from commit_tracked(1) [OF assms(2,4) n acked_prefix_le eff, of ids] v have "behind v ?s"
      by (simp add: tracked_def)
    with kept show ?thesis by (simp add: behind_def)
  qed
  ultimately show ?thesis
    using kept assms(5) by auto
qed

lemma meta_but_committed:
  "meta_but rt g K f f' \<Longrightarrow> k \<notin> K \<Longrightarrow> committed_at cd rt g k f' v = committed_at cd rt g k f v"
  by (cases k) (simp add: meta_but_def committed_at_def)

lemma ack_locked_keeps:
  assumes "ack_locked cd env cl ids c ss f = (r, u, ss', f')" and "codec_sound cd"
    and "\<forall>s i. quiet (cl_root cl) (cn_group c) (ac_attempts (env s) i)"
    and "subs_ok cd (cl_root cl) (cn_group c) f ss"
    and "s \<in> set ss" and "p \<in> set (sb_pending s)" and "\<not> acknowledged p" and "\<not> targeted ids p"
  shows "\<exists>s' \<in> set ss'. sb_key s' = sb_key s \<and> p \<in> set (sb_pending s') \<and>
    (\<forall>v. committed_at cd (cl_root cl) (cn_group c) (sb_key s) f' v \<longrightarrow> v < pd_offset p)"
  using assms(1,4,5)
proof (induction ss arbitrary: f ss' r u f')
  case (Cons x ss)
  have q: "\<forall>i. quiet (cl_root cl) (cn_group c) (ac_attempts (env x) i)"
    using assms(3) by blast
  from Cons.prems(1) show ?case
  proof (cases rule: ack_locked_cases)
    case (1 x1 e)
    note one = ack_first [OF 1(1) assms(2) q Cons.prems(2)]
    have "v < pd_offset p" if "s \<in> set ss" "committed_at cd (cl_root cl) (cn_group c) (sb_key s) f' v" for v
      using one(7) that assms(6) by (auto simp: subs_ok_def list_all_iff tracked_def behind_def)
    with 1 one(4) ack_sub_keeps [OF 1(1) assms(2) q one(1) _ assms(7,8)] Cons.prems(3) assms(6) show ?thesis
      by auto
  next
    case (2 u1 x1 f1 ss2)
    note one = ack_first [OF 2(1) assms(2) q Cons.prems(2)]
    from ack_locked_ok [OF 2(2) assms(2,3) one(7)]
    have "meta_but (cl_root cl) (cn_group c) (sb_key ` set ss) f1 f'"
      by blast
    note same = meta_but_committed [OF this one(2)]
    show ?thesis
    proof (cases "s = x")
      case True
      with same 2(3) one(4) ack_sub_keeps [OF 2(1) assms(2) q one(1) _ assms(7,8)] assms(6) show ?thesis
        by simp
    next
      case False
      with Cons.IH [OF 2(2) one(7)] Cons.prems(3) 2(3) show ?thesis by simp
    qed
  qed
qed simp

lemma subs_ok_list_all: "subs_ok cd rt g f ss \<Longrightarrow> list_all (tracked cd rt g f') ss' \<Longrightarrow> map sb_key ss' = map sb_key ss \<Longrightarrow> subs_ok cd rt g f' ss'"
  by (simp add: subs_ok_def)

lemma subs_ok_same: "meta_same rt g f f' \<Longrightarrow> subs_ok cd rt g f' ss = subs_ok cd rt g f ss"
  by (simp add: subs_ok_def list_all_iff tracked_same [of rt g f f'])

lemma segment_not_meta [simp]: "segment_path (partition_dir rt t p) i \<noteq> meta_path rt t' p' g"
  by (simp add: segment_path_def partition_dir_def meta_path_def)

lemma meta_same_segment [simp]: "meta_same rt g f (f(segment_path (partition_dir rt t p) i := x))"
  by (simp add: meta_same_def segment_not_meta [symmetric] del: segment_not_meta)

lemma writer_open_same: "writer_open t p rt cfg mk ls io f = (r, f') \<Longrightarrow> meta_same rt g f f'"
  by (cases io) (auto simp: writer_open_def Let_def split: sum.split_asm option.split_asm)

lemma open_writers_same: "open_writers t rt cfg env ps f = (r, f') \<Longrightarrow> meta_same rt g f f'"
proof (induction ps arbitrary: f r f')
  case (Cons p ps)
  then show ?case
    by (auto split: prod.split_asm sum.split_asm dest!: writer_open_same [where g = g] intro: meta_same_trans) 
qed simp

definition quiet_topic :: "path \<Rightarrow> string \<Rightarrow> topic_env \<Rightarrow> bool" where
  "quiet_topic rt g te \<longleftrightarrow>
     (\<forall>cl f. cl_root (fst (te_others te (cl, f))) = cl_root cl \<and> meta_same rt g f (snd (te_others te (cl, f))))"

lemma ensure_topic_same:
  assumes "ensure_topic_async t cfg dir env (te_others te) cl f = (r, cl', f')" and "quiet_topic (cl_root cl) g te"
  shows "meta_same (cl_root cl) g f f' \<and> cl_root cl' = cl_root cl"
proof -
  have others: "cl_root (fst (te_others te (cl, f1))) = cl_root cl" "meta_same (cl_root cl) g f1 (snd (te_others te (cl, f1)))" for f1
    using assms(2) by (simp_all add: quiet_topic_def)
  obtain ro f1 where ow: "open_writers t (cl_root cl) cfg env [0..<unat (partition_count cfg)] f = (ro, f1)"
    by fastforce
  obtain cl2 f2 where o2: "te_others te (cl, f1) = (cl2, f2)"
    by fastforce
  have "meta_same (cl_root cl) g f f1" "meta_same (cl_root cl) g f f2" "cl_root cl2 = cl_root cl"
    using open_writers_same [OF ow] others [of f1] o2 by (auto intro: meta_same_trans)
  with assms(1) ow o2 show ?thesis
    by (auto simp: ensure_topic_async_def Let_def split: sum.split_asm option.split_asm)
qed

definition quiet_sub :: "path \<Rightarrow> string \<Rightarrow> sub_env \<Rightarrow> bool" where
  "quiet_sub rt g env \<longleftrightarrow> (\<forall>i. quiet rt g (su_acquire env i) \<and> quiet rt g (su_release env i))"

lemma next_after_read:
  assumes "next_after (offset_read (deser_offset cd) \<lparr>k_root = rt, k_topic = t, k_partition = p, k_group = g\<rparr> io f) = Inr n"
  shows "tracked cd rt g f \<lparr>sb_topic = t, sb_partition = p, sb_pending = [], next_read_offset = n\<rparr>"
proof -
  have "v < n" if "f (meta_path rt t p g) = Some b" "offset_decode (deser_offset cd) g b = Inr v" for b v
    using assms that
    by (auto simp: next_after_def offset_read_def read_bytes_def fs_read_def checked_inc_Some word_less_nat_alt word_facts
        split: sum.split_asm option.split_asm read_io.split_asm)
  then show ?thesis
    by (auto simp: tracked_def tracker_ok_def behind_def committed_at_def)
qed

lemma subscribe_partition_ok:
  assumes "subscribe_partition cd env cl t ttl p c f = (r, c', f')" and "quiet_sub (cl_root cl) (cn_group c) env"
    and "subs_ok cd (cl_root cl) (cn_group c) f (subscriptions c)"
  shows "subs_ok cd (cl_root cl) (cn_group c) f' (subscriptions c') \<and> cn_group c' = cn_group c \<and> (usable c' \<longrightarrow> usable c)"
proof (cases "find (\<lambda>s. sb_topic s = t \<and> sb_partition s = p) (subscriptions c)")
  case (Some s)
  with assms(1,3) show ?thesis
    using validate_owner_usable by (fastforce simp: subscribe_partition_def split: prod.splits)
next
  case None
  let ?k = "\<lparr>k_root = cl_root cl, k_topic = t, k_partition = p, k_group = cn_group c\<rparr>"
  obtain ra f1 where a: "try_acquire (ser_lease cd) (deser_lease cd) ?k (cn_holder c) ttl (su_directory env) (su_acquire env) f = (ra, f1)"
    by fastforce
  obtain rr f2 where l: "lease_release (ser_lease cd) (deser_lease cd) ?k (cn_holder c) (su_release env) f1 = (rr, f2)"
    by fastforce
  have same: "meta_same (cl_root cl) (cn_group c) f f1" "meta_same (cl_root cl) (cn_group c) f1 f2"
    using assms(2) lease_update_op_same [OF a [unfolded try_acquire_def]] lease_release_same [OF l]
    by (simp_all add: quiet_sub_def)
  note ok = assms(3) [folded subs_ok_same [OF same(1)]]
  have "(t, p) \<notin> sb_key ` set (subscriptions c)"
    using None by (auto simp: find_None_iff)
  with ok next_after_read [of cd "cl_root cl" t p "cn_group c" "su_offset env" f1] None a l assms(1) subs_ok_same [OF same(2)]
  show ?thesis
    by (auto simp: subscribe_partition_def Let_def subs_ok_def split: sum.split_asm)
qed

text \<open>What every operation of a consumer guarantees: a consumer that stays usable stays tracked.\<close>

definition consumer_ok :: "codec \<Rightarrow> path \<Rightarrow> string \<Rightarrow> consumer \<times> fs \<Rightarrow> bool" where
  "consumer_ok cd rt g x \<longleftrightarrow> cn_group (fst x) = g \<and> (usable (fst x) \<longrightarrow> subs_ok cd rt g (snd x) (subscriptions (fst x)))"

lemma subscribe_each_ok:
  assumes "subscribe_each cd env cl t ttl ps c f = (r, c', f')" and "\<forall>p. quiet_sub (cl_root cl) (cn_group c) (env p)"
    and "subs_ok cd (cl_root cl) (cn_group c) f (subscriptions c)"
  shows "subs_ok cd (cl_root cl) (cn_group c) f' (subscriptions c') \<and> cn_group c' = cn_group c \<and> (usable c' \<longrightarrow> usable c)"
  using assms
proof (induction ps arbitrary: c f)
  case (Cons p ps)
  obtain r1 c1 f1 where s: "subscribe_partition cd (env p) cl t ttl p c f = (r1, c1, f1)"
    by (metis prod_cases3)
  have "quiet_sub (cl_root cl) (cn_group c) (env p)"
    using Cons.prems(2) by blast
  note one = subscribe_partition_ok [OF s this Cons.prems(3)]
  show ?case
  proof (cases r1)
    case (Inl e)
    with Cons.prems(1) s one show ?thesis by simp
  next
    case (Inr v)
    with Cons.prems(1) s have "subscribe_each cd env cl t ttl ps c1 f1 = (r, c', f')" by simp
    from Cons.IH [OF this] Cons.prems(2) one show ?thesis by simp
  qed
qed simp

lemma subscribe_locked_ok:
  assumes "subscribe_locked cd te env t ps c cl f = (r, c', cl', f')" and "quiet_topic (cl_root cl) (cn_group c) te"
    and "\<forall>p. quiet_sub (cl_root cl) (cn_group c) (env p)"
    and "subs_ok cd (cl_root cl) (cn_group c) f (subscriptions c)"
  shows "subs_ok cd (cl_root cl) (cn_group c) f' (subscriptions c') \<and> cn_group c' = cn_group c \<and> (usable c' \<longrightarrow> usable c)"
proof -
  obtain r1 cl1 f1 where e: "ensure_topic_async t topic_config_default (te_directory te) (te_open te) (te_others te) cl f = (r1, cl1, f1)"
    by (metis prod_cases3)
  from ensure_topic_same [OF e assms(2)] have same: "meta_same (cl_root cl) (cn_group c) f f1" "cl_root cl1 = cl_root cl"
    by simp_all
  note ok = assms(4) [folded subs_ok_same [OF same(1)]]
  from assms(1) e consider "c' = c" "f' = f1"
    | ttl where "subscribe_each cd env cl1 t ttl ps c f1 = (r, c', f')"
    by (auto simp: subscribe_locked_def Let_def split: sum.split_asm if_split_asm option.split_asm prod.split_asm)
  then show ?thesis
  proof cases
    case 1
    with ok show ?thesis by simp
  next
    case 2
    from subscribe_each_ok [OF 2] assms(3) ok same(2) show ?thesis by simp
  qed
qed

lemma subscribe_all_locked_ok:
  assumes "subscribe_all_locked cd te env t c cl f = (r, c', cl', f')" and "quiet_topic (cl_root cl) (cn_group c) te"
    and "\<forall>p. quiet_sub (cl_root cl) (cn_group c) (env p)"
    and "subs_ok cd (cl_root cl) (cn_group c) f (subscriptions c)"
  shows "subs_ok cd (cl_root cl) (cn_group c) f' (subscriptions c') \<and> cn_group c' = cn_group c \<and> (usable c' \<longrightarrow> usable c)"
proof -
  obtain r1 cl1 f1 where e: "ensure_topic_async t topic_config_default (te_directory te) (te_open te) (te_others te) cl f = (r1, cl1, f1)"
    by (metis prod_cases3)
  from ensure_topic_same [OF e assms(2)] have same: "meta_same (cl_root cl) (cn_group c) f f1" "cl_root cl1 = cl_root cl"
    by simp_all
  note ok = assms(4) [folded subs_ok_same [OF same(1)]]
  show ?thesis
  proof (cases r1)
    case (Inl err)
    with assms(1) e ok show ?thesis by (simp add: subscribe_all_locked_def)
  next
    case (Inr st)
    with assms(1) e have "subscribe_locked cd te env t (map of_nat [0..<length (ts_memory st)]) c cl1 f1 = (r, c', cl', f')"
      by (simp add: subscribe_all_locked_def)
    from subscribe_locked_ok [OF this] assms(2,3) ok same(2) show ?thesis by simp
  qed
qed

lemma subscribe_guarded_ok:
  assumes "subscribe_guarded body t c cl f = (r, c', cl', f')" and "consumer_ok cd rt g (c, f)"
    and "\<And>r1 c1 cl1 f1. body c cl f = (r1, c1, cl1, f1) \<Longrightarrow> subs_ok cd rt g f (subscriptions c) \<Longrightarrow>
       subs_ok cd rt g f1 (subscriptions c1) \<and> cn_group c1 = cn_group c \<and> (usable c1 \<longrightarrow> usable c)"
  shows "consumer_ok cd rt g (c', f')"
proof (cases "body c cl f")
  case (fields r1 c1 cl1 f1)
  then show ?thesis
    using assms(1,2) assms(3) [OF fields]
    by (auto simp: subscribe_guarded_def consumer_ok_def check_usable_def split: if_split_asm sum.split_asm)
qed

lemma renewer_release_same:
  "renewer_release cd env cl c rn f = (r, f') \<Longrightarrow> \<forall>i. quiet rt g (env i) \<Longrightarrow> meta_same rt g f f'"
  by (auto simp: renewer_release_def intro: lease_release_same)

lemma renew_tick_ok:
  assumes "renew_tick cd env cl i c f = (c', f')" and "quiet_sub rt g env"
  shows "meta_same rt g f f' \<and> cn_group c' = cn_group c \<and> subscriptions c' = subscriptions c \<and> (usable c' \<longrightarrow> usable c)"
proof -
  have rel: "renewer_release cd (su_release env) cl c0 rn f0 = (r, f1) \<Longrightarrow> meta_same rt g f0 f1" for c0 rn f0 r f1
    using assms(2) by (auto simp: quiet_sub_def intro: renewer_release_same)
  have ren: "renew s d k h ttl dir (su_acquire env) f0 = (r, f1) \<Longrightarrow> meta_same rt g f0 f1" for s d k h ttl dir f0 r f1
    using assms(2) by (auto simp: quiet_sub_def renew_def intro: lease_update_op_same)
  from assms(1) show ?thesis
    by (auto simp: renew_tick_def Let_def split: if_split_asm prod.split_asm sum.split_asm
        dest!: rel ren intro: meta_same_trans)
qed

lemma join_renewers_same:
  assumes "join_renewers cd env cl c rns f err = (e, f')" and "\<forall>rn i. quiet rt g (env rn i)"
  shows "meta_same rt g f f'"
  using assms(1)
proof (induction rns arbitrary: f err)
  case (Cons rn rns)
  obtain r1 f1 where one: "(case rn_result rn of Some r \<Rightarrow> (r, f) | None \<Rightarrow> renewer_release cd (env rn) cl c rn f) = (r1, f1)"
    by fastforce
  have "meta_same rt g f f1"
    using one assms(2) by (auto split: option.split_asm intro: renewer_release_same)
  moreover have "meta_same rt g f1 f'"
    using Cons.prems one by (auto simp: Let_def intro: Cons.IH)
  ultimately show ?case
    by (rule meta_same_trans)
qed simp

section \<open>Runs of a consumer\<close>

text \<open>
  A consumer of the files under \<open>rt\<close>: its operations, in any order and with any outcome, the wake-ups of
  its renewal tasks, cancellation, and changes of any other file by others. A \<open>poll\<close> is a sequence of
  \<open>poll_once\<close> steps.
\<close>

inductive consumer_step :: "codec \<Rightarrow> path \<Rightarrow> consumer \<times> fs \<Rightarrow> consumer \<times> fs \<Rightarrow> bool" for cd rt where
  step_subscribe: "subscribe cd te env t ps c cl f = (r, c', cl', f') \<Longrightarrow> cl_root cl = rt \<Longrightarrow>
    quiet_topic rt (cn_group c) te \<Longrightarrow> \<forall>p. quiet_sub rt (cn_group c) (env p) \<Longrightarrow> consumer_step cd rt (c, f) (c', f')"
| step_subscribe_all: "subscribe_all cd te env t c cl f = (r, c', cl', f') \<Longrightarrow> cl_root cl = rt \<Longrightarrow>
    quiet_topic rt (cn_group c) te \<Longrightarrow> \<forall>p. quiet_sub rt (cn_group c) (env p) \<Longrightarrow> consumer_step cd rt (c, f) (c', f')"
| step_poll: "poll_once cd aenv cl f mx c = (rd, c') \<Longrightarrow> cl_root cl = rt \<Longrightarrow> client_ok cl \<Longrightarrow>
    consumer_step cd rt (c, f) (c', f)"
| step_ack: "ack cd aenv cl ids c f = (r, c', f') \<Longrightarrow> cl_root cl = rt \<Longrightarrow>
    \<forall>s i. quiet rt (cn_group c) (ac_attempts (aenv s) i) \<Longrightarrow> consumer_step cd rt (c, f) (c', f')"
| step_nack: "nack cd aenv cl f ids c = (r, c') \<Longrightarrow> cl_root cl = rt \<Longrightarrow> consumer_step cd rt (c, f) (c', f)"
| step_renew: "renew_tick cd senv cl i c f = (c', f') \<Longrightarrow> cl_root cl = rt \<Longrightarrow> quiet_sub rt (cn_group c) senv \<Longrightarrow>
    consumer_step cd rt (c, f) (c', f')"
| step_shutdown: "shutdown cd renv cl c f = (r, c', f') \<Longrightarrow> cl_root cl = rt \<Longrightarrow>
    \<forall>rn i. quiet rt (cn_group c) (renv rn i) \<Longrightarrow> consumer_step cd rt (c, f) (c', f')"
| step_cancel: "consumer_step cd rt (c, f) (cancel c, f)"
| step_others: "meta_same rt (cn_group c) f f' \<Longrightarrow> consumer_step cd rt (c, f) (c, f')"

lemma poll_once_ok:
  assumes "poll_once cd env cl f mx c = (r, c')" and "client_ok cl" and "consumer_ok cd rt g (c, f)"
  shows "consumer_ok cd rt g (c', f)"
proof (cases "check_usable cl c")
  case True
  obtain r1 u ss where p: "poll_locked cd env cl f mx c [] (subscriptions c) = (r1, u, ss)"
    by (metis prod_cases3)
  have ok: "subs_ok cd rt g f (subscriptions c)"
    using True assms(3) by (simp add: check_usable_def consumer_ok_def)
  from poll_locked_ok [OF p assms(2), of rt g] ok have "subs_ok cd rt g f ss"
    by (simp add: subs_ok_def)
  with p assms(1,3) True show ?thesis
    by (auto simp: poll_once_def consumer_ok_def)
qed (use assms in \<open>simp add: poll_once_def\<close>)

lemma nack_ok:
  assumes "nack cd env cl f ids c = (r, c')" and "consumer_ok cd rt g (c, f)"
  shows "consumer_ok cd rt g (c', f)"
proof (cases "check_usable cl c")
  case True
  obtain r1 u ss where p: "nack_locked cd env cl f ids c (subscriptions c) = (r1, u, ss)"
    by (metis prod_cases3)
  have ok: "subs_ok cd rt g f (subscriptions c)"
    using True assms(2) by (simp add: check_usable_def consumer_ok_def)
  from nack_locked_ok [OF p, of rt g] ok have "subs_ok cd rt g f ss"
    by (simp add: subs_ok_def)
  with p assms True show ?thesis
    by (auto simp: nack_def consumer_ok_def)
qed (use assms in \<open>simp add: nack_def\<close>)

lemma ack_ok:
  assumes "ack cd env cl ids c f = (r, c', f')" and "codec_sound cd" and "consumer_ok cd (cl_root cl) g (c, f)"
    and "\<forall>s i. quiet (cl_root cl) (cn_group c) (ac_attempts (env s) i)"
  shows "consumer_ok cd (cl_root cl) g (c', f')"
proof (cases "check_usable cl c")
  case True
  obtain r1 u ss f1 where p: "ack_locked cd env cl ids c (subscriptions c) f = (r1, u, ss, f1)"
    by (metis prod_cases4)
  have g: "cn_group c = g" and ok: "subs_ok cd (cl_root cl) (cn_group c) f (subscriptions c)"
    using True assms(3) by (simp_all add: check_usable_def consumer_ok_def)
  from ack_locked_ok [OF p assms(2,4) ok] ok have "\<not> lost r1 \<longrightarrow> subs_ok cd (cl_root cl) (cn_group c) f1 ss"
    by (auto intro: subs_ok_list_all)
  with p assms(1) True g show ?thesis
    by (auto simp: ack_def consumer_ok_def)
qed (use assms in \<open>simp add: ack_def\<close>)

lemma consumer_ok_same:
  "consumer_ok cd rt g (c, f) \<Longrightarrow> meta_same rt g f f' \<Longrightarrow> cn_group c' = cn_group c \<Longrightarrow>
   subscriptions c' = subscriptions c \<Longrightarrow> usable c' \<longrightarrow> usable c \<Longrightarrow> consumer_ok cd rt g (c', f')"
  by (simp add: consumer_ok_def subs_ok_same)

lemma subscribe_ok:
  assumes "subscribe cd te env t ps c cl f = (r, c', cl', f')" and "quiet_topic (cl_root cl) (cn_group c) te"
    and "\<forall>p. quiet_sub (cl_root cl) (cn_group c) (env p)" and "consumer_ok cd (cl_root cl) g (c, f)"
  shows "consumer_ok cd (cl_root cl) g (c', f')"
  by (rule subscribe_guarded_ok [OF assms(1) [unfolded subscribe_def] assms(4)], drule subscribe_locked_ok)
    (use assms(2-4) in \<open>simp_all add: consumer_ok_def\<close>)

lemma subscribe_all_ok:
  assumes "subscribe_all cd te env t c cl f = (r, c', cl', f')" and "quiet_topic (cl_root cl) (cn_group c) te"
    and "\<forall>p. quiet_sub (cl_root cl) (cn_group c) (env p)" and "consumer_ok cd (cl_root cl) g (c, f)"
  shows "consumer_ok cd (cl_root cl) g (c', f')"
  by (rule subscribe_guarded_ok [OF assms(1) [unfolded subscribe_all_def] assms(4)], drule subscribe_all_locked_ok)
    (use assms(2-4) in \<open>simp_all add: consumer_ok_def\<close>)

lemma consumer_step_ok:
  assumes "consumer_step cd rt x y" and "codec_sound cd" and "consumer_ok cd rt g x"
  shows "consumer_ok cd rt g y"
  using assms
proof (induction rule: consumer_step.induct)
  case (step_subscribe te env t ps c cl f r c' cl' f')
  then show ?case using subscribe_ok [OF step_subscribe(1), of g] by simp
next
  case (step_subscribe_all te env t c cl f r c' cl' f')
  then show ?case using subscribe_all_ok [OF step_subscribe_all(1), of g] by simp
next
  case (step_ack aenv cl ids c f r c' f')
  then show ?case using ack_ok [OF step_ack(1), of g] by simp
next
  case (step_renew senv cl i c f c' f')
  then have "cn_group c = g"
    by (simp add: consumer_ok_def)
  with renew_tick_ok [OF step_renew(1,3)] step_renew show ?case
    by (auto intro: consumer_ok_same)
next
  case (step_shutdown renv cl c f r c' f')
  then have "cn_group c' = cn_group c" "\<not> usable c'"
    by (auto simp: shutdown_def split: prod.split_asm)
  with step_shutdown show ?case by (simp add: consumer_ok_def)
next
  case (step_others c f f')
  then show ?case by (auto simp: consumer_ok_def subs_ok_same)
next
  case (step_cancel c f)
  then show ?case by (simp add: consumer_ok_def cancel_def)
qed (blast intro: poll_once_ok nack_ok)+

lemma consumer_run_ok:
  assumes "(consumer_step cd rt)\<^sup>*\<^sup>* (consumer_new g h, f0) x" and "codec_sound cd"
  shows "consumer_ok cd rt g x"
  using assms(1)
proof (induction rule: rtranclp_induct)
  case base
  show ?case by (simp add: consumer_ok_def consumer_new_def subs_ok_def)
qed (auto intro: consumer_step_ok assms(2))

lemma next_after_committed:
  "next_after (offset_read (deser_offset cd) \<lparr>k_root = rt, k_topic = t, k_partition = p, k_group = g\<rparr> ReadOk f) = Inr n \<Longrightarrow>
   n = 0 \<or> (\<exists>v. committed_at cd rt g (t, p) f v \<and> checked_inc v = Some n)"
  by (auto simp: next_after_def offset_read_def read_bytes_def fs_read_def committed_at_def
      split: sum.split_asm option.split_asm)



definition sample_client :: client where
  "sample_client = \<lparr>cl_root = [''q''], cl_default_sync = Lazy, cl_topics = [''t'' \<mapsto>
     \<lparr>ts_config = topic_config_default\<lparr>partition_count := 1, lease_duration := 5\<rparr>, ts_memory = [sample_memory], ts_writers = []\<rparr>],
     cl_closed = False\<rparr>"

definition sample_access :: access where
  "sample_access = \<lparr>ac_read = ReadOk, ac_clock = Some 10, ac_attempts = sample_env\<rparr>"

definition sample_sub_env :: sub_env where
  "sample_sub_env = \<lparr>su_access = sample_access, su_directory = Inr (), su_acquire = sample_env, su_offset = ReadOk,
     su_release = sample_env\<rparr>"

definition sample_topic_env :: topic_env where
  "sample_topic_env = \<lparr>te_directory = Inr (), te_open = \<lambda>_. \<lparr>oe_mkdir = Inr (), oe_listing = Inr [], oe_io = AppendOk\<rparr>, te_others = id\<rparr>"

definition sample_consumer :: "pending list \<Rightarrow> u64 \<Rightarrow> consumer" where
  "sample_consumer ps n = \<lparr>cn_group = ''g'', cn_holder = ''a'', usable = True,
     subscriptions = [\<lparr>sb_topic = ''t'', sb_partition = 0, sb_pending = ps, next_read_offset = n\<rparr>],
     renewers = [\<lparr>rn_topic = ''t'', rn_partition = 0, rn_ttl = 5, rn_result = None\<rparr>]\<rparr>"

abbreviation in_flight :: "u64 \<Rightarrow> pending" where
  "in_flight off \<equiv> \<lparr>pd_memo = sample_entry off, acknowledged = False, retry = False\<rparr>"

lemma sample_quiet: "quiet rt g (sample_env i)" "quiet_sub rt g sample_sub_env" "quiet_topic rt g sample_topic_env"
  by (simp_all add: quiet_def quiet_sub_def quiet_topic_def sample_env_def sample_sub_env_def sample_topic_env_def)

lemma sample_acquire:
  "try_acquire (ser_lease sample_codec) (deser_lease sample_codec) sample_key ''a'' 5 (Inr ()) sample_env Map.empty =
   (Inr (), sample_leased)"
proof -
  have "lease_decide (ser_lease sample_codec) (deser_lease sample_codec) sample_key ''a'' (LeaseAcquire 5) 10 None =
      Inr (lease_bytes ''a'' 15)"
    using sample_lease [of Map.empty "[]" 0 10 "''a''" 5] by (simp add: enc_sample)
  with sample_cas_ok [of Map.empty "lease_bytes ''a'' 15"] show ?thesis
    by (simp add: try_acquire_def lease_update_op_def sample_valid upt_rec sample_env_def read_bytes_def fs_read_def
        sample_leased_def)
qed

lemma sample_subscribe:
  "subscribe sample_codec sample_topic_env (\<lambda>_. sample_sub_env) ''t'' [0] (consumer_new ''g'' ''a'') sample_client Map.empty =
   (Inr (), sample_consumer [] 0, sample_client, sample_leased)"
proof -
  have "validate_group ''g'' = Inr ()" "validate_topic ''t'' = Inr ()"
    by (simp_all add: validate_group_def validate_topic_def name_char_def is_ascii_alphanumeric_def Let_def)
  moreover have "offset_read (deser_offset sample_codec) sample_key ReadOk sample_leased = Inr None"
    by (simp add: offset_read_def sample_valid read_bytes_def fs_read_def sample_leased_def)
  ultimately show ?thesis
    using sample_acquire
    by (simp add: subscribe_def subscribe_guarded_def subscribe_locked_def ensure_topic_async_def sample_client_def
        consumer_new_def check_usable_def consumer_validate_topic_def subscribe_partition_def sample_sub_env_def
        sample_key_def next_after_def sample_consumer_def Let_def)
qed

lemma sample_owned:
  "f (key_lease sample_key) = Some (lease_bytes ''a'' 15) \<Longrightarrow>
   owned_bytes (deser_lease sample_codec) sample_key ''a'' ReadOk (Some 10) f = Inr (key_lease sample_key, lease_bytes ''a'' 15)"
  by (simp add: owned_bytes_def sample_valid fs_read_def sample_codec_def)

lemma sample_validate:
  assumes "f (key_lease sample_key) = Some (lease_bytes ''a'' 15)" "sb_key s = (''t'', 0)" "cl_root cl = [''q'']" "\<not> cl_closed cl"
  shows "validate_owner sample_codec sample_access cl f (sample_consumer ps n) s = (Inr (), True)"
  using sample_owned [of f] assms
  by (simp add: validate_owner_def check_usable_def sample_consumer_def sample_access_def sample_key_def)

lemma sample_client_open: "cl_root sample_client = [''q'']" "\<not> cl_closed sample_client"
  by (simp_all add: sample_client_def)

lemma sample_leased_lease: "sample_leased (key_lease sample_key) = Some (lease_bytes ''a'' 15)"
  by (simp add: sample_leased_def)

lemma sample_poll:
  "poll_once sample_codec (\<lambda>_. sample_access) sample_client sample_leased 9 (sample_consumer [] 0) =
   (Inr [deliver (sample_entry 0), deliver (sample_entry 1)], sample_consumer [in_flight 0, in_flight 1] 2)"
proof -
  have read: "read_from 0 9 sample_memory = [sample_entry 0, sample_entry 1]"
    by (simp add: read_from_def sample_memory_def bt_range_def checked_inc_def)
  have mem: "sub_memory sample_client s = Some sample_memory" if "sb_key s = (''t'', 0)" for s
    using that by (simp add: sub_memory_def sample_client_def)
  note own = sample_validate [of sample_leased, OF sample_leased_lease _ sample_client_open]
  have "check_usable sample_client (sample_consumer [] 0)"
    by (simp add: check_usable_def sample_client_def sample_consumer_def)
  then show ?thesis
    using own [of _ "[]" 0] mem read
    by (simp add: poll_once_def poll_sub_def sample_consumer_def sample_entry_def checked_inc_def Let_def)
qed

lemma sample_key_group: "k_group sample_key = ''g''"
  by (simp add: sample_key_def)

lemma sample_commit:
  assumes "f (key_lease sample_key) = Some (lease_bytes ''a'' 15)" and "f (key_meta sample_key) = None"
  shows "offset_commit (ser_offset sample_codec) (deser_offset sample_codec) (deser_lease sample_codec) sample_key ''a'' off
    sample_env f = (Inr (), f(key_meta sample_key \<mapsto> lease_bytes ''g'' (unat off)))"
proof -
  have "offset_decide (ser_offset sample_codec) (deser_offset sample_codec) ''g'' off None = Inr (lease_bytes ''g'' (unat off))"
    by (simp add: offset_decide_def sample_codec_def enc_sample)
  moreover have "list_all (\<lambda>(c, _). cas_candidate_ok (key_meta sample_key) c)
      [(key_meta sample_key, None), (key_lease sample_key, Some (lease_bytes ''a'' 15))]"
    by (simp add: cas_candidate_ok_def lease_path_def meta_path_def sample_key_def LEASE_FILE_def META_FILE_def
        is_coordination_lock_file_def eq_ignore_ascii_case_def ascii_lower_def Let_def group_dir_name_def)
  ultimately show ?thesis
    using sample_owned [of f] assms
    by (simp add: offset_commit_def sample_valid upt_rec sample_env_def read_bytes_def fs_read_def sample_key_group
        compare_exchange_def)
qed

lemma sample_leased_commit:
  "offset_commit (ser_offset sample_codec) (deser_offset sample_codec) (deser_lease sample_codec) sample_key ''a'' 0 sample_env
     sample_leased = (Inr (), sample_committed 0)"
  using sample_commit [of sample_leased 0] by (simp add: sample_leased_def sample_committed_def)

lemma sample_ack:
  "ack sample_codec (\<lambda>_. sample_access) sample_client [message_id_new 0 0 0] (sample_consumer [in_flight 0, in_flight 1] 2)
     sample_leased = (Inr (), sample_consumer [in_flight 1] 2, sample_committed 0)"
proof -
  have ids: "message_id_new 0 0 1 \<noteq> message_id_new 0 0 0"
    by (simp add: message_id_new_def)
  note own = sample_validate [of sample_leased, OF sample_leased_lease _ sample_client_open]
  have rt: "cl_root sample_client = [''q'']"
    by (simp add: sample_client_def)
  have "check_usable sample_client (sample_consumer [in_flight 0, in_flight 1] 2)"
    by (simp add: check_usable_def sample_client_def sample_consumer_def)
  then show ?thesis
    using own [of _ "[in_flight 0, in_flight 1]" 2] sample_leased_commit [unfolded sample_key_def] ids rt
    by (simp add: ack_def ack_sub_def targeted_def acked_prefix_def mark_acked_def sample_entry_def sample_access_def lost_def
        Let_def sample_consumer_def)
qed

lemma sample_resume:
  "next_after (offset_read (deser_offset sample_codec)
     \<lparr>k_root = [''q''], k_topic = ''t'', k_partition = 0, k_group = ''g''\<rparr> ReadOk (sample_committed 0)) = Inr 1"
proof -
  have "offset_read (deser_offset sample_codec) sample_key ReadOk (sample_committed 0) = Inr (Some 0)"
    by (simp add: offset_read_def sample_valid read_bytes_def fs_read_def sample_committed_def offset_decode_def
        sample_codec_def sample_key_group)
  then show ?thesis
    by (simp add: sample_key_def next_after_def checked_inc_def)
qed



end
