(* ===== verification/Queue_Delivery.thy ===== *)
theory Queue_Delivery
  imports Queue_Consumer
begin

text \<open>
  Producers, the memory buffers and consumers together: what a message that was accepted can expect.
  \<open>client_step\<close> interleaves the operations on the topic table of a client; consumers only read it. The
  opening and the shutdown of a client (\<^verbatim>\<open>lib.rs\<close>) compose the operations of the other theories.
\<close>

section \<open>Opening and shutdown of a client\<close>

text \<open>
  \<open>open_client\<close>: the configured topics are opened, then the registered ones are recovered. The resolved root,
  whether the backend replaces conditionally, and the preparation of the archive are arguments; the
  background tasks that opening starts are operations of their own (\<open>upload_segment\<close>, \<open>maybe_reap\<close>).
\<close>

fun open_topics ::
  "(string \<Rightarrow> topic_env) \<Rightarrow> (string \<times> topic_config) list \<Rightarrow> client \<Rightarrow> fs \<Rightarrow> (queue_error + unit) \<times> client \<times> fs" where
  "open_topics env [] cl f = (Inr (), cl, f)"
| "open_topics env ((t, cfg) # specs) cl f =
     (case ensure_topic_async t cfg (te_directory (env t)) (te_open (env t)) id cl f of
        (Inl e, cl1, f1) \<Rightarrow> (Inl e, cl1, f1)
      | (Inr _, cl1, f1) \<Rightarrow> open_topics env specs cl1 f1)"

definition open_client ::
  "queue_error + path \<Rightarrow> bool \<Rightarrow> queue_error + unit \<Rightarrow> sync_mode \<Rightarrow> (string \<times> topic_config) list \<Rightarrow> (string \<Rightarrow> topic_env) \<Rightarrow>
   (bytes \<Rightarrow> message option) \<Rightarrow> (string \<Rightarrow> nat \<Rightarrow> part_env) \<Rightarrow> fs \<Rightarrow> string list \<Rightarrow> queue_error + unit \<Rightarrow> fs \<Rightarrow> (queue_error + client) \<times> fs" where
  "open_client rt conditional mkdir sync specs env deser penv af topics archive f =
     (case rt of
        Inl e \<Rightarrow> (Inl e, f)
      | Inr r \<Rightarrow>
          if \<not> conditional
          then (Inl (Persistence ''queue root backend does not support conditional ownership publication''), f)
          else case mkdir of
                 Inl e \<Rightarrow> (Inl e, f)
               | Inr _ \<Rightarrow>
                   (case open_topics env specs \<lparr>cl_root = r, cl_default_sync = sync, cl_topics = Map.empty, cl_closed = False\<rparr> f of
                      (Inl e, cl1, f1) \<Rightarrow> (Inl e, f1)
                    | (Inr _, cl1, f1) \<Rightarrow>
                        (case recover deser penv af topics cl1 f1 0 of
                           (Inl e, f2) \<Rightarrow> (Inl e, f2)
                         | (Inr (n, cl2), f2) \<Rightarrow> (case archive of Inl e \<Rightarrow> (Inl e, f2) | Inr _ \<Rightarrow> (Inr cl2, f2)))))"

text \<open>The consumers that are still alive are shut down in turn; the first error is returned.\<close>

fun shutdown_consumers where
  "shutdown_consumers cd env cl [] f err = (err, [], f)"
| "shutdown_consumers cd env cl (c # cs) f err =
     (let (r, c1, f1) = shutdown cd (env c) cl c f;
          err1 = (case err of Some e \<Rightarrow> Some e | None \<Rightarrow> (case r of Inl e \<Rightarrow> Some e | Inr _ \<Rightarrow> None));
          (err2, cs1, f2) = shutdown_consumers cd env cl cs f1 err1
      in (err2, c1 # cs1, f2))"

definition client_shutdown ::
  "codec \<Rightarrow> (consumer \<Rightarrow> renewer \<Rightarrow> nat \<Rightarrow> attempt) \<Rightarrow> consumer list \<Rightarrow> client \<Rightarrow> fs \<Rightarrow>
   (queue_error + unit) \<times> client \<times> consumer list \<times> fs" where
  "client_shutdown cd env cs cl f =
     (let cl1 = cl\<lparr>cl_closed := True\<rparr>;
          (err, cs1, f1) = shutdown_consumers cd env cl1 cs f None
      in (case err of Some e \<Rightarrow> Inl e | None \<Rightarrow> Inr (), cl1, cs1, f1))"

text \<open>After a successful opening every configured topic is there.\<close>

lemma ensure_keeps_topics:
  "ensure_topic_async t cfg dir env id cl f = (r, cl', f') \<Longrightarrow> dom (cl_topics cl) \<subseteq> dom (cl_topics cl') \<and> (\<forall>st. r = Inr st \<longrightarrow> t \<in> dom (cl_topics cl'))"
  by (auto simp: ensure_topic_async_def Let_def split: sum.split_asm option.split_asm prod.split_asm)

lemma open_topics_dom:
  "open_topics env specs cl f = (Inr (), cl', f') \<Longrightarrow> fst ` set specs \<union> dom (cl_topics cl) \<subseteq> dom (cl_topics cl')"
proof (induction specs arbitrary: cl f)
  case (Cons x specs)
  obtain t cfg where x: "x = (t, cfg)"
    by (cases x)
  obtain r cl1 f1 where e: "ensure_topic_async t cfg (te_directory (env t)) (te_open (env t)) id cl f = (r, cl1, f1)"
    by (metis prod_cases3)
  with Cons.prems x have r: "\<exists>st. r = Inr st" "open_topics env specs cl1 f1 = (Inr (), cl', f')"
    by (auto split: sum.split_asm)
  from ensure_keeps_topics [OF e] r(1) have "dom (cl_topics cl) \<subseteq> dom (cl_topics cl1)" "t \<in> dom (cl_topics cl1)"
    by blast+
  with Cons.IH [OF r(2)] show ?case
    unfolding x by (simp only: list.set image_insert fst_conv) blast
qed simp

lemma recover_dom:
  "recover deser env af topics cl f n = (Inr (n', cl'), f') \<Longrightarrow> dom (cl_topics cl') = dom (cl_topics cl)"
proof (induction topics arbitrary: cl f n)
  case (Cons t topics)
  show ?case
  proof (cases "cl_topics cl t")
    case None
    with Cons show ?thesis by simp
  next
    case (Some st)
    then obtain m st1 f1 where "recover deser env af topics (cl\<lparr>cl_topics := (cl_topics cl)(t \<mapsto> st1)\<rparr>) f1 m = (Inr (n', cl'), f')"
      using Cons.prems by (auto split: sum.split_asm prod.split_asm)
    from Cons.IH [OF this] Some show ?thesis
      by (auto simp: dom_def)
  qed
qed simp

lemma open_client_topics:
  assumes "open_client rt conditional mkdir sync specs env deser penv af topics archive f = (Inr cl, f')"
  shows "fst ` set specs \<subseteq> dom (cl_topics cl)"
proof -
  from assms obtain cl0 f0 cl1 f1 n f2 where "open_topics env specs cl0 f0 = (Inr (), cl1, f1)"
    "recover deser penv af topics cl1 f1 0 = (Inr (n, cl), f2)"
    by (auto simp: open_client_def split: sum.split_asm if_split_asm prod.split_asm)
  with recover_dom [OF this(2)] open_topics_dom [OF this(1)] show ?thesis
    by simp
qed

text \<open>After a shutdown, no consumer polls, acknowledges, nacks or subscribes.\<close>

lemma client_shutdown_refuses:
  assumes "client_shutdown cd env cs cl f = (r, cl', cs', f')"
  shows "poll_once cd aenv cl' f2 mx c = (Inl unusable_error, c) \<and> ack cd aenv cl' ids c f2 = (Inl unusable_error, c, f2) \<and>
    nack cd aenv cl' f2 ids c = (Inl unusable_error, c) \<and>
    subscribe cd te senv t ps c cl' f2 = (Inl unusable_error, c, cl', f2)"
proof -
  have "cl_closed cl'"
    using assms by (auto simp: client_shutdown_def Let_def split: prod.split_asm)
  then show ?thesis
    by (simp add: poll_once_def ack_def nack_def subscribe_def subscribe_guarded_def check_usable_def)
qed

section \<open>Buffers only grow\<close>

inductive client_step :: "client \<times> fs \<Rightarrow> client \<times> fs \<Rightarrow> bool" where
  client_ensure: "ensure_topic_async topic cfg dir oenv id cl f = (rt, cl', f') \<Longrightarrow> client_step (cl, f) (cl', f')"
| client_append: "send_append ser hash senv msg cl f = (ra, cl', f') \<Longrightarrow> client_step (cl, f) (cl', f')"
| client_publish: "send_publish fsync now ticket cl = (rp, cl') \<Longrightarrow> client_step (cl, f) (cl', f)"
| client_consume: "consumer_step cd (cl_root cl) (c, f) (c', f') \<Longrightarrow> client_step (cl, f) (cl, f')"
| client_close: "client_step (cl, f) (cl\<lparr>cl_closed := True\<rparr>, f)"

definition mem_grows :: "memory \<Rightarrow> memory \<Rightarrow> bool" where
  "mem_grows m m' \<longleftrightarrow> pm_capacity m' = pm_capacity m \<and> depth m \<le> depth m' \<and>
     (depth m \<le> pm_capacity m \<longrightarrow> depth m' \<le> pm_capacity m)"

definition topic_grows :: "topic_state \<Rightarrow> topic_state \<Rightarrow> bool" where
  "topic_grows st st' \<longleftrightarrow> ts_config st' = ts_config st \<and> length (ts_writers st') = length (ts_writers st) \<and>
     list_all2 mem_grows (ts_memory st) (ts_memory st')"

definition client_grows :: "client \<Rightarrow> client \<Rightarrow> bool" where
  "client_grows cl cl' \<longleftrightarrow>
     (\<forall>t st. cl_topics cl t = Some st \<longrightarrow> (\<exists>st'. cl_topics cl' t = Some st' \<and> topic_grows st st'))"

lemma mem_grows_refl [simp]: "mem_grows m m"
  by (simp add: mem_grows_def)

lemma topic_grows_refl [simp]: "topic_grows st st"
  by (simp add: topic_grows_def list_all2_refl)

lemma client_grows_refl [simp]: "client_grows cl cl"
  by (simp add: client_grows_def)

lemma client_grows_trans: "client_grows cl cl1 \<Longrightarrow> client_grows cl1 cl2 \<Longrightarrow> client_grows cl cl2"
proof -
  have mem: "mem_grows m m1 \<Longrightarrow> mem_grows m1 m2 \<Longrightarrow> mem_grows m m2" for m m1 m2
    by (simp add: mem_grows_def)
  have "topic_grows st st1 \<Longrightarrow> topic_grows st1 st2 \<Longrightarrow> topic_grows st st2" for st st1 st2
    unfolding topic_grows_def using list_all2_trans [of mem_grows mem_grows mem_grows, OF mem] by fastforce
  then show "client_grows cl cl1 \<Longrightarrow> client_grows cl1 cl2 \<Longrightarrow> client_grows cl cl2"
    unfolding client_grows_def by meson
qed

lemma bt_insert_fits: "\<not> n \<le> length xs \<Longrightarrow> length (bt_insert k v xs) \<le> n"
  using length_bt_insert(1) [of k v xs] by simp

lemma enqueue_grows: "enqueue_with_offset msg off id m = (r, m') \<Longrightarrow> mem_grows m m'"
  by (auto simp: enqueue_with_offset_def enqueue_at_def mem_grows_def depth_def Let_def length_bt_insert(2)
      intro: bt_insert_fits split: option.split_asm if_split_asm)

lemma set_partition_grows:
  assumes "\<And>st. cl_topics cl t = Some st \<Longrightarrow> p < length (ts_memory st) \<Longrightarrow> mem_grows (ts_memory st ! p) m"
  shows "client_grows cl (set_partition t p m w cl)"
proof (cases "cl_topics cl t")
  case (Some st)
  have "list_all2 mem_grows (ts_memory st) ((ts_memory st)[p := m])"
    using assms [OF Some] by (cases "p < length (ts_memory st)") (auto simp: list_all2_conv_all_nth nth_list_update)
  with Some show ?thesis
    by (simp add: client_grows_def topic_grows_def list_all2_refl)
qed simp

lemma ensure_grows: "ensure_topic_async t cfg dir env id cl f = (r, cl', f') \<Longrightarrow> client_grows cl cl'"
  by (auto simp: ensure_topic_async_def client_grows_def Let_def split: sum.split_asm option.split_asm prod.split_asm)

lemma ensure_Inr:
  "ensure_topic_async t cfg dir env id cl f = (Inr st, cl', f') \<Longrightarrow> cl_topics cl' t = Some st"
  by (auto simp: ensure_topic_async_def Let_def split: sum.split_asm option.split_asm prod.split_asm)

lemma send_publish_grows: "send_publish fsync now t cl = (r, cl') \<Longrightarrow> client_grows cl cl'"
proof -
  assume step: "send_publish fsync now t cl = (r, cl')"
  show ?thesis
  proof (cases "cl_topics cl (tk_topic t)")
    case None
    with step show ?thesis by (simp add: send_publish_def)
  next
    case (Some st)
    obtain re m where e: "enqueue_with_offset (tk_message t) (ao_offset (tk_outcome t)) id (ts_memory st ! unat (tk_partition t)) = (re, m)"
      by fastforce
    have "cl' = set_partition (tk_topic t) (unat (tk_partition t)) m (ts_writers st ! unat (tk_partition t)) cl"
      using step Some e by (auto simp: send_publish_def Let_def split: sum.split_asm sync_mode.split_asm prod.split_asm)
    moreover have "client_grows cl \<dots>"
      by (rule set_partition_grows) (use Some enqueue_grows [OF e] in simp)
    ultimately show ?thesis
      by simp
  qed
qed
lemma send_append_grows: "send_append ser hash env msg cl f = (r, cl', f') \<Longrightarrow> client_grows cl cl'"
proof -
  assume step: "send_append ser hash env msg cl f = (r, cl', f')"
  obtain rt cl1 f1 where t: "(case cl_topics cl (msg_topic msg) of
              Some st \<Rightarrow> (Inr st, cl, f)
            | None \<Rightarrow> ensure_topic_async (msg_topic msg) topic_config_default (se_directory env) (se_open env) id cl f) = (rt, cl1, f1)"
    by (metis prod_cases3)
  then have one: "client_grows cl cl1" "\<And>st. rt = Inr st \<Longrightarrow> cl_topics cl1 (msg_topic msg) = Some st"
    by (auto split: option.split_asm dest: ensure_grows ensure_Inr)
  from step t have "cl' = cl1 \<or> (\<exists>st p w. rt = Inr st \<and> p < length (ts_memory st) \<and>
      cl' = set_partition (msg_topic msg) p (ts_memory st ! p) w cl1)"
    unfolding send_append_def by (auto simp: Let_def not_le split: sum.split_asm option.split_asm if_split_asm prod.split_asm pressure_level.split_asm)
  then show ?thesis
  proof
    assume "\<exists>st p w. rt = Inr st \<and> p < length (ts_memory st) \<and> cl' = set_partition (msg_topic msg) p (ts_memory st ! p) w cl1"
    then obtain st p w where two: "rt = Inr st" "cl' = set_partition (msg_topic msg) p (ts_memory st ! p) w cl1"
      by blast
    have "client_grows cl1 (set_partition (msg_topic msg) p (ts_memory st ! p) w cl1)"
      by (rule set_partition_grows) (use one(2) [OF two(1)] in simp)
    with one(1) two(2) show ?thesis
      by (blast intro: client_grows_trans)
  qed (use one in simp)
qed

lemma close_grows: "client_grows cl (cl\<lparr>cl_closed := True\<rparr>)"
  by (simp add: client_grows_def)

lemma client_step_grows: "client_step x y \<Longrightarrow> client_grows (fst x) (fst y)"
  by (induction rule: client_step.induct) (auto intro: ensure_grows send_append_grows send_publish_grows close_grows)

lemma client_run_grows: "client_step\<^sup>*\<^sup>* x y \<Longrightarrow> client_grows (fst x) (fst y)"
  by (induction rule: rtranclp_induct) (auto intro: client_grows_trans dest: client_step_grows)

section \<open>Full partitions\<close>

lemma hard_grows:
  assumes "mem_grows m m'" and "pressure m = Some (Hard x)" and "depth m \<le> pm_capacity m" and "pm_capacity m < 2 ^ 24"
  shows "pressure m' = Some (Hard (depth m', pm_capacity m))"
proof -
  have d: "depth m \<le> depth m'" "depth m' \<le> pm_capacity m" "pm_capacity m' = pm_capacity m"
    using assms(1,3) by (simp_all add: mem_grows_def)
  have "ratio_ge_095 (depth m) (pm_capacity m)"
    using assms(2) by (simp add: pressure_def split: if_split_asm)
  then have "ratio_ge_095 (depth m') (pm_capacity m)"
    using d assms(3,4) by (simp add: ratio_ge_095_def)
  with d show ?thesis
    by (simp add: pressure_def)
qed

text \<open>
  C23: a partition that has once reached the hard limit refuses every message for the rest of the life of
  the client. Whatever producers and consumers do in between, however much of its content is
  acknowledged by all groups, a send routed to it fails with backpressure before it reaches the disk:
  no operation of the client takes messages out of a buffer.
\<close>

theorem full_partition_stays_full:
  assumes "cl_topics cl (msg_topic msg) = Some st"
    and "partition_for hash (tenant_id msg) (partition_count (ts_config st)) = Some part"
    and "unat part < length (ts_memory st)" and "unat part < length (ts_writers st)"
    and "pressure (ts_memory st ! unat part) = Some (Hard x)"
    and "depth (ts_memory st ! unat part) \<le> pm_capacity (ts_memory st ! unat part)"
    and "pm_capacity (ts_memory st ! unat part) < 2 ^ 24"
    and "client_step\<^sup>*\<^sup>* (cl, f) (cl', f')"
  shows "\<exists>d. send_append ser hash env msg cl' f' =
    (Inl (Backpressure (d, pm_capacity (ts_memory st ! unat part)) 100), cl', f')"
proof -
  obtain st' where st': "cl_topics cl' (msg_topic msg) = Some st'" "topic_grows st st'"
    using client_run_grows [OF assms(8)] assms(1) by (auto simp: client_grows_def)
  have same: "ts_config st' = ts_config st" "length (ts_writers st') = length (ts_writers st)"
    "length (ts_memory st') = length (ts_memory st)" "mem_grows (ts_memory st ! unat part) (ts_memory st' ! unat part)"
    using st'(2) assms(3) by (auto simp: topic_grows_def list_all2_conv_all_nth)
  from hard_grows [OF same(4) assms(5-7)] same(1-3) st'(1) assms(2-4) show ?thesis
    by (simp add: send_append_def Let_def)
qed

definition full_memory :: memory where
  "full_memory = \<lparr>pm_partition = 0, pm_capacity = 2, pm_entries = [(0, sample_entry 0), (1, sample_entry 1)], pm_next_offset = 2\<rparr>"

definition full_writer :: disk_writer where
  "full_writer = \<lparr>dw_topic = ''t'', dw_partition = 0, dw_root = [''q''], dw_config = topic_config_default,
     active_segment_id = 0, active_segment_path = segment_path (partition_dir [''q''] ''t'' 0) 0,
     active_segment_size = 0, dw_next_offset = 2\<rparr>"

definition partition_client :: "memory \<Rightarrow> disk_writer \<Rightarrow> client" where
  "partition_client m w = \<lparr>cl_root = [''q''], cl_default_sync = Lazy, cl_topics = [''t'' \<mapsto>
     \<lparr>ts_config = topic_config_default\<lparr>partition_count := 1, lease_duration := 5\<rparr>, ts_memory = [m], ts_writers = [w]\<rparr>],
     cl_closed = False\<rparr>"

definition sample_send_env :: send_env where
  "sample_send_env = \<lparr>se_directory = Inr (), se_open = \<lambda>_. \<lparr>oe_mkdir = Inr (), oe_listing = Inr [], oe_io = AppendOk\<rparr>,
     se_rotate = AppendOk, se_append = AppendOk\<rparr>"

text \<open>A message is acknowledged and its offset committed; the next send is refused all the same.\<close>

theorem full_partition_stays_full_witness:
  "(let cl = partition_client full_memory full_writer
    in client_step\<^sup>*\<^sup>* (cl, sample_leased) (cl, sample_committed 0) \<and>
       (\<exists>d. send_append (\<lambda>_. Some []) (\<lambda>_. 0) sample_send_env (message_new ''t'' ''a'' [] 0) cl (sample_committed 0) =
         (Inl (Backpressure (d, 2) 100), cl, sample_committed 0)))"
proof -
  let ?cl = "partition_client full_memory full_writer"
  let ?msg = "message_new ''t'' ''a'' [] 0"
  have "consumer_step sample_codec [''q''] (sample_consumer [in_flight 0, in_flight 1] 2, sample_leased)
      (sample_consumer [in_flight 1] 2, sample_committed 0)"
    by (rule step_ack [OF sample_ack]) (simp_all add: sample_access_def sample_quiet sample_client_def)
  then have run: "client_step\<^sup>*\<^sup>* (?cl, sample_leased) (?cl, sample_committed 0)"
    by (intro r_into_rtranclp client_consume) (simp add: partition_client_def)
  have "\<exists>st. cl_topics ?cl (msg_topic ?msg) = Some st \<and> ts_memory st = [full_memory] \<and> length (ts_writers st) = 1 \<and>
      partition_count (ts_config st) = 1"
    by (simp add: partition_client_def message_new_def)
  then obtain st where st: "cl_topics ?cl (msg_topic ?msg) = Some st" "ts_memory st = [full_memory]" "length (ts_writers st) = 1"
    "partition_count (ts_config st) = 1"
    by blast
  have p: "partition_for (\<lambda>_. 0) (tenant_id ?msg) (partition_count (ts_config st)) = Some 0"
    by (simp add: partition_for_def st)
  have "pressure full_memory = Some (Hard (2, 2))"
    by (simp add: pressure_def depth_def full_memory_def ratio_ge_095_def)
  with full_partition_stays_full [OF st(1) p _ _ _ _ _ run, of "(2, 2)" "\<lambda>_. Some []" sample_send_env] st(2,3) run
  show ?thesis
    by (simp add: Let_def full_memory_def depth_def)
qed

section \<open>Topics created on first use\<close>

lemma writer_open_offset: "writer_open t p rt cfg mk ls io f = (Inr w, f') \<Longrightarrow> dw_next_offset w = 0"
  by (auto simp: writer_open_def Let_def split: sum.split_asm option.split_asm prod.split_asm)

lemma open_writers_offset:
  "open_writers t rt cfg env ps f = (Inr ws, f') \<Longrightarrow> length ws = length ps \<and> (\<forall>w \<in> set ws. dw_next_offset w = 0)"
  by (induction ps arbitrary: f f' ws) (auto split: sum.split_asm prod.split_asm dest: writer_open_offset)

lemma ensure_new:
  assumes "ensure_topic_async t cfg dir env id cl f = (Inr st, cl', f')" and "cl_topics cl t = None"
  shows "ts_memory st = map (\<lambda>p. memory_new (of_nat p) (memory_capacity cfg)) [0..<unat (partition_count cfg)] \<and>
    (\<forall>w \<in> set (ts_writers st). dw_next_offset w = 0) \<and> cl_topics cl' t = Some st"
  using assms open_writers_offset
  by (auto simp: ensure_topic_async_def Let_def split: sum.split_asm prod.split_asm)

lemma disk_append_offset:
  "disk_append ser rio io id msg w f = (Inr oc, w', f') \<Longrightarrow> ao_offset oc = dw_next_offset w"
  by (auto simp: disk_append_def reserve_offset_def split: option.split_asm sum.split_asm prod.split_asm)

lemma enqueue_empty:
  assumes "enqueue_with_offset msg 0 id m = (Inr (en, hint), m')" and "pm_entries m = []"
  shows "en_offset en = 0 \<and> (0 < n \<longrightarrow> read_from n mx m' = [])"
  using assms
  by (auto simp: enqueue_with_offset_def enqueue_at_def read_from_def bt_range_def Let_def split: option.split_asm if_split_asm)

lemma send_append_new:
  assumes "send_append ser hash env msg cl f = (Inr t, cl', f')" and "cl_topics cl (msg_topic msg) = None"
  shows "\<exists>st. cl_topics cl' (msg_topic msg) = Some st \<and> unat (tk_partition t) < length (ts_memory st) \<and>
    pm_entries (ts_memory st ! unat (tk_partition t)) = [] \<and> ao_offset (tk_outcome t) = 0 \<and> tk_topic t = msg_topic msg"
proof -
  obtain st cl1 f1 where e: "ensure_topic_async (msg_topic msg) topic_config_default (se_directory env) (se_open env) id cl f = (Inr st, cl1, f1)"
    using assms by (auto simp: send_append_def split: sum.split_asm prod.split_asm)
  note new = ensure_new [OF e assms(2)]
  then have empty: "p < length (ts_memory st) \<Longrightarrow> pm_entries (ts_memory st ! p) = []" for p
    by (auto simp: memory_new_def)
  from assms e show ?thesis
    using new empty disk_append_offset nth_mem
    by (fastforce simp: send_append_def Let_def not_le split: option.split_asm if_split_asm sum.split_asm prod.split_asm pressure_level.split_asm)
qed

text \<open>
  C24: a topic that is not in the configuration starts over after a restart. When the first use of a
  topic is a send, whatever segments and committed offsets earlier runs left on the disk, the message
  is accepted at offset 0; and a consumer of a group that had committed any offset starts to read
  after that offset, and from no cursor from there on does the buffer yield the message.
\<close>

theorem lazy_topic_restarts_at_zero:
  assumes "cl_topics cl (msg_topic msg) = None"
    and "producer_send ser hash env id fsync now msg cl f = (Inr rc, cl', f')"
    and "next_after (Inr (Some v)) = Inr n" and "n \<le> k"
  shows "rc_offset rc = 0 \<and> (\<exists>st. cl_topics cl' (msg_topic msg) = Some st \<and>
    read_from k mx (ts_memory st ! unat (rc_partition rc)) = [])"
proof -
  obtain t cl1 f1 where a: "send_append ser hash env msg cl f = (Inr t, cl1, f1)" and p: "send_publish fsync now t cl1 = (Inr rc, cl')"
    using assms(2) by (auto simp: producer_send_def split: sum.split_asm prod.split_asm)
  from send_append_new [OF a assms(1)] obtain st where st: "cl_topics cl1 (tk_topic t) = Some st"
    "unat (tk_partition t) < length (ts_memory st)" "pm_entries (ts_memory st ! unat (tk_partition t)) = []"
    "ao_offset (tk_outcome t) = 0" "tk_topic t = msg_topic msg"
    by auto
  have "0 < n"
    using assms(3) by (auto simp: next_after_def checked_inc_Some word_less_nat_alt word_facts split: option.split_asm)
  with assms(4) have "0 < k"
    by (rule less_le_trans [rotated])
  with p st enqueue_empty [OF _ st(3)] show ?thesis
    by (fastforce simp: send_publish_def Let_def split: sum.split_asm prod.split_asm sync_mode.split_asm)
qed

text \<open>The disk after an earlier run: a segment, and offset 7 committed for the group \<open>g\<close>.\<close>

definition restart_fs :: fs where
  "restart_fs = (sample_committed 7)(segment_path (partition_dir [''q''] ''t'' 0) 0 \<mapsto> frame 7 [])"

definition restart_client :: client where
  "restart_client = \<lparr>cl_root = [''q''], cl_default_sync = Lazy, cl_topics = Map.empty, cl_closed = False\<rparr>"

definition restart_env :: send_env where
  "restart_env = sample_send_env\<lparr>se_open := \<lambda>p. \<lparr>oe_mkdir = Inr (),
     oe_listing = Inr [segment_path (partition_dir [''q''] ''t'' (of_nat p)) 0], oe_io = AppendOk\<rparr>\<rparr>"

definition restart_writer :: "nat \<Rightarrow> disk_writer" where
  "restart_writer p = \<lparr>dw_topic = ''t'', dw_partition = of_nat p, dw_root = [''q''], dw_config = topic_config_default,
     active_segment_id = 0, active_segment_path = segment_path (partition_dir [''q''] ''t'' (of_nat p)) 0,
     active_segment_size = length (contents (segment_path (partition_dir [''q''] ''t'' (of_nat p)) 0) restart_fs),
     dw_next_offset = 0\<rparr>"

lemma restart_open:
  "open_writers ''t'' [''q''] topic_config_default (se_open restart_env) ps restart_fs = (Inr (map restart_writer ps), restart_fs)"
  by (induction ps) (simp_all add: writer_open_def restart_env_def list_segments_def map_filter_simps restart_writer_def Let_def)

lemma restart_ensure:
  "ensure_topic_async ''t'' topic_config_default (se_directory restart_env) (se_open restart_env) id restart_client restart_fs =
   (let st = \<lparr>ts_config = topic_config_default,
       ts_memory = map (\<lambda>p. memory_new (of_nat p) (memory_capacity topic_config_default)) [0..<unat (partition_count topic_config_default)],
       ts_writers = map restart_writer [0..<unat (partition_count topic_config_default)]\<rparr>
    in (Inr st, restart_client\<lparr>cl_topics := [''t'' \<mapsto> st]\<rparr>, restart_fs))"
proof -
  have "validate_topic ''t'' = Inr ()"
    by (simp add: validate_topic_def name_char_def is_ascii_alphanumeric_def Let_def)
  moreover have "se_directory restart_env = Inr ()"
    by (simp add: restart_env_def sample_send_env_def)
  moreover have "cl_root restart_client = [''q'']" "cl_topics restart_client = Map.empty"
    by (simp_all add: restart_client_def)
  ultimately show ?thesis
    by (simp add: ensure_topic_async_def restart_open Let_def del: upt_rec_numeral)
qed

lemma restart_append:
  "\<exists>w f. disk_append (\<lambda>_. Some []) AppendOk AppendOk id msg (restart_writer 0) restart_fs =
     (Inr \<lparr>ao_segment_path = segment_path (partition_dir [''q''] ''t'' 0) 0, ao_offset = 0\<rparr>, w, f)"
  by (simp add: disk_append_def reserve_offset_def checked_inc_def write_frame_def rotate_def rotation_bytes_def
      restart_writer_def restart_fs_def contents_def topic_config_default_def Let_def)

lemma restart_pressure: "pressure (memory_new 0 (memory_capacity topic_config_default)) = None"
  by (simp add: pressure_def depth_def memory_new_def ratio_ge_095_def ratio_ge_075_def topic_config_default_def)

lemma restart_send:
  "\<exists>rc cl' f'. producer_send (\<lambda>_. Some []) (\<lambda>_. 0) restart_env id (Inr ()) 0 (message_new ''t'' ''a'' [] 0) restart_client restart_fs =
     (Inr rc, cl', f')"
proof -
  let ?msg = "message_new ''t'' ''a'' [] 0"
  obtain w f where d: "disk_append (\<lambda>_. Some []) AppendOk AppendOk id ?msg (restart_writer 0) restart_fs =
     (Inr \<lparr>ao_segment_path = segment_path (partition_dir [''q''] ''t'' 0) 0, ao_offset = 0\<rparr>, w, f)"
    using restart_append by blast
  have msg: "msg_topic ?msg = ''t''" "tenant_id ?msg = ''a''"
    by (simp_all add: message_new_def)
  have cfg: "partition_count topic_config_default = 16" "partition_for (\<lambda>_. 0) ''a'' 16 = Some 0"
    "sync_mode_override topic_config_default = None" "cl_default_sync restart_client = Lazy" "cl_topics restart_client = Map.empty"
    by (simp_all add: topic_config_default_def partition_for_def restart_client_def)
  have env: "se_rotate restart_env = AppendOk" "se_append restart_env = AppendOk"
    by (simp_all add: restart_env_def sample_send_env_def)
  have upt: "[0..<16] = 0 # [1..<16 :: nat]"
    by (simp add: upt_rec)
  show ?thesis
    using d restart_ensure [unfolded cfg] restart_pressure
    by (simp add: producer_send_def send_append_def send_publish_def msg cfg env upt Let_def enqueue_with_offset_def
        enqueue_at_def checked_inc_def memory_new_def del: upt_rec_numeral)
qed

theorem lazy_topic_restarts_at_zero_witness:
  "offset_read (deser_offset sample_codec) sample_key ReadOk restart_fs = Inr (Some 7) \<and>
   (\<exists>rc cl' f' st. producer_send (\<lambda>_. Some []) (\<lambda>_. 0) restart_env id (Inr ()) 0 (message_new ''t'' ''a'' [] 0) restart_client restart_fs =
      (Inr rc, cl', f') \<and> rc_offset rc = 0 \<and> cl_topics cl' ''t'' = Some st \<and>
      read_from 8 9 (ts_memory st ! unat (rc_partition rc)) = [])"
proof -
  have "key_meta sample_key \<noteq> segment_path (partition_dir [''q''] ''t'' 0) 0"
    using segment_not_meta [of "[''q'']" "''t''" 0 0] by (metis sample_key_def queue_key.select_convs)
  then have committed: "offset_read (deser_offset sample_codec) sample_key ReadOk restart_fs = Inr (Some 7)"
    by (simp add: offset_read_def sample_valid read_bytes_def fs_read_def restart_fs_def sample_committed_def offset_decode_def
        sample_codec_def sample_key_group)
  obtain rc cl' f' where send: "producer_send (\<lambda>_. Some []) (\<lambda>_. 0) restart_env id (Inr ()) 0 (message_new ''t'' ''a'' [] 0)
      restart_client restart_fs = (Inr rc, cl', f')"
    using restart_send by blast
  have topic: "msg_topic (message_new ''t'' ''a'' [] 0) = ''t''" "cl_topics restart_client (msg_topic (message_new ''t'' ''a'' [] 0)) = None"
    by (simp_all add: message_new_def restart_client_def)
  have "next_after (Inr (Some 7)) = Inr 8"
    by (simp add: next_after_def checked_inc_def)
  from lazy_topic_restarts_at_zero [OF topic(2) send this order_refl, of 9] committed send topic(1) show ?thesis
    by auto
qed

section \<open>Messages published out of order\<close>

text \<open>Two messages, and the states of a partition between the steps of their producers.\<close>

definition msg_p :: message where "msg_p = message_new ''t'' ''a'' [1] 0"
definition msg_q :: message where "msg_q = message_new ''t'' ''a'' [2] 0"

definition entry_of_msg :: "message \<Rightarrow> u64 \<Rightarrow> memory_entry" where
  "entry_of_msg msg off = \<lparr>me_message = msg, me_message_id = message_id_new 0 0 off, me_offset = off\<rparr>"

definition gap_segment :: path where
  "gap_segment = segment_path (partition_dir [''q''] ''t'' 0) 0"

definition gap_writer :: "nat \<Rightarrow> disk_writer" where
  "gap_writer n = \<lparr>dw_topic = ''t'', dw_partition = 0, dw_root = [''q''], dw_config = topic_config_default,
     active_segment_id = 0, active_segment_path = gap_segment, active_segment_size = 12 * n, dw_next_offset = of_nat n\<rparr>"

definition gap_memory :: "(u64 \<times> memory_entry) list \<Rightarrow> u64 \<Rightarrow> memory" where
  "gap_memory es n = \<lparr>pm_partition = 0, pm_capacity = 8, pm_entries = es, pm_next_offset = n\<rparr>"

definition gap_client :: "(u64 \<times> memory_entry) list \<Rightarrow> u64 \<Rightarrow> nat \<Rightarrow> client" where
  "gap_client es n k = partition_client (gap_memory es n) (gap_writer k)"

definition gap_fs :: "bytes \<Rightarrow> fs" where
  "gap_fs b = sample_leased(gap_segment \<mapsto> b)"

definition gap_ticket :: "message \<Rightarrow> u64 \<Rightarrow> send_ticket" where
  "gap_ticket msg off = \<lparr>tk_topic = ''t'', tk_partition = 0, tk_message = msg,
     tk_outcome = \<lparr>ao_segment_path = gap_segment, ao_offset = off\<rparr>\<rparr>"

lemma gap_append:
  assumes "msg_topic msg = ''t''" and "n < 2" and "length es < 2"
  shows "send_append (\<lambda>_. Some []) (\<lambda>_. 0) sample_send_env msg (gap_client es k n) (gap_fs b) =
    (Inr (gap_ticket msg (of_nat n)), gap_client es k (Suc n), gap_fs (b @ frame (of_nat n) []))"
proof -
  have "n = 0 \<or> n = 1" "length es = 0 \<or> length es = 1"
    using assms(2,3) by (simp_all add: less_2_cases_iff)
  then show ?thesis
    using assms(1)
    by (auto simp: send_append_def gap_client_def partition_client_def partition_for_def pressure_def depth_def gap_memory_def
        ratio_ge_095_def ratio_ge_075_def disk_append_def reserve_offset_def checked_inc_def write_frame_def rotate_def
        rotation_bytes_def gap_writer_def topic_config_default_def sample_send_env_def contents_def gap_fs_def gap_ticket_def Let_def)
qed

lemma gap_publish:
  assumes "length es < 2" and "off < 2"
  shows "\<exists>rc. send_publish (Inr ()) 0 (gap_ticket msg off) (gap_client es n k) =
    (Inr rc, gap_client (bt_insert off (entry_of_msg msg off) es) (max n (off + 1)) k) \<and>
    rc_offset rc = off \<and> rc_message_id rc = message_id_new 0 0 off"
proof -
  have "off \<noteq> - 1"
    using assms(2) by auto
  then show ?thesis
    using assms(1)
    by (auto simp: send_publish_def gap_ticket_def gap_client_def partition_client_def enqueue_with_offset_def enqueue_at_def
        checked_inc_def gap_memory_def entry_of_msg_def topic_config_default_def Let_def split: option.splits)
qed

lemma gap_topics: "msg_topic msg_p = ''t''" "msg_topic msg_q = ''t''"
  by (simp_all add: msg_p_def msg_q_def message_new_def)

lemma gap_open: "cl_root (gap_client es n k) = [''q'']" "\<not> cl_closed (gap_client es n k)"
  by (simp_all add: gap_client_def partition_client_def)

lemma gap_files:
  "gap_fs b (key_lease sample_key) = Some (lease_bytes ''a'' 15)" "gap_fs b (key_meta sample_key) = None"
proof -
  have "key_meta sample_key \<noteq> gap_segment" "key_lease sample_key \<noteq> gap_segment"
    by (simp_all add: gap_segment_def segment_path_def partition_dir_def meta_path_def lease_path_def sample_key_def)
  then show "gap_fs b (key_lease sample_key) = Some (lease_bytes ''a'' 15)" "gap_fs b (key_meta sample_key) = None"
    by (simp_all add: gap_fs_def sample_leased_def)
qed

lemma gap_poll:
  assumes "f (key_lease sample_key) = Some (lease_bytes ''a'' 15)" and "read_from n mx (gap_memory es k) = ms"
    and "absorb [] \<lparr>sb_topic = ''t'', sb_partition = 0, sb_pending = [], next_read_offset = n\<rparr> ms =
      (Inr out, \<lparr>sb_topic = ''t'', sb_partition = 0, sb_pending = ps, next_read_offset = n'\<rparr>)"
    and "mx = 0 \<Longrightarrow> out = [] \<and> ps = [] \<and> n' = n"
  shows "poll_once sample_codec (\<lambda>_. sample_access) (gap_client es k w) f mx (sample_consumer [] n) =
    (Inr out, sample_consumer ps n')"
proof -
  note own = sample_validate [of f, OF assms(1) _ gap_open, of _ es k w "[]" n]
  have mem: "sub_memory (gap_client es k w) s = Some (gap_memory es k)" if "sb_key s = (''t'', 0)" for s
    using that by (simp add: sub_memory_def gap_client_def partition_client_def)
  have "check_usable (gap_client es k w) (sample_consumer [] n)"
    by (simp add: check_usable_def gap_open sample_consumer_def)
  then show ?thesis
    using own mem assms(2-4)
    by (cases "mx = 0") (simp_all add: poll_once_def poll_sub_def sample_consumer_def Let_def)
qed

abbreviation gap_pending :: pending where
  "gap_pending \<equiv> \<lparr>pd_memo = entry_of_msg msg_q 1, acknowledged = False, retry = False\<rparr>"

lemma gap_ack:
  "ack sample_codec (\<lambda>_. sample_access) (gap_client es k w) [message_id_new 0 0 1] (sample_consumer [gap_pending] 2) (gap_fs b) =
   (Inr (), sample_consumer [] 2, (gap_fs b)(key_meta sample_key \<mapsto> lease_bytes ''g'' 1))"
proof -
  note own = sample_validate [of "gap_fs b", OF gap_files(1) _ gap_open, of _ es k w "[gap_pending]" 2]
  have "check_usable (gap_client es k w) (sample_consumer [gap_pending] 2)"
    by (simp add: check_usable_def gap_open sample_consumer_def)
  then show ?thesis
    using own sample_commit [of "gap_fs b" 1, OF gap_files, unfolded sample_key_def] gap_open(1) [of es k w]
    by (simp add: ack_def ack_sub_def targeted_def acked_prefix_def mark_acked_def entry_of_msg_def sample_access_def lost_def
        Let_def sample_consumer_def sample_key_def)
qed


end
