(* ===== verification/Spec2Isabelle.thy ===== *)
theory Spec2Isabelle
  imports Ledger_Recovery Ledger_Service Circuit_Breaker Mvcc_Resolution Wal_Header Write_Intent Tx_Waiting Tx_Commit Queue_Delivery
begin

text \<open>
  Verification library for ProximaDB: the parts of the database whose correctness is a matter of
  protocol and state rather than of numerics, translated from the Rust sources under \<^verbatim>\<open>src/\<close>.

  \<^bold>\<open>The parts and how they interact.\<close>
  \<^item> The budget ledger (\<^verbatim>\<open>crates/modalities/proximadb-ledger\<close>) reserves and settles units of spend per
    scope. \<open>InMemoryLedger\<close> holds the state, \<open>DurableLedger\<close> wraps it with a framed log, and the port
    (\<^verbatim>\<open>service.rs\<close>) confines tenants to their scopes.
  \<^item> The transaction subsystem (\<^verbatim>\<open>crates/storage/proximadb-storage-transaction\<close>) has operations and
    isolation levels, the context of one transaction, and a manager with a lock table, waiting
    clients, validation, two-phase commit and timeouts.
  \<^item> The queue (\<^verbatim>\<open>crates/horizontal/proximadb-queue\<close>): producers append frames to segment files and
    publish them in a memory buffer; consumers of a group own a partition through a lease file, poll,
    acknowledge and so advance the committed offset of the group; recovery replays the segments, an
    uploader archives and a reaper deletes them.
  \<^item> Stand-alone parts: the circuit breaker, the MVCC resolvers of record versions, the header of WAL
    segments and the router of write lanes.

  \<^bold>\<open>Theories and what they model.\<close>
  \<^item> \<open>Prelude\<close>: machine words with saturation, little-endian bytes, association lists, decimal texts.
    \<open>Rust_Std\<close>: what the queue uses of the standard library (checked increments, big-endian bytes,
    number parsing, \<open>BTreeMap\<close> as a sorted association list, the \<open>f32\<close> comparison of the pressure levels).
  \<^item> \<open>Ledger_Memory\<close> (\<^verbatim>\<open>types.rs\<close>, \<^verbatim>\<open>memory.rs\<close>), \<open>Ledger_Durable\<close> and \<open>Ledger_Recovery\<close> (\<^verbatim>\<open>durable.rs\<close>),
    \<open>Ledger_Service\<close> (\<^verbatim>\<open>service.rs\<close>; the locale \<open>ledger_frame\<close> is the contract of a ledger behind the port,
    interpreted on both ledgers).
  \<^item> \<open>Circuit_Breaker\<close> (\<^verbatim>\<open>circuit_breaker.rs\<close>), \<open>Mvcc_Resolution\<close> (\<^verbatim>\<open>mvcc_resolution.rs\<close>), \<open>Wal_Header\<close> (the WAL
    segment header), \<open>Write_Intent\<close> (\<^verbatim>\<open>proximadb-write-intent\<close>).
  \<^item> \<open>Tx_Operations\<close>, \<open>Tx_Context\<close>, \<open>Tx_Manager\<close>: operations, isolation and locks, the context, and every
    operation of the manager. \<open>Tx_Locking\<close>: the interleaving of clients as the step relation \<open>tx_step\<close>.
    \<open>Tx_Waiting\<close>: the lock-wait loop. \<open>Tx_Commit\<close>: commit, capacity and timeouts.
  \<^item> \<open>Queue_Store\<close> (\<^verbatim>\<open>leases.rs\<close>, \<^verbatim>\<open>offset_store.rs\<close>, \<^verbatim>\<open>file_lock.rs\<close>, \<^verbatim>\<open>fs.rs\<close>) and \<open>Queue_Fencing\<close>: leases and
    committed offsets, and their interleaving by any number of processes as \<open>queue_step\<close>.
    \<open>Queue_Memory\<close> (\<^verbatim>\<open>message.rs\<close>, \<^verbatim>\<open>memory_tier.rs\<close>; the locale \<open>retained_log\<close> is what consumers rely on,
    interpreted on the buffer). \<open>Queue_Disk\<close> (\<^verbatim>\<open>disk_tier.rs\<close>, \<^verbatim>\<open>config.rs\<close>). \<open>Queue_Recovery\<close>
    (\<^verbatim>\<open>recovery.rs\<close>, and the definitions of \<^verbatim>\<open>reaper.rs\<close> and \<^verbatim>\<open>object_tier.rs\<close>), \<open>Queue_Retention\<close> (their
    properties). \<open>Queue_Client\<close> (\<^verbatim>\<open>lib.rs\<close>, \<^verbatim>\<open>producer.rs\<close>, \<^verbatim>\<open>topic.rs\<close>). \<open>Queue_Consumer\<close> (\<^verbatim>\<open>consumer.rs\<close>,
    with the runs of a consumer as \<open>consumer_step\<close>). \<open>Queue_Delivery\<close>: producers, buffers and consumers
    together, opening and shutdown of a client, and its operations interleaved as \<open>client_step\<close>.

  \<^bold>\<open>How state and effects are represented.\<close> A struct is a record, an enum a datatype. A mutex-protected
  operation is one function from the state to the result and the new state; where the source
  releases the lock or awaits, the work of other clients is an argument (\<open>others\<close>, a schedule, or an
  \<open>attempt\<close> record) or the operation is a rule of a step relation. Clocks, uuids, serializers, hashes and
  the outcome of every I/O call are arguments, so the theorems hold for all of them; what is assumed of
  a serializer is a named hypothesis (\<open>codec_ok\<close>, \<open>codec_sound\<close>, \<open>logged_ok\<close>) and has a witness. A
  \<open>HashMap\<close> that is iterated is an association list in any order. \<open>u32\<close> and \<open>u64\<close> are words; sizes are
  natural numbers; \<open>i64\<close> and \<open>u128\<close> are integers and naturals with their bounds written out. Errors are
  values of a sum type; log messages and metrics are left out, and error texts leave out formatted
  paths.

  \<^bold>\<open>What the lemmas show.\<close> Ledger: the cap of a scope is never overshot; a restart restores the state
  and a crash at any byte restores a prefix; a tenant never sees or moves the units of another.
  Transactions: serializable clients exclude each other on a locked resource, waiting ends, a commit
  ends the transaction and frees its locks, capacity and timeouts. Queue: a lease is displaced only
  after its expiry, offsets never regress and are fenced by the lease, recovery restores exactly the
  uncommitted frames, sealed segments are never lost, polls read consecutive offsets, and a consumer
  never commits past a delivery that is not acknowledged, whatever fails. MVCC: both resolvers return
  the reference answer and agree. The breaker limits its probes; headers round-trip. Where the
  code does not do what it means to, a theorem states what it does instead (\<open>append_after_torn_tail_lost\<close>,
  \<open>late_settle_diverges\<close>, \<open>foreign_settle_charged_after_restart\<close>, \<open>late_success_wedges\<close>, \<open>savepoint_multiplies\<close>,
  \<open>handed_over_lock_leaks\<close>, \<open>commit_after_abort_succeeds\<close>, \<open>committed_writes_not_validated\<close>,
  \<open>torn_segment_blocks_recovery\<close>, \<open>reaper_deletes_unconsumed\<close>, \<open>gap_message_lost\<close>, \<open>full_partition_stays_full\<close>,
  \<open>lazy_topic_restarts_at_zero\<close>).

  \<^bold>\<open>Bounds and termination.\<close> Every function is total. Loops over bytes and lists recurse on what is left
  (\<open>replay_frames\<close>, \<open>last_offset_loop\<close> and the log readers with the length as measure). The retry loops of
  leases and offsets have the eight attempts of the source. The lock-wait loop runs along a schedule of
  polls; \<open>acquire_lock_returns\<close> shows that a schedule reaching past the timeout is long enough.

  \<^bold>\<open>Not modelled.\<close> The rest of the repository: query languages and planners, network protocols and API
  servers, generated protocol code and clients, vector indexes, quantization and distance kernels
  (numeric code whose correctness is approximate), storage engines and the object-store adapters (I/O
  around third-party formats), clustering, security middleware, AI and analytics services, metrics. Of
  the modelled crates: background task loops and their timers, parsing of the root URL of the
  queue, the group-commit task (its outcome is an argument of sending), the transaction log
  (which no operation of the manager writes), poisoned mutexes, and logging.
\<close>

section \<open>Properties that span components\<close>

text \<open>
  C36: tenant isolation does not survive a restart. Tenant \<open>b\<close> reserves, the sweep reclaims the
  expired lease, and then any other tenant \<open>a\<close> settles that reservation id with an amount of its
  choice: the port takes an unknown id for a harmless no-op and passes it on, the durable ledger
  logs it. Until the restart \<open>b\<close> has no spend; after it the amount chosen by \<open>a\<close> is booked on \<open>b\<close>.
\<close>

theorem foreign_settle_charged_after_restart:
  assumes "i64_sat_add t0 ttl \<le> t1"
    and "codec_ok ser deser (LogReserve 0 (key b s) c (i64_sat_add t0 ttl))"
    and "codec_ok ser deser (LogSettle 0 u t2)"
  shows "let l = fold (svc_exec (durable_ops ser))
                   [SvcReserve b s c t0 ttl, SvcReclaim t1, SvcSettle a 0 u t2]
                   ([], durable_open deser sp [])
         in svc_spent (durable_ops ser) b s l = 0 \<and>
            svc_spent (durable_ops ser) b s ([], durable_open deser sp (wal (snd l))) = u"
proof -
  let ?o = "durable_open deser sp []"
  let ?d = "fold (durable_exec ser IoOk) [Reserve (key b s) c t0 ttl, Reclaim t1] ?o"
  have "\<forall>r \<in> set (run_records [Reserve (key b s) c t0 ttl, Reclaim t1] (mem ?o)). codec_ok ser deser r"
    using assms(2)
    by (simp add: reserve_def check_admit_def roll_def ledger_new_def Let_def new_reservation_def
        peek_next_id_def)
  from conjunct1 [OF durable_run_ok [OF this]] have "leases (mem ?d) = []"
    using assms(1)
    by (simp add: reserve_def check_admit_def roll_def ledger_new_def Let_def new_reservation_def
        peek_next_id_def apply_reserve_def add_reserved_def reclaim_expired_def reclaim_one_def
        sub_reserved_def)
  then have "fold (svc_exec (durable_ops ser))
      [SvcReserve b s c t0 ttl, SvcReclaim t1, SvcSettle a 0 u t2] ([], ?o) =
    ([], fold (durable_exec ser IoOk) [Reserve (key b s) c t0 ttl, Reclaim t1, Settle 0 u t2] ?o)"
    by (simp add: svc_reserve_def svc_reclaim_expired_def svc_settle_def durable_ops_def
        reservation_scope_def split_beta Let_def)
  with late_settle_spent [OF assms, of sp] show ?thesis
    by (simp add: Let_def svc_spent_def durable_ops_def del: fold_simps)
qed

theorem foreign_settle_charged_after_restart_witness:
  "let tab = [LogReserve 0 (key ''b'' ''g'') 5 60, LogSettle 0 3 70];
       l = fold (svc_exec (durable_ops (table_ser tab)))
             [SvcReserve ''b'' ''g'' 5 0 60, SvcReclaim 61, SvcSettle ''a'' 0 3 70]
             ([], durable_open (table_deser tab) PerOp [])
   in svc_spent (durable_ops (table_ser tab)) ''b'' ''g'' l = 0 \<and>
      svc_spent (durable_ops (table_ser tab)) ''b'' ''g''
        ([], durable_open (table_deser tab) PerOp (wal (snd l))) = 3"
proof -
  let ?tab = "[LogReserve 0 (key ''b'' ''g'') 5 60, LogSettle 0 3 70]"
  have t: "i64_sat_add 0 60 = 60"
    by (simp add: i64_sat_add_def i64_max_def i64_min_def)
  have "codec_ok (table_ser ?tab) (table_deser ?tab) (LogReserve 0 (key ''b'' ''g'') 5 60)"
    "codec_ok (table_ser ?tab) (table_deser ?tab) (LogSettle 0 3 70)"
    by (simp_all add: codec_ok_def table_ser_def table_deser_def)
  then show ?thesis
    using foreign_settle_charged_after_restart
      [of 0 60 61 "table_ser ?tab" "table_deser ?tab" "''b''" "''g''" 5 3 70 "''a''" PerOp]
    unfolding t by (simp add: Let_def del: fold_simps)
qed

end
